(* ===== verification/Prelude.thy ===== *)
theory Prelude
  imports Main "HOL-Library.Word" "HOL-Library.List_Lexorder"
begin

text \<open>
  Shared vocabulary of the development: the machine types of the Rust sources (bytes, 16-, 32-
  and 64-bit unsigned integers), the saturating and absolute-difference arithmetic the relay
  applies to them, big-endian byte strings, and the list operations of the standard library that
  the components use (\<^verbatim>\<open>position\<close>, \<^verbatim>\<open>Vec::remove\<close>, keyed sorting).  Two interfaces that several
  components share are stated here as locales: a codec with its round trip, and a transition
  system with an invariant that every operation keeps.

  A byte array of Rust compares lexicographically; so do byte lists here, by the order of
  \<^verbatim>\<open>HOL-Library.List_Lexorder\<close>.  Counts (\<^verbatim>\<open>usize\<close>) are natural numbers: each of them is the
  length of a collection held in memory.  Wall-clock milliseconds (\<^verbatim>\<open>u64\<close>) keep their width.
\<close>

section \<open>Machine types\<close>

type_synonym u8 = "8 word"
type_synonym u16 = "16 word"
type_synonym u32 = "32 word"
type_synonym u64 = "64 word"
type_synonym bytes = "8 word list"

named_theorems wire_simps \<open>lengths and splits of encoded fields\<close>
named_theorems inv_intros \<open>operations that keep an invariant\<close>

text \<open>\<^verbatim>\<open>u64::saturating_add\<close>, \<^verbatim>\<open>u64::saturating_sub\<close> and \<^verbatim>\<open>u64::abs_diff\<close>.\<close>

definition sat_add :: "u64 \<Rightarrow> u64 \<Rightarrow> u64" where
  "sat_add a b = (if unat a + unat b < 2 ^ 64 then a + b else - 1)"

definition sat_sub :: "u64 \<Rightarrow> u64 \<Rightarrow> u64" where
  "sat_sub a b = (if a \<le> b then 0 else a - b)"

definition abs_diff :: "u64 \<Rightarrow> u64 \<Rightarrow> u64" where
  "abs_diff a b = (if a < b then b - a else a - b)"

text \<open>\<^verbatim>\<open>to_be_bytes\<close> and \<^verbatim>\<open>from_be_bytes\<close>: the width is a number of bytes.\<close>

fun be_encode :: "nat \<Rightarrow> nat \<Rightarrow> bytes" where
  "be_encode 0 x = []"
| "be_encode (Suc n) x = be_encode n (x div 256) @ [word_of_nat (x mod 256)]"

definition be_decode :: "bytes \<Rightarrow> nat" where
  "be_decode bs = foldl (\<lambda>acc b. acc * 256 + unat b) 0 bs"

definition u16_be :: "u16 \<Rightarrow> bytes" where
  "u16_be w = be_encode 2 (unat w)"

definition u32_be :: "u32 \<Rightarrow> bytes" where
  "u32_be w = be_encode 4 (unat w)"

definition u64_be :: "u64 \<Rightarrow> bytes" where
  "u64_be w = be_encode 8 (unat w)"

definition u16_of_be :: "bytes \<Rightarrow> u16" where
  "u16_of_be bs = word_of_nat (be_decode bs)"

definition u32_of_be :: "bytes \<Rightarrow> u32" where
  "u32_of_be bs = word_of_nat (be_decode bs)"

definition u64_of_be :: "bytes \<Rightarrow> u64" where
  "u64_of_be bs = word_of_nat (be_decode bs)"

text \<open>\<^verbatim>\<open>value.get(offset..offset + 8)\<close> read as a big-endian integer.\<close>

definition slice :: "bytes \<Rightarrow> nat \<Rightarrow> nat \<Rightarrow> bytes option" where
  "slice bs off n = (if off + n \<le> length bs then Some (take n (drop off bs)) else None)"

text \<open>An ASCII byte-string literal of the source.\<close>

definition ascii :: "string \<Rightarrow> bytes" where
  "ascii s = map (\<lambda>c. word_of_nat (of_char c)) s"

section \<open>Vectors\<close>

text \<open>\<^verbatim>\<open>iter().position(p)\<close> and \<^verbatim>\<open>Vec::remove\<close>.\<close>

fun position :: "('a \<Rightarrow> bool) \<Rightarrow> 'a list \<Rightarrow> nat option" where
  "position P [] = None"
| "position P (x # xs) = (if P x then Some 0 else map_option Suc (position P xs))"

definition remove_nth :: "nat \<Rightarrow> 'a list \<Rightarrow> 'a list" where
  "remove_nth i xs = take i xs @ drop (Suc i) xs"

text \<open>Retains the first occurrence of every key: \<^verbatim>\<open>retain(|x| seen.insert(key(x)))\<close>.\<close>

fun dedup_by :: "('a \<Rightarrow> 'k) \<Rightarrow> 'k list \<Rightarrow> 'a list \<Rightarrow> 'a list" where
  "dedup_by f seen [] = []"
| "dedup_by f seen (x # xs) =
     (if f x \<in> set seen then dedup_by f seen xs else x # dedup_by f (f x # seen) xs)"

section \<open>Arithmetic\<close>

lemma unat_sat_add: "unat (sat_add a b) = min (unat a + unat b) (2 ^ 64 - 1)"
proof (cases "unat a + unat b < 2 ^ 64")
  case True
  then show ?thesis by (simp add: sat_add_def unat_word_ariths)
next
  case False
  then show ?thesis by (simp add: sat_add_def unsigned_minus_1_eq_mask mask_eq_exp_minus_1)
qed

lemma unat_sat_sub: "unat (sat_sub a b) = unat a - unat b"
  by (simp add: sat_sub_def word_le_nat_alt unat_sub)

lemma unat_abs_diff: "unat (abs_diff a b) = (unat a - unat b) + (unat b - unat a)"
  by (auto simp: abs_diff_def word_less_nat_alt unat_sub word_le_nat_alt)

lemma abs_diff_commute: "abs_diff a b = abs_diff b a"
  by (auto simp: word_unat_eq_iff unat_abs_diff)

lemma abs_diff_self [simp]: "abs_diff a a = 0"
  by (simp add: abs_diff_def)

section \<open>Big-endian byte strings\<close>

lemma length_be_encode [simp]: "length (be_encode n x) = n"
  by (induction n arbitrary: x) simp_all

lemma be_decode_snoc [simp]: "be_decode (bs @ [b]) = be_decode bs * 256 + unat b"
  by (simp add: be_decode_def)

lemma be_decode_Nil [simp]: "be_decode [] = 0"
  by (simp add: be_decode_def)

lemma be_decode_encode: "be_decode (be_encode n x) = x mod 256 ^ n"
proof (induction n arbitrary: x)
  case 0
  then show ?case by simp
next
  case (Suc n)
  have "unat (word_of_nat (x mod 256) :: u8) = x mod 256"
    by (simp add: unat_of_nat)
  then have "be_decode (be_encode (Suc n) x) = (x div 256) mod 256 ^ n * 256 + x mod 256"
    by (simp add: Suc.IH)
  also have "\<dots> = x mod 256 ^ Suc n"
    by (simp add: mod_mult2_eq mult.commute)
  finally show ?case .
qed

lemma be_decode_bound: "be_decode bs < 256 ^ length bs"
proof (induction bs rule: rev_induct)
  case Nil
  then show ?case by simp
next
  case (snoc b bs)
  have "unat b < 256" using unsigned_less [of b, where ?'a=nat] by simp
  with snoc.IH have "be_decode bs * 256 + unat b < 256 ^ length bs * 256" by linarith
  then show ?case by (simp add: mult.commute)
qed

lemma be_encode_decode: "be_encode (length bs) (be_decode bs) = bs"
proof (induction bs rule: rev_induct)
  case Nil
  then show ?case by simp
next
  case (snoc b bs)
  have "unat b < 256" using unsigned_less [of b, where ?'a=nat] by simp
  then have "(be_decode bs * 256 + unat b) div 256 = be_decode bs"
    and "(be_decode bs * 256 + unat b) mod 256 = unat b" by auto
  with snoc.IH show ?case by simp
qed

lemma u16_be_length [simp]: "length (u16_be w) = 2"
  and u32_be_length [simp]: "length (u32_be v) = 4"
  and u64_be_length [simp]: "length (u64_be u) = 8"
  by (simp_all add: u16_be_def u32_be_def u64_be_def)

lemma u64_of_be_u64_be [simp]: "u64_of_be (u64_be w) = w"
  using unsigned_less [of w, where ?'a=nat] by (simp add: u64_be_def u64_of_be_def be_decode_encode)

lemma u32_of_be_u32_be [simp]: "u32_of_be (u32_be w) = w"
  using unsigned_less [of w, where ?'a=nat] by (simp add: u32_be_def u32_of_be_def be_decode_encode)

lemma u16_of_be_u16_be [simp]: "u16_of_be (u16_be w) = w"
  using unsigned_less [of w, where ?'a=nat] by (simp add: u16_be_def u16_of_be_def be_decode_encode)

lemma u64_be_inject [simp]: "u64_be a = u64_be b \<longleftrightarrow> a = b"
  by (metis u64_of_be_u64_be)

lemma u32_be_inject [simp]: "u32_be a = u32_be b \<longleftrightarrow> a = b"
  by (metis u32_of_be_u32_be)

lemma u16_be_inject [simp]: "u16_be a = u16_be b \<longleftrightarrow> a = b"
  by (metis u16_of_be_u16_be)

lemma u64_be_u64_of_be: "length bs = 8 \<Longrightarrow> u64_be (u64_of_be bs) = bs"
  using be_decode_bound [of bs] be_encode_decode [of bs]
  by (simp add: u64_be_def u64_of_be_def unat_of_nat)

lemma u16_be_u16_of_be: "length bs = 2 \<Longrightarrow> u16_be (u16_of_be bs) = bs"
  using be_decode_bound [of bs] be_encode_decode [of bs]
  by (simp add: u16_be_def u16_of_be_def unat_of_nat)

text \<open>The lexicographic order of big-endian strings is the numeric order.\<close>

lemma append_less_append:
  fixes xs ys us vs :: "'a::linorder list"
  shows "length xs = length ys \<Longrightarrow> xs @ us < ys @ vs \<longleftrightarrow> xs < ys \<or> xs = ys \<and> us < vs"
  by (induction xs ys rule: list_induct2) auto

lemma less_div_mod_iff:
  fixes x y k :: nat
  shows "x < y \<longleftrightarrow> x div k < y div k \<or> x div k = y div k \<and> x mod k < y mod k"
proof
  assume "x < y"
  then have "x div k \<le> y div k" by (simp add: div_le_mono)
  moreover have "x mod k < y mod k" if "x div k = y div k"
    using \<open>x < y\<close> that by (metis add_less_cancel_left div_mult_mod_eq)
  ultimately show "x div k < y div k \<or> x div k = y div k \<and> x mod k < y mod k" by auto
next
  assume "x div k < y div k \<or> x div k = y div k \<and> x mod k < y mod k"
  then show "x < y"
    by (metis add_less_cancel_left div_le_mono div_mult_mod_eq leD leI)
qed

lemma be_encode_less:
  "x < 256 ^ n \<Longrightarrow> y < 256 ^ n \<Longrightarrow> be_encode n x < be_encode n y \<longleftrightarrow> x < y"
proof (induction n arbitrary: x y)
  case 0
  then show ?case by simp
next
  case (Suc n)
  have bounds: "x div 256 < 256 ^ n" "y div 256 < 256 ^ n"
    using Suc.prems by (auto simp: less_mult_imp_div_less mult.commute)
  have eq: "be_encode n (x div 256) = be_encode n (y div 256) \<longleftrightarrow> x div 256 = y div 256"
    using bounds by (metis be_decode_encode mod_less)
  have last: "(word_of_nat (x mod 256) :: u8) < word_of_nat (y mod 256) \<longleftrightarrow> x mod 256 < y mod 256"
    by (simp add: word_less_nat_alt unat_of_nat)
  have "x < y \<longleftrightarrow> x div 256 < y div 256 \<or> x div 256 = y div 256 \<and> x mod 256 < y mod 256"
    by (rule less_div_mod_iff)
  then show ?case
    using Suc.IH [OF bounds] by (simp add: append_less_append eq last)
qed

lemma u64_be_less [simp]: "u64_be a < u64_be b \<longleftrightarrow> a < b"
  using unsigned_less [of a, where ?'a=nat] unsigned_less [of b, where ?'a=nat]
  by (simp add: u64_be_def be_encode_less word_less_nat_alt)

lemma slice_append_exact [wire_simps]:
  "length xs = off \<Longrightarrow> length ys = n \<Longrightarrow> slice (xs @ ys @ zs) off n = Some ys"
  by (simp add: slice_def)

lemma slice_Some_length: "slice bs off n = Some ys \<Longrightarrow> length ys = n"
  by (auto simp: slice_def split: if_splits)

section \<open>Vectors: lemmas\<close>

lemma position_Some:
  "position P xs = Some i \<Longrightarrow> i < length xs \<and> P (xs ! i) \<and> (\<forall>j < i. \<not> P (xs ! j))"
proof (induction xs arbitrary: i)
  case Nil
  then show ?case by simp
next
  case (Cons x xs)
  then show ?case
    by (auto split: if_splits simp: less_Suc_eq_0_disj)
qed

lemma position_None: "position P xs = None \<longleftrightarrow> (\<forall>x \<in> set xs. \<not> P x)"
  by (induction xs) auto

lemma length_remove_nth: "i < length xs \<Longrightarrow> length (remove_nth i xs) = length xs - 1"
  by (auto simp: remove_nth_def)

lemma set_remove_nth_subset: "set (remove_nth i xs) \<subseteq> set xs"
  by (auto simp: remove_nth_def dest: in_set_takeD in_set_dropD)

lemma map_remove_nth: "map f (remove_nth i xs) = remove_nth i (map f xs)"
  by (simp add: remove_nth_def take_map drop_map)

lemma remove_nth_split:
  "i < length xs \<Longrightarrow> xs = take i xs @ xs ! i # drop (Suc i) xs"
  by (rule id_take_nth_drop)

lemma distinct_remove_nth: "distinct xs \<Longrightarrow> distinct (remove_nth i xs)"
proof (cases "i < length xs")
  case True
  moreover assume "distinct xs"
  ultimately have "distinct (take i xs @ xs ! i # drop (Suc i) xs)"
    using remove_nth_split by metis
  then show ?thesis by (simp add: remove_nth_def)
next
  case False
  moreover assume "distinct xs"
  ultimately show ?thesis by (simp add: remove_nth_def)
qed

lemma set_remove_nth_distinct:
  assumes "distinct xs" and "i < length xs"
  shows "set (remove_nth i xs) = set xs - {xs ! i}"
proof -
  have eq: "xs = take i xs @ xs ! i # drop (Suc i) xs"
    using assms(2) by (rule remove_nth_split)
  have "distinct (take i xs @ xs ! i # drop (Suc i) xs)"
    using assms(1) eq by simp
  moreover have "set xs = set (take i xs @ xs ! i # drop (Suc i) xs)"
    using eq by simp
  ultimately show ?thesis by (auto simp: remove_nth_def)
qed

lemma set_remove_nth_insert: "i < length xs \<Longrightarrow> insert (xs ! i) (set (remove_nth i xs)) = set xs"
  using arg_cong [OF remove_nth_split [of i xs], of set] by (simp add: remove_nth_def)

lemma dedup_by_seen: "set (map f (dedup_by f seen xs)) \<inter> set seen = {}"
  by (induction f seen xs rule: dedup_by.induct) auto

lemma distinct_dedup_by: "distinct (map f (dedup_by f seen xs))"
proof (induction f seen xs rule: dedup_by.induct)
  case (1 f seen)
  then show ?case by simp
next
  case (2 f seen x xs)
  have "f x \<notin> set (map f (dedup_by f (f x # seen) xs))"
    using dedup_by_seen [of f "f x # seen" xs] by auto
  with 2 show ?case by simp
qed

lemma keys_dedup_by: "set (map f (dedup_by f seen xs)) = set (map f xs) - set seen"
  by (induction f seen xs rule: dedup_by.induct) auto

lemma set_dedup_by_subset: "set (dedup_by f seen xs) \<subseteq> set xs"
  by (induction f seen xs rule: dedup_by.induct) auto

lemma distinct_takeD: "distinct (xs :: 'a list) \<Longrightarrow> distinct (take n xs)"
  by simp

lemma sum_list_mono_le:
  fixes f g :: "'a \<Rightarrow> nat"
  shows "(\<And>x. x \<in> set xs \<Longrightarrow> f x \<le> g x) \<Longrightarrow> sum_list (map f xs) \<le> sum_list (map g xs)"
  by (rule sum_list_mono)

section \<open>Interfaces\<close>

text \<open>
  A codec: what the encoder writes for a well-formed value, the decoder reads back.  The
  consequences every wire format of the repository relies on follow: no two well-formed values
  share an encoding, so a signature over one cannot be replayed as the other.
\<close>

locale codec =
  fixes encode :: "'a \<Rightarrow> bytes"
    and decode :: "bytes \<Rightarrow> 'a option"
    and valid :: "'a \<Rightarrow> bool"
  assumes roundtrip: "valid x \<Longrightarrow> decode (encode x) = Some x"
begin

lemma encode_inj: "valid x \<Longrightarrow> valid y \<Longrightarrow> encode x = encode y \<Longrightarrow> x = y"
  by (metis option.inject roundtrip)

lemma encode_inj_on: "inj_on encode {x. valid x}"
  by (auto intro!: inj_onI dest: encode_inj)

end

text \<open>
  A deterministic system: a start state, operations with a guard on when they may run, and a
  predicate that holds at the start and that every guarded operation keeps.  It then holds after
  every sequence of operations whose guards held.
\<close>

fun trace_ok :: "('op \<Rightarrow> 's \<Rightarrow> 's) \<Rightarrow> ('op \<Rightarrow> 's \<Rightarrow> bool) \<Rightarrow> 'op list \<Rightarrow> 's \<Rightarrow> bool" where
  "trace_ok step ok [] s \<longleftrightarrow> True"
| "trace_ok step ok (x # xs) s \<longleftrightarrow> ok x s \<and> trace_ok step ok xs (step x s)"

lemma trace_ok_const: "P \<Longrightarrow> trace_ok step (\<lambda>_ _. P) xs s"
  by (induction xs arbitrary: s) auto

locale step_system =
  fixes start :: "'s"
    and step :: "'op \<Rightarrow> 's \<Rightarrow> 's"
    and ok :: "'op \<Rightarrow> 's \<Rightarrow> bool"
    and inv :: "'s \<Rightarrow> bool"
  assumes inv_start: "inv start"
    and inv_step: "inv s \<Longrightarrow> ok x s \<Longrightarrow> inv (step x s)"
begin

lemma inv_fold: "inv s \<Longrightarrow> trace_ok step ok xs s \<Longrightarrow> inv (fold step xs s)"
  by (induction xs arbitrary: s) (auto intro: inv_step)

lemma inv_run: "trace_ok step ok xs start \<Longrightarrow> inv (fold step xs start)"
  by (rule inv_fold) (rule inv_start)

end

end
