(* ===== verification/Keyspace.thy ===== *)
theory Keyspace
  imports Prelude
begin

text \<open>
  The key-value store under the relay.  A keyspace of the fjall package and a \<^verbatim>\<open>BTreeMap\<close> of the
  standard library are modelled alike: an association list with strictly increasing keys.  The
  package's possible failures are parameters (\<^verbatim>\<open>fjall_io\<close>): a prefix scan yields, position by
  position, the row or a read error, and a write or removal may be refused.  The laws of an ordered
  map are stated as a locale and discharged for these definitions.
\<close>

section \<open>Ordered maps\<close>

type_synonym keyspace = "(bytes \<times> bytes) list"

definition ks_wf :: "('k::linorder \<times> 'v) list \<Rightarrow> bool" where
  "ks_wf ks \<longleftrightarrow> sorted_wrt (<) (map fst ks)"

definition ks_get :: "('k \<times> 'v) list \<Rightarrow> 'k \<Rightarrow> 'v option" where
  "ks_get ks k = map_of ks k"

fun ks_insert :: "'k::linorder \<Rightarrow> 'v \<Rightarrow> ('k \<times> 'v) list \<Rightarrow> ('k \<times> 'v) list" where
  "ks_insert k v [] = [(k, v)]"
| "ks_insert k v ((k', v') # ks) =
     (if k < k' then (k, v) # (k', v') # ks
      else if k = k' then (k, v) # ks
      else (k', v') # ks_insert k v ks)"

definition ks_remove :: "'k \<Rightarrow> ('k \<times> 'v) list \<Rightarrow> ('k \<times> 'v) list" where
  "ks_remove k ks = filter (\<lambda>(k', v). k' \<noteq> k) ks"

definition starts_with :: "'a list \<Rightarrow> 'a list \<Rightarrow> bool" where
  "starts_with p k \<longleftrightarrow> take (length p) k = p"

definition ks_prefix :: "('a list \<times> 'v) list \<Rightarrow> 'a list \<Rightarrow> ('a list \<times> 'v) list" where
  "ks_prefix ks p = filter (\<lambda>(k, v). starts_with p k) ks"

section \<open>The interface of an ordered map\<close>

locale ordered_map =
  fixes get :: "'m \<Rightarrow> 'k \<Rightarrow> 'v option"
    and ins :: "'k \<Rightarrow> 'v \<Rightarrow> 'm \<Rightarrow> 'm"
    and del :: "'k \<Rightarrow> 'm \<Rightarrow> 'm"
    and wf :: "'m \<Rightarrow> bool"
  assumes get_ins: "wf m \<Longrightarrow> get (ins k v m) k' = (if k' = k then Some v else get m k')"
    and get_del: "wf m \<Longrightarrow> get (del k m) k' = (if k' = k then None else get m k')"
    and wf_ins: "wf m \<Longrightarrow> wf (ins k v m)"
    and wf_del: "wf m \<Longrightarrow> wf (del k m)"
begin

lemma wf_dels: "wf m \<Longrightarrow> wf (fold del ks m)"
  by (induction ks arbitrary: m) (auto intro: wf_del)

lemma get_dels: "wf m \<Longrightarrow> get (fold del ks m) k = (if k \<in> set ks then None else get m k)"
  by (induction ks arbitrary: m) (auto simp: get_del wf_del)

lemma wf_inss: "wf m \<Longrightarrow> wf (fold (\<lambda>(k, v). ins k v) kvs m)"
  by (induction kvs arbitrary: m) (auto intro: wf_ins)

lemma get_inss_other: "wf m \<Longrightarrow> k \<notin> fst ` set kvs \<Longrightarrow> get (fold (\<lambda>(k, v). ins k v) kvs m) k = get m k"
  by (induction kvs arbitrary: m) (auto simp: get_ins wf_ins)

lemma get_inss:
  assumes "wf m" "distinct (map fst kvs)" "(k, v) \<in> set kvs"
  shows "get (fold (\<lambda>(k, v). ins k v) kvs m) k = Some v"
  using assms
  by (induction kvs arbitrary: m) (auto simp: get_ins wf_ins get_inss_other)

end

section \<open>Sorted association lists are ordered maps\<close>

lemma ks_wf_Nil [simp]: "ks_wf []"
  by (simp add: ks_wf_def)

lemma ks_wf_Cons: "ks_wf ((k, v) # ks) \<longleftrightarrow> (\<forall>x \<in> fst ` set ks. k < x) \<and> ks_wf ks"
  by (auto simp: ks_wf_def)

lemma ks_wf_distinct: "ks_wf ks \<Longrightarrow> distinct (map fst ks)"
  by (simp add: ks_wf_def strict_sorted_iff)

lemma keys_ks_insert: "fst ` set (ks_insert k v ks) = insert k (fst ` set ks)"
  by (induction k v ks rule: ks_insert.induct) auto

lemma ks_wf_insert: "ks_wf ks \<Longrightarrow> ks_wf (ks_insert k v ks)"
  by (induction k v ks rule: ks_insert.induct)
    (auto simp: ks_wf_Cons keys_ks_insert simp del: image_insert)

lemma ks_get_insert: "ks_wf ks \<Longrightarrow> ks_get (ks_insert k v ks) k' = (if k' = k then Some v else ks_get ks k')"
proof (induction k v ks rule: ks_insert.induct)
  case (1 k v)
  then show ?case by (simp add: ks_get_def)
next
  case (2 k v k1 v1 ks)
  then show ?case by (auto simp: ks_get_def ks_wf_Cons)
qed

lemma ks_wf_filter: "ks_wf ks \<Longrightarrow> ks_wf (filter P ks)"
  by (induction ks) (auto simp: ks_wf_Cons)

lemma ks_wf_remove: "ks_wf ks \<Longrightarrow> ks_wf (ks_remove k ks)"
  by (simp add: ks_remove_def ks_wf_filter)

lemma ks_get_remove: "ks_get (ks_remove k ks) k' = (if k' = k then None else ks_get ks k')"
  by (induction ks) (auto simp: ks_get_def ks_remove_def)

interpretation ks: ordered_map ks_get ks_insert ks_remove ks_wf
  by unfold_locales (auto simp: ks_get_insert ks_get_remove ks_wf_insert ks_wf_remove)

lemma ks_get_mem: "ks_wf ks \<Longrightarrow> ks_get ks k = Some v \<longleftrightarrow> (k, v) \<in> set ks"
  by (simp add: ks_get_def ks_wf_distinct)

lemma set_ks_insert: "ks_wf ks \<Longrightarrow> set (ks_insert k v ks) = insert (k, v) {x \<in> set ks. fst x \<noteq> k}"
proof (induction k v ks rule: ks_insert.induct)
  case (2 k v k1 v1 ks)
  then show ?case by (auto simp: ks_wf_Cons)
qed simp

lemma set_ks_remove: "set (ks_remove k ks) = {x \<in> set ks. fst x \<noteq> k}"
  by (auto simp: ks_remove_def)

lemma set_ks_removes: "set (fold ks_remove dead ks) = {x \<in> set ks. fst x \<notin> set dead}"
  by (induction dead arbitrary: ks) (auto simp: set_ks_remove)

lemma ks_removes_filter: "fold ks_remove dead ks = filter (\<lambda>x. fst x \<notin> set dead) ks"
proof (induction dead arbitrary: ks)
  case (Cons k dead)
  then show ?case by (auto simp: ks_remove_def split_def intro: filter_cong)
qed simp

lemma set_ks_prefix: "set (ks_prefix ks p) = {x \<in> set ks. starts_with p (fst x)}"
  by (auto simp: ks_prefix_def)

lemma ks_wf_prefix: "ks_wf ks \<Longrightarrow> ks_wf (ks_prefix ks p)"
  by (simp add: ks_prefix_def ks_wf_filter)

lemma starts_with_append [simp]: "starts_with p (p @ s)"
  by (simp add: starts_with_def)

lemma starts_with_same_length:
  "starts_with p k \<Longrightarrow> starts_with q k \<Longrightarrow> length p = length q \<Longrightarrow> p = q"
  by (simp add: starts_with_def)

text \<open>Inserting a new key adds one row to its own prefix and none to others.\<close>

lemma length_filter_ks_insert:
  assumes "k \<notin> fst ` set ks"
  shows "length (filter P (ks_insert k v ks)) = length (filter P ks) + (if P (k, v) then 1 else 0)"
  using assms by (induction k v ks rule: ks_insert.induct) auto

lemma filter_ks_insert_other:
  assumes "\<And>v. \<not> P (k, v)"
  shows "filter P (ks_insert k v ks) = filter P ks"
  using assms by (induction k v ks rule: ks_insert.induct) auto

section \<open>Failures of the store\<close>

text \<open>
  The parameter for the fjall package.  \<^verbatim>\<open>fj_prefix\<close> and \<^verbatim>\<open>fj_iter\<close> are the guards of a scan after
  \<^verbatim>\<open>into_inner\<close>: \<^verbatim>\<open>None\<close> stands for an error at that position.
\<close>

record fjall_io =
  fj_prefix :: "keyspace \<Rightarrow> bytes \<Rightarrow> (bytes \<times> bytes) option list"
  fj_iter :: "keyspace \<Rightarrow> (bytes \<times> bytes) option list"
  fj_get_ok :: "keyspace \<Rightarrow> bytes \<Rightarrow> bool"
  fj_insert_ok :: "keyspace \<Rightarrow> bytes \<Rightarrow> bytes \<Rightarrow> bool"
  fj_remove_ok :: "keyspace \<Rightarrow> bytes \<Rightarrow> bool"

text \<open>The documented behaviour of a scan: in key order, the row itself or an error in its place.\<close>

definition reads_rows :: "('r list) \<Rightarrow> 'r option list \<Rightarrow> bool" where
  "reads_rows rows guards \<longleftrightarrow> list_all2 (\<lambda>r g. g = None \<or> g = Some r) rows guards"

definition scan_sound :: "fjall_io \<Rightarrow> bool" where
  "scan_sound fj \<longleftrightarrow>
     (\<forall>ks p. ks_wf ks \<longrightarrow> reads_rows (ks_prefix ks p) (fj_prefix fj ks p) \<and> reads_rows ks (fj_iter fj ks))"

text \<open>A store that never fails.\<close>

definition healthy_io :: fjall_io where
  "healthy_io = \<lparr> fj_prefix = (\<lambda>ks p. map Some (ks_prefix ks p)), fj_iter = map Some,
                  fj_get_ok = (\<lambda>_ _. True), fj_insert_ok = (\<lambda>_ _ _. True),
                  fj_remove_ok = (\<lambda>_ _. True) \<rparr>"

definition io_get :: "fjall_io \<Rightarrow> keyspace \<Rightarrow> bytes \<Rightarrow> bytes option option" where
  "io_get fj ks k = (if fj_get_ok fj ks k then Some (ks_get ks k) else None)"

definition io_insert :: "fjall_io \<Rightarrow> bytes \<Rightarrow> bytes \<Rightarrow> keyspace \<Rightarrow> keyspace \<times> bool" where
  "io_insert fj k v ks = (if fj_insert_ok fj ks k v then (ks_insert k v ks, True) else (ks, False))"

definition io_remove :: "fjall_io \<Rightarrow> bytes \<Rightarrow> keyspace \<Rightarrow> keyspace \<times> bool" where
  "io_remove fj k ks = (if fj_remove_ok fj ks k then (ks_remove k ks, True) else (ks, False))"

lemma healthy_io_simps [simp]:
  "fj_prefix healthy_io ks p = map Some (ks_prefix ks p)" "fj_iter healthy_io ks = map Some ks"
  "fj_get_ok healthy_io ks k" "fj_insert_ok healthy_io ks k v" "fj_remove_ok healthy_io ks k"
  by (simp_all add: healthy_io_def)

lemma reads_rows_map_Some [simp]: "reads_rows rows (map Some rows)"
  by (simp add: reads_rows_def list_all2_map2 list.rel_refl)

lemma scan_sound_healthy: "scan_sound healthy_io"
  by (simp add: scan_sound_def healthy_io_def)

lemma reads_rows_complete: "reads_rows rows guards \<Longrightarrow> None \<notin> set guards \<Longrightarrow> guards = map Some rows"
  unfolding reads_rows_def by (induction rule: list_all2_induct) auto

lemma reads_rows_mem: "reads_rows rows guards \<Longrightarrow> Some r \<in> set guards \<Longrightarrow> r \<in> set rows"
  unfolding reads_rows_def by (induction rule: list_all2_induct) auto

lemma reads_rows_Nil [simp]: "reads_rows rows [] \<longleftrightarrow> rows = []"
  and reads_rows_Cons [simp]:
    "reads_rows rows (g # gs) \<longleftrightarrow> (\<exists>r rs. rows = r # rs \<and> (g = None \<or> g = Some r) \<and> reads_rows rs gs)"
  by (auto simp: reads_rows_def list_all2_Cons2)

lemma scan_sound_prefix: "scan_sound fj \<Longrightarrow> ks_wf ks \<Longrightarrow> reads_rows (ks_prefix ks p) (fj_prefix fj ks p)"
  and scan_sound_iter: "scan_sound fj \<Longrightarrow> ks_wf ks \<Longrightarrow> reads_rows ks (fj_iter fj ks)"
  by (auto simp: scan_sound_def)

lemma ks_wf_io_insert [simp]: "ks_wf ks \<Longrightarrow> ks_wf (fst (io_insert fj k v ks))"
  by (simp add: io_insert_def ks_wf_insert)

lemma ks_wf_io_remove [simp]: "ks_wf ks \<Longrightarrow> ks_wf (fst (io_remove fj k ks))"
  by (simp add: io_remove_def ks_wf_remove)

text \<open>A sequence of removals whose errors the caller ignores, and the number that succeeded.\<close>

fun io_removes :: "fjall_io \<Rightarrow> bytes list \<Rightarrow> keyspace \<Rightarrow> keyspace \<times> nat" where
  "io_removes fj [] ks = (ks, 0)"
| "io_removes fj (k # dead) ks =
     (case io_remove fj k ks of (ks', ok) \<Rightarrow>
        case io_removes fj dead ks' of (ks'', n) \<Rightarrow> (ks'', (if ok then 1 else 0) + n))"

lemma ks_wf_io_removes: "ks_wf ks \<Longrightarrow> ks_wf (fst (io_removes fj dead ks))"
proof (induction dead arbitrary: ks)
  case (Cons k dead)
  then show ?case
    by (simp add: split_def ks_wf_io_remove)
qed simp

lemma set_io_removes:
  "set (fst (io_removes fj dead ks)) \<subseteq> set ks"
  "{x \<in> set ks. fst x \<notin> set dead} \<subseteq> set (fst (io_removes fj dead ks))"
proof (induction dead arbitrary: ks)
  case (Cons k dead)
  {
    case 1
    then show ?case using Cons.IH(1) [of "fst (io_remove fj k ks)"]
      by (auto simp: split_def io_remove_def set_ks_remove split: if_splits)
  next
    case 2
    then show ?case using Cons.IH(2) [of "fst (io_remove fj k ks)"]
      by (auto simp: split_def io_remove_def set_ks_remove split: if_splits)
  }
qed auto

lemma io_removes_healthy:
  "io_removes healthy_io dead ks = (fold ks_remove dead ks, length dead)"
  by (induction dead arbitrary: ks) (auto simp: io_remove_def healthy_io_def)

lemma io_removes_all_ok:
  assumes "\<And>ks k. fj_remove_ok fj ks k"
  shows "io_removes fj dead ks = (fold ks_remove dead ks, length dead)"
  using assms by (induction dead arbitrary: ks) (auto simp: io_remove_def)

end
