(* ===== verification/Identity.thy ===== *)
theory Identity
  imports Prelude
begin

text \<open>
  Identifiers and addresses: 32-byte node ids with their XOR distance
  (\<^verbatim>\<open>common/src/quic/xor.rs\<close>, \<^verbatim>\<open>common/src/types/id.rs\<close>), socket addresses, and the third-party
  cryptography the sources call, as a parameter record: \<^verbatim>\<open>blake3::hash\<close>, and ed25519 key parsing
  and strict verification behind \<^verbatim>\<open>verify_ed25519\<close>.  Theorems that need more than the existence of
  these functions name the need as a hypothesis.
\<close>

unbundle bit_operations_syntax

section \<open>Parameters for the cryptographic packages\<close>

record crypto =
  blake3 :: "bytes \<Rightarrow> bytes"
  key_ok :: "bytes \<Rightarrow> bool"
  verify_strict :: "bytes \<Rightarrow> bytes \<Rightarrow> bytes \<Rightarrow> bool"

text \<open>Arguments of \<^verbatim>\<open>verify_strict\<close>: public key, message, signature.\<close>

definition verify_ed25519 :: "crypto \<Rightarrow> bytes \<Rightarrow> bytes \<Rightarrow> bytes \<Rightarrow> bool" where
  "verify_ed25519 cr pubkey msg sig \<longleftrightarrow> key_ok cr pubkey \<and> verify_strict cr pubkey msg sig"

definition PROTOCOL_VERSION :: u16 where
  "PROTOCOL_VERSION = 11"

definition SIGNATURE_VERSIONS :: "u16 \<times> u16" where
  "SIGNATURE_VERSIONS = (PROTOCOL_VERSION, 10)"

definition verify_versioned :: "crypto \<Rightarrow> bytes \<Rightarrow> bytes \<Rightarrow> (u16 \<Rightarrow> bytes) \<Rightarrow> bool" where
  "verify_versioned cr pubkey sig transcript =
     (case SIGNATURE_VERSIONS of (current, previous) \<Rightarrow>
        verify_ed25519 cr pubkey (transcript current) sig
        \<or> verify_ed25519 cr pubkey (transcript previous) sig)"

text \<open>\<^verbatim>\<open>NodeId::new\<close>.\<close>

definition node_id_new :: "crypto \<Rightarrow> bytes \<Rightarrow> bytes" where
  "node_id_new cr key = blake3 cr key"

text \<open>The output of BLAKE3 is 32 bytes.\<close>

definition hash_width :: "crypto \<Rightarrow> bool" where
  "hash_width cr \<longleftrightarrow> (\<forall>m. length (blake3 cr m) = 32)"

text \<open>
  A concrete parameter for evaluating the model: the hash pads or cuts to 32 bytes, and a
  signature is the first 64 bytes of key and message.
\<close>

definition pad_to :: "nat \<Rightarrow> bytes \<Rightarrow> bytes" where
  "pad_to n bs = take n (bs @ replicate n 0)"

definition toy_crypto :: crypto where
  "toy_crypto = \<lparr> blake3 = pad_to 32, key_ok = (\<lambda>pk. length pk = 32),
                  verify_strict = (\<lambda>pk msg sig. sig = pad_to 64 (pk @ msg)) \<rparr>"

lemma length_pad_to [simp]: "length (pad_to n bs) = n"
  by (simp add: pad_to_def)

lemma pad_to_id [simp]: "length bs = n \<Longrightarrow> pad_to n bs = bs"
  by (simp add: pad_to_def)

lemma hash_width_toy: "hash_width toy_crypto"
  by (simp add: hash_width_def toy_crypto_def)

section \<open>Node identifiers and the XOR distance\<close>

definition xor32 :: "bytes \<Rightarrow> bytes \<Rightarrow> bytes" where
  "xor32 a b = map2 (XOR) a b"

text \<open>The distance of a node to a target, as every sort key and comparison of the relay uses it.\<close>

abbreviation xdist :: "bytes \<Rightarrow> bytes \<Rightarrow> bytes" where
  "xdist target node \<equiv> xor32 node target"

lemma length_xor32 [simp]: "length (xor32 a b) = min (length a) (length b)"
  by (simp add: xor32_def)

lemma nth_xor32: "i < length a \<Longrightarrow> i < length b \<Longrightarrow> xor32 a b ! i = a ! i XOR b ! i"
  by (simp add: xor32_def)

lemma xor32_commute: "length a = length b \<Longrightarrow> xor32 a b = xor32 b a"
  by (rule nth_equalityI) (auto simp: nth_xor32 xor.commute)

lemma xor32_cancel: "length a = length b \<Longrightarrow> xor32 (xor32 a b) b = a"
  by (rule nth_equalityI) (auto simp: nth_xor32 xor.assoc)

lemma xor32_right_inject:
  "length a = length t \<Longrightarrow> length b = length t \<Longrightarrow> xor32 a t = xor32 b t \<longleftrightarrow> a = b"
  by (metis xor32_cancel)

lemma xor32_zero_iff:
  "length a = length b \<Longrightarrow> xor32 a b = replicate (length a) 0 \<longleftrightarrow> a = b"
proof
  assume len: "length a = length b" and "xor32 a b = replicate (length a) 0"
  then have "xor32 (xor32 a b) b = xor32 (xor32 b b) b"
    by (auto intro!: nth_equalityI simp: nth_xor32)
  then show "a = b" using len by (simp add: xor32_cancel)
next
  assume "a = b"
  then show "xor32 a b = replicate (length a) 0"
    by (auto intro!: nth_equalityI simp: nth_xor32)
qed

text \<open>
  The nearest-neighbour interface: a distance that tells the nodes of a carrier apart.  The
  choice of the \<^verbatim>\<open>n\<close> nearest nodes of a finite set is then unique, so an implementation may sort
  and cut, or partition first and sort the part it keeps.
\<close>

locale distance =
  fixes dist :: "'t \<Rightarrow> 'n \<Rightarrow> 'd::linorder"
    and carrier :: "'n \<Rightarrow> bool"
    and targets :: "'t \<Rightarrow> bool"
  assumes dist_inj: "targets t \<Longrightarrow> carrier a \<Longrightarrow> carrier b \<Longrightarrow> dist t a = dist t b \<Longrightarrow> a = b"
begin

lemma dist_inj_on: "targets t \<Longrightarrow> (\<And>x. x \<in> S \<Longrightarrow> carrier x) \<Longrightarrow> inj_on (dist t) S"
  by (auto intro!: inj_onI dest: dist_inj)

lemma nearest_unique:
  assumes "targets t" "\<And>x. x \<in> S \<Longrightarrow> carrier x" "A \<subseteq> S" "B \<subseteq> S" "card A = card B" "finite S"
    and A: "\<And>x y. x \<in> A \<Longrightarrow> y \<in> S - A \<Longrightarrow> dist t x \<le> dist t y"
    and B: "\<And>x y. x \<in> B \<Longrightarrow> y \<in> S - B \<Longrightarrow> dist t x \<le> dist t y"
  shows "A = B"
proof (rule ccontr)
  assume "A \<noteq> B"
  have fin: "finite A" "finite B"
    using assms(3,4,6) by (auto intro: finite_subset)
  have "\<not> A \<subseteq> B" and "\<not> B \<subseteq> A"
    using \<open>A \<noteq> B\<close> \<open>card A = card B\<close> fin by (metis card_subset_eq)+
  then obtain a b where "a \<in> A" "a \<notin> B" "b \<in> B" "b \<notin> A" by auto
  then have "dist t a = dist t b"
    using A [of a b] B [of b a] subsetD [OF assms(3)] subsetD [OF assms(4)] by (simp add: order_antisym)
  then have "a = b"
    using dist_inj assms(1-4) \<open>a \<in> A\<close> \<open>b \<in> B\<close> by (meson subsetD)
  then show False using \<open>a \<in> A\<close> \<open>b \<notin> A\<close> by simp
qed

end

definition id32 :: "bytes \<Rightarrow> bool" where
  "id32 bs \<longleftrightarrow> length bs = 32"

interpretation xord: distance xdist id32 id32
  by unfold_locales (auto simp: id32_def xor32_right_inject)

section \<open>Socket addresses\<close>

text \<open>
  \<^verbatim>\<open>std::net::SocketAddr\<close>: four octets and a port, or sixteen octets, a port, a flow label and a
  scope id.
\<close>

datatype ip_addr = V4 bytes | V6 bytes

datatype socket_addr =
    SocketAddrV4 bytes u16
  | SocketAddrV6 bytes u16 u32 u32

fun sa_ip :: "socket_addr \<Rightarrow> ip_addr" where
  "sa_ip (SocketAddrV4 ip _) = V4 ip"
| "sa_ip (SocketAddrV6 ip _ _ _) = V6 ip"

fun sa_port :: "socket_addr \<Rightarrow> u16" where
  "sa_port (SocketAddrV4 _ p) = p"
| "sa_port (SocketAddrV6 _ p _ _) = p"

fun sa_wf :: "socket_addr \<Rightarrow> bool" where
  "sa_wf (SocketAddrV4 ip _) \<longleftrightarrow> length ip = 4"
| "sa_wf (SocketAddrV6 ip _ _ _) \<longleftrightarrow> length ip = 16"

section \<open>The nearest elements of a list\<close>

text \<open>The elements of a finite set with fewer than \<^verbatim>\<open>n\<close> elements strictly nearer.\<close>

definition n_nearest :: "('a \<Rightarrow> 'd::linorder) \<Rightarrow> nat \<Rightarrow> 'a set \<Rightarrow> 'a set" where
  "n_nearest f n S = {x \<in> S. card {y \<in> S. f y < f x} < n}"

lemma sorted_distinct_map_less:
  fixes ds :: "'d::linorder list"
  assumes "sorted ds" "distinct ds" "i < length ds" "j < length ds"
  shows "ds ! i < ds ! j \<longleftrightarrow> i < j"
proof
  assume "ds ! i < ds ! j"
  then show "i < j" using sorted_nth_mono [of ds j i] assms by (meson leD leI)
next
  assume "i < j"
  then have "ds ! i \<le> ds ! j" "ds ! i \<noteq> ds ! j"
    using assms by (auto simp: sorted_nth_mono nth_eq_iff_index_eq)
  then show "ds ! i < ds ! j" by simp
qed

lemma n_nearest_sorted:
  assumes "sorted (map f ys)" "distinct (map f ys)"
  shows "set (take n ys) = n_nearest f n (set ys)"
proof -
  have cnt: "card {y \<in> set ys. f y < f (ys ! j)} = j" if "j < length ys" for j
  proof -
    have "{y \<in> set ys. f y < f (ys ! j)} = (!) ys ` {..<j}" (is "?L = ?R")
    proof
      show "?L \<subseteq> ?R"
      proof
        fix y assume "y \<in> ?L"
        then obtain i where "i < length ys" "y = ys ! i" "f (ys ! i) < f (ys ! j)"
          by (auto simp: in_set_conv_nth)
        then show "y \<in> ?R"
          using sorted_distinct_map_less [OF assms, of i j] that by auto
      qed
      show "?R \<subseteq> ?L"
        using sorted_distinct_map_less [OF assms, of _ j] that by auto
    qed
    moreover have "inj_on ((!) ys) {..<j}"
      using assms(2) that by (auto intro!: inj_on_nth simp: distinct_map)
    ultimately show ?thesis by (simp add: card_image)
  qed
  show ?thesis
  proof
    show "set (take n ys) \<subseteq> n_nearest f n (set ys)"
    proof
      fix x assume "x \<in> set (take n ys)"
      then obtain j where "j < length ys" "j < n" "x = ys ! j"
        by (auto simp: in_set_conv_nth)
      then show "x \<in> n_nearest f n (set ys)"
        by (simp add: n_nearest_def cnt)
    qed
    show "n_nearest f n (set ys) \<subseteq> set (take n ys)"
    proof
      fix x assume x: "x \<in> n_nearest f n (set ys)"
      then obtain j where j: "j < length ys" "x = ys ! j"
        by (metis (no_types, lifting) in_set_conv_nth mem_Collect_eq n_nearest_def)
      with x have "j < n" by (simp add: n_nearest_def cnt)
      with j show "x \<in> set (take n ys)"
        by (auto simp: in_set_conv_nth)
    qed
  qed
qed

lemma n_nearest_sort_key:
  assumes "distinct (map f xs)"
  shows "set (take n (sort_key f xs)) = n_nearest f n (set xs)"
proof -
  have "distinct (map f (sort_key f xs))"
    using assms by (simp add: distinct_map)
  then show ?thesis
    using n_nearest_sorted [of f "sort_key f xs" n] by simp
qed

lemma sorted_key_unique:
  assumes "distinct (map f xs)" "set ys = set xs" "distinct ys" "sorted (map f ys)"
  shows "ys = sort_key f xs"
proof -
  have d: "distinct (map f ys)"
    using assms by (simp add: distinct_map)
  have "map f ys = map f (sort_key f xs)"
    by (rule sorted_distinct_set_unique) (use assms d in \<open>auto simp: distinct_map\<close>)
  moreover have "inj_on f (set ys \<union> set (sort_key f xs))"
    using assms by (simp add: distinct_map)
  ultimately show ?thesis by (rule map_inj_on)
qed

end
