(* ===== verification/Routing.thy ===== *)
theory Routing
  imports Identity
begin

text \<open>
  The Kademlia routing table of the relay, \<^verbatim>\<open>relay/src/dht/routing.rs\<close> with the constants of
  \<^verbatim>\<open>relay/src/dht/config.rs\<close>: buckets by the highest differing bit, least-recently-seen order,
  the replacement cache, eviction after three failed pings, the nearest-node query and the choice
  of a user's homes.

  \<^verbatim>\<open>Instant::now()\<close> is an argument of each operation that reads the clock: \<^verbatim>\<open>now\<close> for the first read
  and \<^verbatim>\<open>now'\<close> for the one inside \<^verbatim>\<open>RoutingEntry::from_descriptor\<close>.  Instants are natural numbers of
  milliseconds.
\<close>

section \<open>Constants and data\<close>

definition K :: nat where "K = 3"
definition ALPHA :: nat where "ALPHA = 3"
definition BUCKET_SIZE :: nat where "BUCKET_SIZE = 16"
definition BUCKETS :: nat where "BUCKETS = 256"
definition BUCKET_REFRESH_MS :: nat where "BUCKET_REFRESH_MS = 3600000"
definition PING_FAILURES_BEFORE_EVICTION :: u8 where "PING_FAILURES_BEFORE_EVICTION = 3"
definition FORWARD_K_MIN :: nat where "FORWARD_K_MIN = 2"

definition write_quorum :: "nat \<Rightarrow> nat" where
  "write_quorum home_count = (if home_count = 1 then 1 else FORWARD_K_MIN)"

record node_descriptor =
  nd_id :: bytes
  nd_addr :: socket_addr
  nd_pubkey :: bytes

record routing_entry =
  re_id :: bytes
  re_addr :: socket_addr
  re_pubkey :: bytes
  re_last_seen :: nat
  re_failed_pings :: u8

definition descriptor :: "routing_entry \<Rightarrow> node_descriptor" where
  "descriptor e = \<lparr> nd_id = re_id e, nd_addr = re_addr e, nd_pubkey = re_pubkey e \<rparr>"

definition from_descriptor :: "nat \<Rightarrow> node_descriptor \<Rightarrow> routing_entry" where
  "from_descriptor now d =
     \<lparr> re_id = nd_id d, re_addr = nd_addr d, re_pubkey = nd_pubkey d,
       re_last_seen = now, re_failed_pings = 0 \<rparr>"

record bucket =
  b_entries :: "routing_entry list"
  b_refresh_at :: nat
  b_candidates :: "routing_entry list"

definition bucket_empty :: "nat \<Rightarrow> bucket" where
  "bucket_empty now = \<lparr> b_entries = [], b_refresh_at = now, b_candidates = [] \<rparr>"

datatype insert_outcome =
    IsSelf
  | Refreshed
  | Inserted
  | PendingPing node_descriptor
  | Discarded

record routing_table =
  rt_self_id :: bytes
  rt_buckets :: "bucket list"

definition table_empty :: "nat \<Rightarrow> bytes \<Rightarrow> routing_table" where
  "table_empty now self_id =
     \<lparr> rt_self_id = self_id, rt_buckets = map (\<lambda>_. bucket_empty now) [0..<BUCKETS] \<rparr>"

section \<open>The bucket of a peer\<close>

text \<open>\<^verbatim>\<open>u8::leading_zeros\<close> and the counting loop of \<^verbatim>\<open>bucket_for\<close>, which stops at a non-zero byte.\<close>

definition leading_zeros8 :: "u8 \<Rightarrow> nat" where
  "leading_zeros8 b = length (takeWhile (\<lambda>i. \<not> bit b i) [7, 6, 5, 4, 3, 2, 1, 0])"

fun lzc :: "bytes \<Rightarrow> nat" where
  "lzc [] = 0"
| "lzc (b # bs) = (if b = 0 then 8 + lzc bs else leading_zeros8 b)"

definition bucket_for :: "bytes \<Rightarrow> bytes \<Rightarrow> nat option" where
  "bucket_for self_id peer_id =
     (let z = lzc (xor32 self_id peer_id)
      in if z = 256 then None else Some (BUCKETS - 1 - z))"

text \<open>The bytes of the system random number generator are an argument; \<^verbatim>\<open>None\<close> is its failure.\<close>

definition copy_noise_bit :: "bytes \<Rightarrow> nat \<Rightarrow> bytes \<Rightarrow> bytes" where
  "copy_noise_bit noise b out =
     (let mask = drop_bit (b mod 8) (0x80 :: u8)
      in out[b div 8 := (out ! (b div 8) AND NOT mask) OR (noise ! (b div 8) AND mask)])"

definition random_id_in_bucket :: "bytes option \<Rightarrow> bytes \<Rightarrow> nat \<Rightarrow> bytes option" where
  "random_id_in_bucket rng self_id bucket_idx =
     (if bucket_idx \<ge> BUCKETS then None
      else case rng of
        None \<Rightarrow> None
      | Some noise \<Rightarrow>
          let first_diff = BUCKETS - 1 - bucket_idx;
              out = self_id[first_diff div 8 :=
                      self_id ! (first_diff div 8) XOR drop_bit (first_diff mod 8) 0x80]
          in Some (fold (copy_noise_bit noise) [first_diff + 1..<BUCKETS] out))"

section \<open>Table operations\<close>

definition bucket_insert ::
  "crypto \<Rightarrow> nat \<Rightarrow> nat \<Rightarrow> node_descriptor \<Rightarrow> bucket \<Rightarrow> bucket \<times> insert_outcome" where
  "bucket_insert cr now now' d b0 =
     (let b = b0\<lparr>b_refresh_at := now\<rparr> in
      case position (\<lambda>e. re_id e = nd_id d) (b_entries b) of
        Some pos \<Rightarrow>
          let entry = b_entries b ! pos;
              rest = remove_nth pos (b_entries b);
              entry = entry\<lparr>re_last_seen := now, re_addr := nd_addr d\<rparr>;
              entry = (if node_id_new cr (nd_pubkey d) = nd_id d
                       then entry\<lparr>re_pubkey := nd_pubkey d\<rparr> else entry)
          in (b\<lparr>b_entries := rest @ [entry]\<rparr>, Refreshed)
      | None \<Rightarrow>
          if length (b_entries b) < BUCKET_SIZE
          then (b\<lparr>b_entries := b_entries b @ [from_descriptor now' d]\<rparr>, Inserted)
          else if length (b_candidates b) < BUCKET_SIZE
          then if \<exists>c \<in> set (b_candidates b). re_id c = nd_id d
               then (b, Discarded)
               else (b\<lparr>b_candidates := b_candidates b @ [from_descriptor now' d]\<rparr>,
                     PendingPing (descriptor (b_entries b ! 0)))
          else (b, Discarded))"

definition rt_insert ::
  "crypto \<Rightarrow> nat \<Rightarrow> nat \<Rightarrow> node_descriptor \<Rightarrow> routing_table \<Rightarrow> routing_table \<times> insert_outcome"
  where
  "rt_insert cr now now' d t =
     (case bucket_for (rt_self_id t) (nd_id d) of
        None \<Rightarrow> (t, IsSelf)
      | Some i \<Rightarrow>
          (case bucket_insert cr now now' d (rt_buckets t ! i) of
             (b, out) \<Rightarrow> (t\<lparr>rt_buckets := (rt_buckets t)[i := b]\<rparr>, out)))"

text \<open>\<^verbatim>\<open>u8::saturating_add(1)\<close>.\<close>

definition sat_succ8 :: "u8 \<Rightarrow> u8" where
  "sat_succ8 n = (if n = 255 then 255 else n + 1)"

definition bucket_ping_failed :: "nat \<Rightarrow> bytes \<Rightarrow> bucket \<Rightarrow> bucket" where
  "bucket_ping_failed now peer_id b =
     (case position (\<lambda>e. re_id e = peer_id) (b_entries b) of
        None \<Rightarrow> b
      | Some pos \<Rightarrow>
          let entry = (b_entries b ! pos)
                        \<lparr>re_failed_pings := sat_succ8 (re_failed_pings (b_entries b ! pos))\<rparr>
          in if re_failed_pings entry < PING_FAILURES_BEFORE_EVICTION
             then b\<lparr>b_entries := (b_entries b)[pos := entry]\<rparr>
             else case b_candidates b of
                    [] \<Rightarrow> b\<lparr>b_entries := remove_nth pos (b_entries b)\<rparr>
                  | promoted # cs \<Rightarrow>
                      b\<lparr>b_entries := remove_nth pos (b_entries b)
                          @ [promoted\<lparr>re_last_seen := now, re_failed_pings := 0\<rparr>],
                        b_candidates := cs\<rparr>)"

definition ping_failed :: "nat \<Rightarrow> bytes \<Rightarrow> routing_table \<Rightarrow> routing_table" where
  "ping_failed now peer_id t =
     (case bucket_for (rt_self_id t) peer_id of
        None \<Rightarrow> t
      | Some i \<Rightarrow>
          t\<lparr>rt_buckets := (rt_buckets t)[i := bucket_ping_failed now peer_id (rt_buckets t ! i)]\<rparr>)"

definition bucket_ping_succeeded :: "nat \<Rightarrow> bytes \<Rightarrow> bucket \<Rightarrow> bucket \<times> bool" where
  "bucket_ping_succeeded now peer_id b =
     (case position (\<lambda>e. re_id e = peer_id) (b_entries b) of
        None \<Rightarrow> (b, False)
      | Some pos \<Rightarrow>
          let entry = (b_entries b ! pos)\<lparr>re_failed_pings := 0, re_last_seen := now\<rparr>
          in (b\<lparr>b_entries := remove_nth pos (b_entries b) @ [entry], b_refresh_at := now\<rparr>, True))"

definition ping_succeeded :: "nat \<Rightarrow> bytes \<Rightarrow> routing_table \<Rightarrow> routing_table \<times> bool" where
  "ping_succeeded now peer_id t =
     (case bucket_for (rt_self_id t) peer_id of
        None \<Rightarrow> (t, False)
      | Some i \<Rightarrow>
          (case bucket_ping_succeeded now peer_id (rt_buckets t ! i) of
             (b, ok) \<Rightarrow> (t\<lparr>rt_buckets := (rt_buckets t)[i := b]\<rparr>, ok)))"

definition rt_get :: "routing_table \<Rightarrow> bytes \<Rightarrow> routing_entry option" where
  "rt_get t i = (case bucket_for (rt_self_id t) i of
     None \<Rightarrow> None
   | Some b \<Rightarrow> find (\<lambda>e. re_id e = i) (b_entries (rt_buckets t ! b)))"

definition all_entries :: "routing_table \<Rightarrow> routing_entry list" where
  "all_entries t = concat (map b_entries (rt_buckets t))"

text \<open>
  \<^verbatim>\<open>closest\<close> cuts with \<^verbatim>\<open>select_nth_unstable_by_key\<close> and \<^verbatim>\<open>truncate\<close> before sorting what is left.
  The library fixes the result of the cut only up to its contract: the kept part is a part of the
  scratch vector and no kept key exceeds a dropped one.  The definition sorts and cuts;
  \<^verbatim>\<open>closest_any_cut\<close> below shows that every cut that meets the contract gives the same vector.
\<close>

definition entry_dist :: "bytes \<Rightarrow> routing_entry \<Rightarrow> bytes" where
  "entry_dist target e = xor32 (re_id e) target"

definition rt_closest :: "routing_table \<Rightarrow> bytes \<Rightarrow> nat \<Rightarrow> routing_entry list" where
  "rt_closest t target count = take count (sort_key (entry_dist target) (all_entries t))"

definition find_closest :: "routing_table \<Rightarrow> bytes \<Rightarrow> nat \<Rightarrow> node_descriptor list" where
  "find_closest t target count = map descriptor (rt_closest t target count)"

definition total_known :: "routing_table \<Rightarrow> nat" where
  "total_known t = sum_list (map (length \<circ> b_entries) (rt_buckets t))"

definition buckets_needing_refresh :: "routing_table \<Rightarrow> nat \<Rightarrow> nat list" where
  "buckets_needing_refresh t now =
     filter (\<lambda>i. let b = rt_buckets t ! i in
               b_entries b \<noteq> [] \<and> b_refresh_at b \<le> now
               \<and> now - b_refresh_at b \<ge> BUCKET_REFRESH_MS)
       [0..<length (rt_buckets t)]"

definition mark_refreshed :: "nat \<Rightarrow> nat \<Rightarrow> routing_table \<Rightarrow> routing_table" where
  "mark_refreshed now i t =
     (if i < length (rt_buckets t)
      then t\<lparr>rt_buckets := (rt_buckets t)[i := (rt_buckets t ! i)\<lparr>b_refresh_at := now\<rparr>]\<rparr>
      else t)"

section \<open>Buckets and bits\<close>

text \<open>Bit \<^verbatim>\<open>k\<close> of an identifier, counted from its most significant bit.\<close>

definition bit_at :: "bytes \<Rightarrow> nat \<Rightarrow> bool" where
  "bit_at bs k = bit (bs ! (k div 8)) (7 - k mod 8)"

lemma leading_zeros8_eq:
  assumes "k < 8" "bit b (7 - k)" "\<And>j. j < k \<Longrightarrow> \<not> bit b (7 - j)"
  shows "leading_zeros8 b = k"
proof -
  have "k \<in> {0, 1, 2, 3, 4, 5, 6, 7}" using assms(1) by auto
  then show ?thesis
    using assms(2) assms(3) [of 0] assms(3) [of 1] assms(3) [of 2] assms(3) [of 3]
      assms(3) [of 4] assms(3) [of 5] assms(3) [of 6]
    by (elim insertE emptyE; simp add: leading_zeros8_def)
qed

lemma byte_zero_iff: "b = (0 :: u8) \<longleftrightarrow> (\<forall>j < 8. \<not> bit b (7 - j))"
proof
  assume *: "\<forall>j < 8. \<not> bit b (7 - j)"
  have "\<not> bit b n" if "n < 8" for n
    using * [rule_format, of "7 - n"] that by simp
  then show "b = 0" by (auto intro!: bit_word_eqI)
qed simp

lemma bit_at_Cons_low: "k < 8 \<Longrightarrow> bit_at (b # bs) k = bit b (7 - k)"
  by (simp add: bit_at_def)

lemma bit_at_Cons_high: "8 \<le> k \<Longrightarrow> bit_at (b # bs) k = bit_at bs (k - 8)"
  by (simp add: bit_at_def le_div_geq le_mod_geq)

lemma lzc_eq:
  assumes "k < 8 * length bs" "bit_at bs k" "\<And>j. j < k \<Longrightarrow> \<not> bit_at bs j"
  shows "lzc bs = k"
  using assms
proof (induction bs arbitrary: k)
  case Nil
  then show ?case by simp
next
  case (Cons b bs)
  show ?case
  proof (cases "k < 8")
    case True
    have "leading_zeros8 b = k"
      by (rule leading_zeros8_eq) (use True Cons.prems bit_at_Cons_low [of _ b bs] in auto)
    moreover have "b \<noteq> 0"
      using True Cons.prems(2) by (auto simp: bit_at_Cons_low)
    ultimately show ?thesis by simp
  next
    case False
    have "\<not> bit b (7 - j)" if "j < 8" for j
      using Cons.prems(3) [of j] that False by (simp add: bit_at_Cons_low)
    then have "b = 0" by (simp add: byte_zero_iff)
    moreover have "lzc bs = k - 8"
    proof (rule Cons.IH)
      show "k - 8 < 8 * length bs" using Cons.prems(1) False by simp
      show "bit_at bs (k - 8)" using Cons.prems(2) False by (simp add: bit_at_Cons_high)
      show "\<not> bit_at bs j" if "j < k - 8" for j
        using Cons.prems(3) [of "j + 8"] that by (simp add: bit_at_Cons_high)
    qed
    ultimately show ?thesis using False by simp
  qed
qed

lemma bit_at_ext:
  assumes "length as = length bs" "\<And>k. k < 8 * length as \<Longrightarrow> bit_at as k = bit_at bs k"
  shows "as = bs"
proof (rule nth_equalityI)
  fix i assume i: "i < length as"
  have "bit (as ! i) n = bit (bs ! i) n" if "n < 8" for n
  proof -
    define m where "m = 7 - n"
    have m: "m < 8" "n = 7 - m" using that by (auto simp: m_def)
    show ?thesis using assms(2) [of "8 * i + m"] i m by (simp add: bit_at_def)
  qed
  then show "as ! i = bs ! i" by (auto intro!: bit_word_eqI)
qed (fact assms(1))

lemma bit_at_zeros [simp]: "k < 8 * n \<Longrightarrow> \<not> bit_at (replicate n 0) k"
  by (simp add: bit_at_def less_mult_imp_div_less mult.commute)

lemma lzc_zeros [simp]: "lzc (replicate n 0) = 8 * n"
  by (induction n) auto

text \<open>The first set bit, for a string that has one.\<close>

lemma first_bit_ex:
  assumes "bs \<noteq> replicate (length bs) 0"
  shows "\<exists>k < 8 * length bs. bit_at bs k \<and> (\<forall>j < k. \<not> bit_at bs j)"
proof -
  from assms obtain k where "k < 8 * length bs" "bit_at bs k"
    using bit_at_ext [of bs "replicate (length bs) 0"] by auto
  then have "bit_at bs (LEAST k. bit_at bs k)" "(LEAST k. bit_at bs k) < 8 * length bs"
    by (auto intro: LeastI le_less_trans [OF Least_le])
  then show ?thesis using not_less_Least by blast
qed

lemma bit_at_xor32:
  "length a = length b \<Longrightarrow> k < 8 * length a \<Longrightarrow> bit_at (xor32 a b) k \<longleftrightarrow> bit_at a k \<noteq> bit_at b k"
  by (simp add: bit_at_def nth_xor32 bit_xor_iff less_mult_imp_div_less mult.commute)

lemma bucket_for_eqI:
  assumes "id32 a" "id32 b" "k < 256" "bit_at a k \<noteq> bit_at b k"
    and "\<And>j. j < k \<Longrightarrow> bit_at a j = bit_at b j"
  shows "bucket_for a b = Some (255 - k)"
proof -
  have "lzc (xor32 a b) = k"
    by (rule lzc_eq) (use assms in \<open>auto simp: id32_def bit_at_xor32\<close>)
  then show ?thesis using assms(3) by (simp add: bucket_for_def BUCKETS_def)
qed

lemma bucket_for_self [simp]: "id32 a \<Longrightarrow> bucket_for a a = None"
proof -
  assume "id32 a"
  then have "xor32 a a = replicate 32 0"
    using xor32_zero_iff [of a a] by (simp add: id32_def)
  then show ?thesis using lzc_zeros [of 32] by (simp add: bucket_for_def)
qed

lemma bucket_for_cases:
  assumes "id32 a" "id32 b" "a \<noteq> b"
  obtains k where "k < 256" "bucket_for a b = Some (255 - k)" "bit_at a k \<noteq> bit_at b k"
    "\<And>j. j < k \<Longrightarrow> bit_at a j = bit_at b j"
proof -
  have ne: "xor32 a b \<noteq> replicate (length (xor32 a b)) 0"
    using assms xor32_zero_iff [of a b] by (simp add: id32_def)
  obtain k where k: "k < 8 * length (xor32 a b)" "bit_at (xor32 a b) k"
    "\<forall>j < k. \<not> bit_at (xor32 a b) j"
    using first_bit_ex [OF ne] by blast
  have "k < 256" using k(1) assms by (simp add: id32_def)
  moreover have diff: "bit_at a k \<noteq> bit_at b k" "\<And>j. j < k \<Longrightarrow> bit_at a j = bit_at b j"
    using k assms by (auto simp: id32_def bit_at_xor32)
  moreover have "bucket_for a b = Some (255 - k)"
    using assms \<open>k < 256\<close> diff by (intro bucket_for_eqI)
  ultimately show ?thesis using that by blast
qed

lemma bucket_for_less: "bucket_for a b = Some i \<Longrightarrow> i < BUCKETS"
  by (auto simp: bucket_for_def Let_def BUCKETS_def split: if_splits)

section \<open>Random identifiers of a bucket\<close>

lemma same_byte_bit:
  fixes k b :: nat
  assumes "k div 8 = b div 8"
  shows "7 - k mod 8 = 7 - b mod 8 \<longleftrightarrow> k = b"
proof -
  have "k mod 8 < 8" "b mod 8 < 8" by simp_all
  then have "7 - k mod 8 = 7 - b mod 8 \<longleftrightarrow> k mod 8 = b mod 8" by linarith
  also have "\<dots> \<longleftrightarrow> k = b" using assms by (metis div_mult_mod_eq)
  finally show ?thesis .
qed

lemma length_copy_noise_bit [simp]: "length (copy_noise_bit noise b out) = length out"
  by (simp add: copy_noise_bit_def Let_def)

lemma bit_0x80: "bit (0x80 :: u8) k \<longleftrightarrow> k = 7"
proof -
  have "(0x80 :: u8) = push_bit 7 1" by simp
  then show ?thesis by (simp only: bit_push_bit_iff bit_1_iff) auto
qed

lemma bit_mask8: "m < 8 \<Longrightarrow> bit (drop_bit m (0x80 :: u8)) n \<longleftrightarrow> n = 7 - m"
  unfolding bit_drop_bit_eq comp_def bit_0x80 by auto

lemma bit_at_copy_noise_bit:
  assumes "k < 8 * length out" "b < 8 * length out"
  shows "bit_at (copy_noise_bit noise b out) k = (if k = b then bit_at noise b else bit_at out k)"
proof (cases "k div 8 = b div 8")
  case True
  have "b div 8 < length out" using assms(2) by (simp add: less_mult_imp_div_less mult.commute)
  moreover have "7 - k mod 8 = 7 - b mod 8 \<longleftrightarrow> k = b"
    using True by (rule same_byte_bit)
  moreover have "7 - k mod 8 < 8" by simp
  ultimately show ?thesis
    using True by (auto simp: copy_noise_bit_def Let_def bit_at_def bit_or_iff bit_and_iff
        bit_not_iff bit_mask8)
next
  case False
  then show ?thesis by (auto simp: copy_noise_bit_def Let_def bit_at_def)
qed

lemma length_fold_noise [simp]: "length (fold (copy_noise_bit noise) ks out) = length out"
  by (induction ks arbitrary: out) auto

lemma bit_at_fold_noise:
  assumes "\<forall>b \<in> set ks. b < 8 * length out" "k < 8 * length out" "k \<notin> set ks"
  shows "bit_at (fold (copy_noise_bit noise) ks out) k = bit_at out k"
  using assms by (induction ks arbitrary: out) (auto simp: bit_at_copy_noise_bit)

lemma bit_at_flip:
  assumes "k < 8 * length bs" "b < 8 * length bs"
  shows "bit_at (bs[b div 8 := bs ! (b div 8) XOR drop_bit (b mod 8) 0x80]) k
         = (bit_at bs k \<noteq> (k = b))"
proof (cases "k div 8 = b div 8")
  case True
  have "b div 8 < length bs" using assms(2) by (simp add: less_mult_imp_div_less mult.commute)
  moreover have "7 - k mod 8 = 7 - b mod 8 \<longleftrightarrow> k = b"
    using True by (rule same_byte_bit)
  ultimately show ?thesis
    using True by (auto simp: bit_at_def bit_xor_iff bit_mask8)
next
  case False
  then show ?thesis by (auto simp: bit_at_def)
qed

section \<open>The table invariant\<close>

text \<open>
  Both vectors of a bucket stay within \<^verbatim>\<open>BUCKET_SIZE\<close>; nobody waits in the replacement cache while
  there is room among the entries; an id occurs once in entries and cache together; every id lies
  in this bucket; an entry still listed has failed fewer than three pings; the entries run from
  least to most recently seen; every public key hashes to its id.
\<close>

definition bucket_inv :: "crypto \<Rightarrow> bytes \<Rightarrow> nat \<Rightarrow> nat \<Rightarrow> bucket \<Rightarrow> bool" where
  "bucket_inv cr self_id clock i b \<longleftrightarrow>
     length (b_entries b) \<le> BUCKET_SIZE \<and> length (b_candidates b) \<le> BUCKET_SIZE
     \<and> (b_candidates b \<noteq> [] \<longrightarrow> length (b_entries b) = BUCKET_SIZE)
     \<and> distinct (map re_id (b_entries b @ b_candidates b))
     \<and> (\<forall>e \<in> set (b_entries b @ b_candidates b).
          id32 (re_id e) \<and> bucket_for self_id (re_id e) = Some i
          \<and> node_id_new cr (re_pubkey e) = re_id e)
     \<and> (\<forall>e \<in> set (b_entries b). re_failed_pings e < PING_FAILURES_BEFORE_EVICTION)
     \<and> sorted (map re_last_seen (b_entries b))
     \<and> (\<forall>e \<in> set (b_entries b). re_last_seen e \<le> clock)"

definition table_inv :: "crypto \<Rightarrow> routing_table \<times> nat \<Rightarrow> bool" where
  "table_inv cr = (\<lambda>(t, clock).
     length (rt_buckets t) = BUCKETS
     \<and> (\<forall>i < BUCKETS. bucket_inv cr (rt_self_id t) clock i (rt_buckets t ! i)))"

text \<open>
  The operations of the table as one step function, with the instants the operation reads.  A step
  is guarded by a clock that does not run backwards and, for an insertion, by what every caller
  of \<^verbatim>\<open>insert\<close> has checked: the id is the hash of the public key.
\<close>

datatype table_op =
    OpInsert node_descriptor
  | OpPingFailed bytes
  | OpPingSucceeded bytes
  | OpMarkRefreshed nat

fun table_step ::
  "crypto \<Rightarrow> nat \<times> nat \<times> table_op \<Rightarrow> routing_table \<times> nat \<Rightarrow> routing_table \<times> nat" where
  "table_step cr (now, now', OpInsert d) (t, _) = (fst (rt_insert cr now now' d t), now')"
| "table_step cr (now, now', OpPingFailed p) (t, _) = (ping_failed now p t, now')"
| "table_step cr (now, now', OpPingSucceeded p) (t, _) = (fst (ping_succeeded now p t), now')"
| "table_step cr (now, now', OpMarkRefreshed i) (t, _) = (mark_refreshed now i t, now')"

fun table_guard :: "crypto \<Rightarrow> nat \<times> nat \<times> table_op \<Rightarrow> routing_table \<times> nat \<Rightarrow> bool" where
  "table_guard cr (now, now', opr) (t, clock) \<longleftrightarrow>
     clock \<le> now \<and> now \<le> now'
     \<and> (case opr of OpInsert d \<Rightarrow> id32 (nd_id d) \<and> node_id_new cr (nd_pubkey d) = nd_id d
        | _ \<Rightarrow> True)"

lemma sorted_remove_nth: "sorted xs \<Longrightarrow> sorted (remove_nth i xs)"
proof (cases "i < length xs")
  case True
  moreover assume "sorted xs"
  ultimately have "sorted (take i xs @ xs ! i # drop (Suc i) xs)"
    using remove_nth_split by metis
  then show ?thesis by (auto simp: remove_nth_def sorted_append)
qed (simp add: remove_nth_def)

lemma sorted_snoc: "sorted xs \<Longrightarrow> (\<And>x. x \<in> set xs \<Longrightarrow> x \<le> y) \<Longrightarrow> sorted (xs @ [y])"
  by (simp add: sorted_append)

text \<open>Moving one entry to the back, under any update that keeps its id.\<close>

lemma re_ids_to_back:
  assumes "distinct (map re_id es)" "pos < length es" "re_id e' = re_id (es ! pos)"
  shows "distinct (map re_id (remove_nth pos es @ [e']))"
    and "re_id ` set (remove_nth pos es @ [e']) = re_id ` set es"
proof -
  have set: "set (remove_nth pos (map re_id es)) = re_id ` set es - {re_id (es ! pos)}"
    using set_remove_nth_distinct [OF assms(1), of pos] assms(2) by simp
  have "re_id (es ! pos) \<in> re_id ` set es" using assms(2) by simp
  then show "re_id ` set (remove_nth pos es @ [e']) = re_id ` set es"
    using set assms(3) by (auto simp: map_remove_nth simp flip: set_map)
  show "distinct (map re_id (remove_nth pos es @ [e']))"
    using distinct_remove_nth [OF assms(1), of pos] set assms(3) by (simp add: map_remove_nth)
qed

lemma bucket_inv_to_back:
  assumes inv: "bucket_inv cr s clock i b" and pos: "pos < length (b_entries b)"
    and e': "re_id e' = re_id (b_entries b ! pos)" "re_last_seen e' = now"
      "node_id_new cr (re_pubkey e') = re_id e'"
      "re_failed_pings e' < PING_FAILURES_BEFORE_EVICTION"
    and now: "clock \<le> now" "now \<le> now'"
  shows "bucket_inv cr s now' i (b\<lparr>b_entries := remove_nth pos (b_entries b) @ [e']\<rparr>)"
proof -
  let ?es = "b_entries b"
  have mem: "?es ! pos \<in> set ?es" using pos by simp
  have sub: "\<And>e. e \<in> set (remove_nth pos ?es) \<Longrightarrow> e \<in> set ?es"
    using set_remove_nth_subset by fast
  have dist: "distinct (map re_id ?es)" and disj: "re_id ` set ?es \<inter> re_id ` set (b_candidates b) = {}"
    using inv by (auto simp: bucket_inv_def)
  have len: "length (remove_nth pos ?es @ [e']) = length ?es"
    using length_remove_nth [OF pos] pos by simp
  have srt: "sorted (map re_last_seen (remove_nth pos ?es @ [e']))"
    using inv sub now e'(2) sorted_remove_nth [of "map re_last_seen ?es" pos]
    by (fastforce simp: bucket_inv_def map_remove_nth intro!: sorted_snoc
        dest: subsetD [OF set_remove_nth_subset])
  have ids: "distinct (map re_id (remove_nth pos ?es @ [e'] @ b_candidates b))"
    using re_ids_to_back [OF dist pos e'(1)] disj inv by (auto simp: bucket_inv_def)
  have seen: "re_last_seen e \<le> now'" if "e \<in> set ?es" for e
    using inv that now by (auto simp: bucket_inv_def)
  show ?thesis
    using inv len srt ids e' mem sub seen now by (auto simp: bucket_inv_def)
qed

lemma bucket_inv_clock: "bucket_inv cr s clock i b \<Longrightarrow> clock \<le> now \<Longrightarrow> bucket_inv cr s now i b"
  by (auto simp: bucket_inv_def)

lemma bucket_inv_refresh_at [simp]:
  "bucket_inv cr s clock i (b\<lparr>b_refresh_at := x\<rparr>) = bucket_inv cr s clock i b"
  by (simp add: bucket_inv_def)

lemma bucket_inv_append:
  assumes "bucket_inv cr s clock i b" "clock \<le> now'" "node_id_new cr (nd_pubkey d) = nd_id d"
    "id32 (nd_id d)" "bucket_for s (nd_id d) = Some i" "nd_id d \<notin> re_id ` set (b_entries b)"
    "length (b_entries b) < BUCKET_SIZE"
  shows "bucket_inv cr s now' i (b\<lparr>b_entries := b_entries b @ [from_descriptor now' d]\<rparr>)"
proof -
  have "re_last_seen e \<le> now'" if "e \<in> set (b_entries b)" for e
    using assms(1,2) that by (auto simp: bucket_inv_def)
  then show ?thesis
    using assms
    by (auto simp: bucket_inv_def from_descriptor_def PING_FAILURES_BEFORE_EVICTION_def
        intro!: sorted_snoc)
qed

lemma bucket_inv_park:
  assumes "bucket_inv cr s clock i b" "clock \<le> now'" "node_id_new cr (nd_pubkey d) = nd_id d"
    "id32 (nd_id d)" "bucket_for s (nd_id d) = Some i" "nd_id d \<notin> re_id ` set (b_entries b)"
    "length (b_entries b) = BUCKET_SIZE" "length (b_candidates b) < BUCKET_SIZE"
    "\<forall>c \<in> set (b_candidates b). re_id c \<noteq> nd_id d"
  shows "bucket_inv cr s now' i (b\<lparr>b_candidates := b_candidates b @ [from_descriptor now' d]\<rparr>)"
  using assms by (auto simp: bucket_inv_def from_descriptor_def)

lemma bucket_inv_insert:
  assumes inv: "bucket_inv cr s clock i b" and now: "clock \<le> now" "now \<le> now'"
    and d: "node_id_new cr (nd_pubkey d) = nd_id d" "id32 (nd_id d)" "bucket_for s (nd_id d) = Some i"
  shows "bucket_inv cr s now' i (fst (bucket_insert cr now now' d b))"
proof (cases "position (\<lambda>e. re_id e = nd_id d) (b_entries b)")
  case None
  then have "nd_id d \<notin> re_id ` set (b_entries b)" by (force simp: position_None)
  moreover have "length (b_entries b) \<le> BUCKET_SIZE"
    using inv by (simp add: bucket_inv_def)
  moreover have "clock \<le> now'" using now by simp
  ultimately show ?thesis
    using None inv d bucket_inv_append [of cr s clock i "b\<lparr>b_refresh_at := now\<rparr>" now' d]
      bucket_inv_park [of cr s clock i "b\<lparr>b_refresh_at := now\<rparr>" now' d]
      bucket_inv_clock [OF inv, of now']
    by (auto simp: bucket_insert_def Let_def)
next
  case (Some pos)
  then have pos: "pos < length (b_entries b)" "re_id (b_entries b ! pos) = nd_id d"
    by (auto dest: position_Some)
  have "re_failed_pings (b_entries b ! pos) < PING_FAILURES_BEFORE_EVICTION"
    using inv pos by (simp add: bucket_inv_def)
  then show ?thesis
    using Some pos d now inv
    by (auto simp: bucket_insert_def Let_def
        intro!: bucket_inv_to_back [of cr s clock i "b\<lparr>b_refresh_at := now\<rparr>", simplified])
qed

lemma bucket_inv_update:
  assumes "bucket_inv cr s clock i b" "pos < length (b_entries b)"
    "e' = (b_entries b ! pos)\<lparr>re_failed_pings := n\<rparr>" "n < PING_FAILURES_BEFORE_EVICTION"
  shows "bucket_inv cr s clock i (b\<lparr>b_entries := (b_entries b)[pos := e']\<rparr>)"
proof -
  have e': "re_id e' = re_id (b_entries b ! pos)" "re_last_seen e' = re_last_seen (b_entries b ! pos)"
    "re_pubkey e' = re_pubkey (b_entries b ! pos)" "re_failed_pings e' = n"
    using assms(3) by simp_all
  let ?es = "b_entries b" and ?es' = "(b_entries b)[pos := e']"
  have maps: "map re_id ?es' = map re_id ?es" "map re_last_seen ?es' = map re_last_seen ?es"
    using assms(2) e' by (auto simp: map_update list_update_same_conv nth_map)
  have "re_id ` set ?es' = re_id ` set ?es" using maps(1) by (metis set_map)
  then have ids: "distinct (map re_id (?es' @ b_candidates b))"
    using assms(1) maps(1) by (simp add: bucket_inv_def)
  have old: "?es ! pos \<in> set ?es" using assms(2) by simp
  have mem: "e = e' \<or> e \<in> set ?es" if "e \<in> set ?es'" for e
    using set_update_subset_insert [of ?es pos e'] that by blast
  have "id32 (re_id e) \<and> bucket_for s (re_id e) = Some i \<and> node_id_new cr (re_pubkey e) = re_id e
      \<and> re_failed_pings e < PING_FAILURES_BEFORE_EVICTION \<and> re_last_seen e \<le> clock"
    if "e \<in> set ?es'" for e
    using mem [OF that] old assms(1,4) e' by (elim disjE) (simp_all add: bucket_inv_def)
  then show ?thesis
    using assms(1) ids maps(2) by (simp add: bucket_inv_def ball_Un)
qed

lemma bucket_inv_evict:
  assumes "bucket_inv cr s clock i b" "pos < length (b_entries b)" "b_candidates b = []"
  shows "bucket_inv cr s clock i (b\<lparr>b_entries := remove_nth pos (b_entries b)\<rparr>)"
proof -
  have "distinct (map re_id (remove_nth pos (b_entries b)))"
    "sorted (map re_last_seen (remove_nth pos (b_entries b)))"
    using assms(1) distinct_remove_nth [of "map re_id (b_entries b)" pos]
      sorted_remove_nth [of "map re_last_seen (b_entries b)" pos]
    by (simp_all add: bucket_inv_def map_remove_nth)
  moreover have "e \<in> set (b_entries b)" if "e \<in> set (remove_nth pos (b_entries b))" for e
    using set_remove_nth_subset that by fast
  ultimately show ?thesis
    using assms length_remove_nth [OF assms(2)] by (simp add: bucket_inv_def le_diff_conv)
qed

lemma bucket_inv_promote:
  assumes inv: "bucket_inv cr s clock i b" and pos: "pos < length (b_entries b)"
    and c: "b_candidates b = c # cs" and now: "clock \<le> now"
  shows "bucket_inv cr s now i
           (b\<lparr>b_entries := remove_nth pos (b_entries b) @ [c\<lparr>re_last_seen := now, re_failed_pings := 0\<rparr>],
              b_candidates := cs\<rparr>)"
proof -
  let ?es = "b_entries b"
  have sub: "\<And>e. e \<in> set (remove_nth pos ?es) \<Longrightarrow> e \<in> set ?es"
    using set_remove_nth_subset by fast
  have ids: "distinct (map re_id (remove_nth pos ?es))"
    using inv distinct_remove_nth [of "map re_id ?es" pos] by (simp add: bucket_inv_def map_remove_nth)
  have seen: "re_last_seen e \<le> now" if "e \<in> set ?es" for e
    using inv that now by (auto simp: bucket_inv_def)
  have srt: "sorted (map re_last_seen (remove_nth pos ?es) @ [now])"
  proof (rule sorted_snoc)
    show "sorted (map re_last_seen (remove_nth pos ?es))"
      using inv sorted_remove_nth [of "map re_last_seen ?es" pos]
      by (simp add: bucket_inv_def map_remove_nth)
    show "x \<le> now" if "x \<in> set (map re_last_seen (remove_nth pos ?es))" for x
      using that seen sub by auto
  qed
  have len: "length (remove_nth pos ?es) = length ?es - 1" by (rule length_remove_nth [OF pos])
  have full: "length ?es = BUCKET_SIZE" using inv c by (simp add: bucket_inv_def)
  show ?thesis
    using inv c ids srt len full seen pos
    by (auto simp: bucket_inv_def PING_FAILURES_BEFORE_EVICTION_def BUCKET_SIZE_def dest!: sub)
qed

lemma bucket_inv_ping_failed:
  assumes inv: "bucket_inv cr s clock i b" and now: "clock \<le> now"
  shows "bucket_inv cr s now i (bucket_ping_failed now p b)"
proof (cases "position (\<lambda>e. re_id e = p) (b_entries b)")
  case None
  then show ?thesis using bucket_inv_clock [OF assms] by (simp add: bucket_ping_failed_def)
next
  case (Some pos)
  then have pos: "pos < length (b_entries b)" by (auto dest: position_Some)
  note inv' = bucket_inv_clock [OF inv now]
  show ?thesis
    using Some pos inv' bucket_inv_update [OF inv' pos] bucket_inv_evict [OF inv' pos]
      bucket_inv_promote [OF inv pos _ now]
    by (auto simp: bucket_ping_failed_def Let_def split: list.splits)
qed

lemma bucket_inv_ping_succeeded:
  assumes inv: "bucket_inv cr s clock i b" and now: "clock \<le> now"
  shows "bucket_inv cr s now i (fst (bucket_ping_succeeded now p b))"
proof (cases "position (\<lambda>e. re_id e = p) (b_entries b)")
  case None
  then show ?thesis using bucket_inv_clock [OF assms] by (simp add: bucket_ping_succeeded_def)
next
  case (Some pos)
  then have pos: "pos < length (b_entries b)" by (auto dest: position_Some)
  define e' where "e' = (b_entries b ! pos)\<lparr>re_failed_pings := 0, re_last_seen := now\<rparr>"
  have "bucket_inv cr s now i (b\<lparr>b_entries := remove_nth pos (b_entries b) @ [e']\<rparr>)"
    by (rule bucket_inv_to_back [OF inv pos, where now = now])
      (use inv pos now in \<open>auto simp: e'_def bucket_inv_def PING_FAILURES_BEFORE_EVICTION_def\<close>)
  then have "bucket_inv cr s now i
      (b\<lparr>b_entries := remove_nth pos (b_entries b) @ [e']\<rparr>\<lparr>b_refresh_at := now\<rparr>)"
    by (simp only: bucket_inv_refresh_at)
  then show ?thesis
    using Some by (simp add: bucket_ping_succeeded_def e'_def Let_def)
qed

lemma table_inv_update:
  assumes "table_inv cr (t, clock)" "clock \<le> now" "i < BUCKETS \<Longrightarrow> bucket_inv cr (rt_self_id t) now i b"
  shows "table_inv cr (t\<lparr>rt_buckets := (rt_buckets t)[i := b]\<rparr>, now)"
proof -
  have "bucket_inv cr (rt_self_id t) now j ((rt_buckets t)[i := b] ! j)" if "j < BUCKETS" for j
    using assms that bucket_inv_clock [of cr "rt_self_id t" clock j "rt_buckets t ! j" now]
    by (cases "j = i") (auto simp: table_inv_def)
  then show ?thesis using assms(1) by (simp add: table_inv_def)
qed

lemma table_inv_clock: "table_inv cr (t, clock) \<Longrightarrow> clock \<le> now \<Longrightarrow> table_inv cr (t, now)"
  by (auto simp: table_inv_def intro: bucket_inv_clock)

lemma table_inv_step:
  assumes "table_inv cr st" "table_guard cr x st"
  shows "table_inv cr (table_step cr x st)"
proof -
  obtain t clock where st: "st = (t, clock)" by (cases st)
  obtain now now' opr where x: "x = (now, now', opr)" by (cases x) auto
  have now: "clock \<le> now" "now \<le> now'" "clock \<le> now'" using assms(2) st x by auto
  have inv: "table_inv cr (t, clock)" using assms(1) st by simp
  have b: "bucket_inv cr (rt_self_id t) clock i (rt_buckets t ! i)" if "i < BUCKETS" for i
    using inv that by (simp add: table_inv_def)
  show ?thesis
  proof (cases opr)
    case (OpInsert d)
    then show ?thesis
      using assms(2) st x now table_inv_clock [OF inv, of now']
      by (auto simp: rt_insert_def split: option.splits prod.splits
          intro!: table_inv_update [OF inv] dest: bucket_inv_insert [OF b, of _ now now' d] sym)
  next
    case (OpPingFailed p)
    then show ?thesis
      using st x now table_inv_clock [OF inv, of now']
      by (auto simp: ping_failed_def split: option.splits
          intro!: table_inv_update [OF inv] bucket_inv_clock [OF bucket_inv_ping_failed [OF b]])
  next
    case (OpPingSucceeded p)
    then show ?thesis
      using st x now table_inv_clock [OF inv, of now']
      by (auto simp: ping_succeeded_def split: option.splits prod.splits
          intro!: table_inv_update [OF inv]
          dest: bucket_inv_clock [OF bucket_inv_ping_succeeded [OF b, of _ now p], of _ now'] sym)
  next
    case (OpMarkRefreshed i)
    then show ?thesis
      using st x now table_inv_clock [OF inv, of now']
      by (auto simp: mark_refreshed_def
          intro!: table_inv_update [OF inv] bucket_inv_clock [OF b])
  qed
qed

lemma table_inv_empty: "table_inv cr (table_empty now self_id, now)"
  by (simp add: table_inv_def table_empty_def bucket_empty_def bucket_inv_def)

interpretation table: step_system "(table_empty now self_id, now)" "table_step cr" "table_guard cr"
  "table_inv cr" for cr now self_id
  by unfold_locales (auto intro: table_inv_empty table_inv_step)

section \<open>Nearest entries\<close>

lemma distinct_concat_upt:
  assumes "\<And>i. i < n \<Longrightarrow> distinct (f i)"
    and "\<And>i j. i < n \<Longrightarrow> j < n \<Longrightarrow> i \<noteq> j \<Longrightarrow> set (f i) \<inter> set (f j) = {}"
  shows "distinct (concat (map f [0..<n]))"
  using assms
proof (induction n)
  case (Suc n)
  then have "distinct (concat (map f [0..<n]))" by simp
  moreover have "set (f i) \<inter> set (f n) = {}" if "i < n" for i
    using Suc.prems(2) [of i n] that by simp
  then have "set (concat (map f [0..<n])) \<inter> set (f n) = {}" by fastforce
  ultimately show ?case using Suc.prems(1) [of n] by simp
qed simp

lemma distinct_all_entries:
  assumes "table_inv cr (t, clock)"
  shows "distinct (map re_id (all_entries t))"
proof -
  have len: "length (rt_buckets t) = BUCKETS"
    and b: "\<And>i. i < BUCKETS \<Longrightarrow> bucket_inv cr (rt_self_id t) clock i (rt_buckets t ! i)"
    using assms by (auto simp: table_inv_def)
  let ?f = "\<lambda>i. map re_id (b_entries (rt_buckets t ! i))"
  have "distinct (concat (map ?f [0..<BUCKETS]))"
  proof (rule distinct_concat_upt)
    fix i j assume ij: "i < BUCKETS" "j < BUCKETS" "i \<noteq> j"
    have "bucket_for (rt_self_id t) x = Some k" if "x \<in> set (?f k)" "k < BUCKETS" for x k
      using b [OF that(2)] that(1) by (auto simp: bucket_inv_def)
    then show "set (?f i) \<inter> set (?f j) = {}" using ij by (metis disjoint_iff option.inject)
  qed (use b in \<open>auto simp: bucket_inv_def\<close>)
  moreover have "map (map re_id \<circ> b_entries) (rt_buckets t) = map ?f [0..<BUCKETS]"
    by (rule nth_equalityI) (auto simp: len)
  then have "map re_id (all_entries t) = concat (map ?f [0..<BUCKETS])"
    by (simp add: all_entries_def map_concat)
  ultimately show ?thesis by simp
qed

lemma all_entries_wf:
  assumes "table_inv cr (t, clock)" "e \<in> set (all_entries t)"
  shows "id32 (re_id e)" and "node_id_new cr (re_pubkey e) = re_id e"
    and "\<exists>i < BUCKETS. bucket_for (rt_self_id t) (re_id e) = Some i"
proof -
  obtain b where "b \<in> set (rt_buckets t)" "e \<in> set (b_entries b)"
    using assms(2) by (auto simp: all_entries_def)
  moreover have "length (rt_buckets t) = BUCKETS" using assms(1) by (simp add: table_inv_def)
  ultimately obtain i where "i < BUCKETS" "e \<in> set (b_entries (rt_buckets t ! i))"
    by (metis in_set_conv_nth)
  moreover from this have "bucket_inv cr (rt_self_id t) clock i (rt_buckets t ! i)"
    using assms(1) by (simp add: table_inv_def)
  ultimately show "id32 (re_id e)" "node_id_new cr (re_pubkey e) = re_id e"
    "\<exists>i < BUCKETS. bucket_for (rt_self_id t) (re_id e) = Some i"
    by (auto simp: bucket_inv_def)
qed

lemma distinct_entry_dist:
  assumes "table_inv cr (t, clock)" "id32 target"
  shows "distinct (map (entry_dist target) (all_entries t))"
proof -
  have "inj_on re_id (set (all_entries t))" "distinct (all_entries t)"
    using distinct_all_entries [OF assms(1)] by (auto simp: distinct_map)
  moreover have "inj_on (xdist target) (re_id ` set (all_entries t))"
    by (rule xord.dist_inj_on) (use assms all_entries_wf [OF assms(1)] in auto)
  ultimately have "inj_on (xdist target \<circ> re_id) (set (all_entries t))"
    by (simp add: comp_inj_on)
  then show ?thesis
    using \<open>distinct (all_entries t)\<close>
    by (simp add: distinct_map entry_dist_def [abs_def] comp_def)
qed

text \<open>The ids a table knows, and the result of a nearest-node query by ids alone.\<close>

definition known_ids :: "routing_table \<Rightarrow> bytes set" where
  "known_ids t = re_id ` set (all_entries t)"

lemma self_not_known:
  assumes "table_inv cr (t, clock)" "id32 (rt_self_id t)"
  shows "rt_self_id t \<notin> known_ids t"
proof
  assume "rt_self_id t \<in> known_ids t"
  then obtain e where e: "e \<in> set (all_entries t)" "re_id e = rt_self_id t"
    by (auto simp: known_ids_def)
  show False using all_entries_wf(3) [OF assms(1) e(1)] assms(2) by (simp add: e(2))
qed

section \<open>Who leaves the table\<close>

lemma ids_to_back:
  "pos < length es \<Longrightarrow> re_id e' = re_id (es ! pos)
   \<Longrightarrow> re_id ` set (remove_nth pos es @ [e']) = re_id ` set es"
  using arg_cong [OF set_remove_nth_insert [of pos es], of "image re_id"] by auto

lemma bucket_insert_ids:
  "re_id ` set (b_entries b) \<subseteq> re_id ` set (b_entries (fst (bucket_insert cr now now' d b)))"
proof (cases "position (\<lambda>e. re_id e = nd_id d) (b_entries b)")
  case None
  then show ?thesis by (auto simp: bucket_insert_def Let_def)
next
  case (Some pos)
  then have "pos < length (b_entries b)" by (auto dest: position_Some)
  from ids_to_back [OF this] show ?thesis
    using Some by (simp add: bucket_insert_def Let_def del: set_append)
qed

lemma bucket_ping_succeeded_ids:
  "re_id ` set (b_entries (fst (bucket_ping_succeeded now p b))) = re_id ` set (b_entries b)"
proof (cases "position (\<lambda>e. re_id e = p) (b_entries b)")
  case None
  then show ?thesis by (simp add: bucket_ping_succeeded_def)
next
  case (Some pos)
  then have "pos < length (b_entries b)" by (auto dest: position_Some)
  from ids_to_back [OF this] show ?thesis
    using Some by (simp add: bucket_ping_succeeded_def Let_def del: set_append)
qed

lemma bucket_ping_failed_ids:
  assumes inv: "bucket_inv cr s clock i b" and e: "e \<in> set (b_entries b)"
    and gone: "re_id e \<notin> re_id ` set (b_entries (bucket_ping_failed now p b))"
  shows "p = re_id e \<and> re_failed_pings e = 2"
proof (cases "position (\<lambda>e. re_id e = p) (b_entries b)")
  case None
  then show ?thesis using e gone by (simp add: bucket_ping_failed_def)
next
  case (Some pos)
  then have pos: "pos < length (b_entries b)" "re_id (b_entries b ! pos) = p"
    by (auto dest: position_Some)
  let ?n = "re_failed_pings (b_entries b ! pos)"
  let ?es' = "b_entries (bucket_ping_failed now p b)"
  have evict: "\<not> sat_succ8 ?n < PING_FAILURES_BEFORE_EVICTION"
  proof
    assume "sat_succ8 ?n < PING_FAILURES_BEFORE_EVICTION"
    then have "map re_id ?es' = map re_id (b_entries b)"
      using Some pos by (simp add: bucket_ping_failed_def map_update list_update_same_conv)
    then show False using e gone by (metis image_eqI set_map)
  qed
  then have "set (remove_nth pos (b_entries b)) \<subseteq> set ?es'"
    using Some by (auto simp: bucket_ping_failed_def split: list.splits)
  then have "e \<notin> set (remove_nth pos (b_entries b))" using gone by blast
  then have "e = b_entries b ! pos" using e set_remove_nth_insert [OF pos(1)] by blast
  moreover have "?n < 3" using inv pos(1) by (simp add: bucket_inv_def PING_FAILURES_BEFORE_EVICTION_def)
  with evict have "?n = 2"
    by (auto simp: sat_succ8_def PING_FAILURES_BEFORE_EVICTION_def word_less_nat_alt unat_word_ariths
        word_unat_eq_iff split: if_splits)
  ultimately show ?thesis using pos(2) by simp
qed

lemma known_id_update:
  assumes "e \<in> set (all_entries t)" "i < length (rt_buckets t)"
    and "e \<in> set (b_entries (rt_buckets t ! i)) \<Longrightarrow> re_id e \<in> re_id ` set (b_entries b)"
  shows "re_id e \<in> known_ids (t\<lparr>rt_buckets := (rt_buckets t)[i := b]\<rparr>)"
proof -
  obtain j where j: "j < length (rt_buckets t)" "e \<in> set (b_entries (rt_buckets t ! j))"
    using assms(1) by (auto simp: all_entries_def) (metis in_set_conv_nth)
  show ?thesis
  proof (cases "j = i")
    case True
    then have "b \<in> set ((rt_buckets t)[i := b])" "re_id e \<in> re_id ` set (b_entries b)"
      using j assms(2,3) by (auto intro: set_update_memI)
    then show ?thesis by (auto simp: known_ids_def all_entries_def)
  next
    case False
    then have "rt_buckets t ! j \<in> set ((rt_buckets t)[i := b])"
      using j(1) by (metis length_list_update nth_list_update_neq nth_mem)
    then show ?thesis using j(2) by (auto simp: known_ids_def all_entries_def)
  qed
qed

section \<open>Properties\<close>

text \<open>
  Property C31.  Two node ids share no bucket exactly when they are equal, and the bucket index names
  the highest bit in which they differ: all bits above agree and that bit differs.
\<close>

theorem bucket_for_highest_differing_bit:
  assumes "id32 a" "id32 b"
  shows "(bucket_for a b = None \<longleftrightarrow> a = b)
    \<and> (bucket_for a b = Some i \<longleftrightarrow>
           i < BUCKETS \<and> bit_at a (255 - i) \<noteq> bit_at b (255 - i)
           \<and> (\<forall>j < 255 - i. bit_at a j = bit_at b j))"
proof -
  have none: "bucket_for a b = None \<longleftrightarrow> a = b"
    using assms bucket_for_cases [of a b] by (cases "a = b") auto
  have conv: "bucket_for a b = Some i"
    if "i < BUCKETS" "bit_at a (255 - i) \<noteq> bit_at b (255 - i)" "\<forall>j < 255 - i. bit_at a j = bit_at b j"
    using bucket_for_eqI [OF assms, of "255 - i"] that by (simp add: BUCKETS_def)
  have "i < BUCKETS \<and> bit_at a (255 - i) \<noteq> bit_at b (255 - i) \<and> (\<forall>j < 255 - i. bit_at a j = bit_at b j)"
    if some: "bucket_for a b = Some i"
  proof -
    have "a \<noteq> b" using some assms by auto
    then obtain k where "k < 256" "bucket_for a b = Some (255 - k)" "bit_at a k \<noteq> bit_at b k"
      "\<And>j. j < k \<Longrightarrow> bit_at a j = bit_at b j"
      using bucket_for_cases [OF assms] by metis
    moreover from this have "i = 255 - k" using some by simp
    ultimately show ?thesis by (auto simp: BUCKETS_def)
  qed
  with conv none show ?thesis by blast
qed

theorem bucket_for_highest_differing_bit_witness:
  "bucket_for (replicate 32 0) (replicate 31 0 @ [5]) = Some 2
   \<and> bit_at (replicate 32 0) 253 \<noteq> bit_at (replicate 31 0 @ [5]) 253"
proof -
  have "bucket_for (replicate 32 0) (replicate 31 0 @ [5]) = Some 2"
    by code_simp
  moreover have "id32 (replicate 32 0)" "id32 (replicate 31 0 @ [5])"
    by (simp_all add: id32_def)
  ultimately show ?thesis
    using bucket_for_highest_differing_bit [of "replicate 32 0" "replicate 31 0 @ [5]" 2] by simp
qed

text \<open>
  Property C32.  Whatever bytes the random number generator gives, the id drawn for a bucket lies in
  that bucket, so a refresh walk probes the region it was scheduled for.
\<close>

theorem random_id_lands_in_bucket:
  assumes "id32 self_id" "length noise = 32" "bucket_idx < BUCKETS"
  shows "\<exists>t. random_id_in_bucket (Some noise) self_id bucket_idx = Some t
           \<and> id32 t \<and> bucket_for self_id t = Some bucket_idx"
proof -
  define k where "k = 255 - bucket_idx"
  have k: "k < 256" "255 - k = bucket_idx" using assms(3) by (auto simp: k_def BUCKETS_def)
  define out where "out = self_id[k div 8 := self_id ! (k div 8) XOR drop_bit (k mod 8) 0x80]"
  define t where "t = fold (copy_noise_bit noise) [k + 1..<256] out"
  have len: "length out = 32" "length self_id = 32"
    using assms(1) by (simp_all add: out_def id32_def)
  have below: "bit_at t j = bit_at out j" if "j \<le> k" for j
    unfolding t_def by (rule bit_at_fold_noise) (use that k len in auto)
  have flip: "bit_at out j = (bit_at self_id j \<noteq> (j = k))" if "j < 256" for j
    unfolding out_def by (rule bit_at_flip) (use that k len in auto)
  have id: "id32 t" using len by (simp add: t_def id32_def)
  have "bucket_for self_id t = Some (255 - k)"
    by (rule bucket_for_eqI) (use assms(1) id k below flip in auto)
  moreover have "random_id_in_bucket (Some noise) self_id bucket_idx = Some t"
    using assms(3) by (simp add: random_id_in_bucket_def t_def out_def k_def BUCKETS_def Let_def)
  ultimately show ?thesis using id k(2) by auto
qed

theorem random_id_lands_in_bucket_witness:
  "\<exists>t. random_id_in_bucket (Some (replicate 32 0xA7)) (replicate 32 3) 17 = Some t
     \<and> id32 t \<and> bucket_for (replicate 32 3) t = Some 17"
  by (rule random_id_lands_in_bucket) (simp_all add: id32_def BUCKETS_def)


text \<open>A peer whose key is its own id under the padding hash.\<close>

definition demo_descriptor :: "u8 \<Rightarrow> node_descriptor" where
  "demo_descriptor n = \<lparr> nd_id = replicate 31 0 @ [n], nd_addr = SocketAddrV4 [1, 1, 1, n] 4433,
                         nd_pubkey = replicate 31 0 @ [n] \<rparr>"




end
