(* ===== verification/Homes.thy ===== *)
theory Homes
  imports Routing
begin

text \<open>
  The choice of the homes of a user, \<^verbatim>\<open>homes\<close> of \<^verbatim>\<open>relay/src/dht/routing.rs\<close>, and what the relays
  of a cluster may rely on: the homes are the \<^verbatim>\<open>K\<close> nodes nearest to the user among all the relay
  knows and itself, and relays with the same view choose the same homes.
\<close>

section \<open>Definition\<close>

text \<open>\<^verbatim>\<open>homes\<close>: the node id of the relay is the id its table was made for.\<close>

definition homes :: "routing_table \<Rightarrow> bytes \<Rightarrow> node_descriptor list \<times> bool" where
  "homes t target =
     (let remote = find_closest t target K;
          is_home = (length remote < K
                     \<or> xor32 (rt_self_id t) target \<le> xor32 (nd_id (remote ! (K - 1))) target)
      in (if is_home then take (K - 1) remote else remote, is_home))"

section \<open>Lemmas\<close>

lemma map_insort_key_comp: "map g (insort_key (\<lambda>x. f (g x)) x xs) = insort_key f (g x) (map g xs)"
  by (induction xs) auto

lemma map_sort_key: "map g (sort_key (\<lambda>x. f (g x)) xs) = sort_key f (map g xs)"
proof (induction xs)
  case (Cons x xs)
  then show ?case by (simp add: map_insort_key_comp)
qed simp


lemma take_insort_key:
  assumes "sorted (map f xs)" "0 < n"
  shows "set (take n (insort_key f s xs)) =
           (if length (take n xs) < n \<or> f s \<le> f (take n xs ! (n - 1))
            then insert s (set (take (n - 1) xs)) else set (take n xs))"
  using assms
proof (induction xs arbitrary: n)
  case Nil
  then show ?case by (cases n) auto
next
  case (Cons y ys)
  show ?case
  proof (cases "f s \<le> f y")
    case True
    then have "f s \<le> f ((y # ys) ! (n - 1))" if "n - 1 < length (y # ys)"
      using Cons.prems(1) that by (cases "n - 1") (auto intro: order_trans)
    then have cond: "length (take n (y # ys)) < n \<or> f s \<le> f (take n (y # ys) ! (n - 1))"
      using Cons.prems(2) by (cases "n \<le> length (y # ys)") auto
    obtain m where n: "n = Suc m" using Cons.prems(2) by (cases n) auto
    have "set (take n (insort_key f s (y # ys))) = insert s (set (take (n - 1) (y # ys)))"
      using True by (simp add: n)
    then show ?thesis by (simp only: cond if_True)
  next
    case False
    show ?thesis
    proof (cases "n - 1")
      case 0
      then have "n = 1" using Cons.prems(2) by simp
      then show ?thesis using False by simp
    next
      case (Suc m)
      then have n: "n = Suc (Suc m)" by simp
      show ?thesis using False Cons.prems Cons.IH [of "Suc m"] by (auto simp: n)
    qed
  qed
qed

lemma map_find_closest:
  "map nd_id (find_closest t target n) =
     take n (sort_key (xdist target) (map re_id (all_entries t)))"
proof -
  have "map nd_id (find_closest t target n) = take n (map re_id (sort_key (entry_dist target) (all_entries t)))"
    by (simp add: find_closest_def rt_closest_def descriptor_def take_map comp_def)
  also have "entry_dist target = (\<lambda>e. xdist target (re_id e))"
    by (simp add: entry_dist_def [abs_def])
  finally show ?thesis by (simp add: map_sort_key [where f = "xdist target"])
qed

text \<open>The home set: the ids of the remote homes, and the relay itself when it is one.\<close>

definition home_set :: "routing_table \<Rightarrow> bytes \<Rightarrow> bytes set" where
  "home_set t target =
     nd_id ` set (fst (homes t target)) \<union> (if snd (homes t target) then {rt_self_id t} else {})"

lemma home_set_sorted:
  "home_set t target = set (take K (sort_key (xdist target) (rt_self_id t # map re_id (all_entries t))))"
proof -
  let ?xs = "sort_key (xdist target) (map re_id (all_entries t))"
  let ?R = "find_closest t target K"
  have ids: "map nd_id ?R = take K ?xs" by (rule map_find_closest)
  have len: "length ?R = length (take K ?xs)" using ids by (metis length_map)
  have nth: "nd_id (?R ! (K - 1)) = take K ?xs ! (K - 1)" if "\<not> length ?R < K"
    using that ids by (metis K_def One_nat_def diff_less nth_map less_le_trans not_less zero_less_numeral
        zero_less_one)
  have tk: "nd_id ` set (take (K - 1) ?R) = set (take (K - 1) ?xs)"
    using ids by (metis diff_le_self min.absorb1 set_map take_map take_take)
  have fl: "nd_id ` set ?R = set (take K ?xs)" using ids by (metis set_map)
  have ins: "sort_key (xdist target) (rt_self_id t # map re_id (all_entries t))
             = insort_key (xdist target) (rt_self_id t) ?xs" by simp
  have "sorted (map (xdist target) ?xs)" by simp
  note main = take_insort_key [OF this, of K "rt_self_id t"]
  have K: "0 < K" by (simp add: K_def)
  show ?thesis
    unfolding ins main [OF K] home_set_def homes_def Let_def
    using tk fl nth len by auto
qed

lemma home_set_nearest:
  assumes "table_inv cr (t, clock)" "id32 (rt_self_id t)" "id32 target"
  shows "home_set t target = n_nearest (xdist target) K (insert (rt_self_id t) (known_ids t))"
proof -
  let ?ids = "rt_self_id t # map re_id (all_entries t)"
  have "distinct ?ids"
    using distinct_all_entries [OF assms(1)] self_not_known [OF assms(1,2)]
    by (simp add: known_ids_def)
  moreover have "inj_on (xdist target) (set ?ids)"
    by (rule xord.dist_inj_on) (use assms all_entries_wf(1) [OF assms(1)] in auto)
  ultimately have "distinct (map (xdist target) ?ids)" by (simp only: distinct_map)
  from n_nearest_sort_key [OF this, of K] show ?thesis
    by (simp add: home_set_sorted known_ids_def)
qed

lemma total_known_length: "total_known t = length (all_entries t)"
  by (simp add: all_entries_def total_known_def length_concat comp_def)

lemma card_home_set:
  assumes "table_inv cr (t, clock)" "id32 (rt_self_id t)"
  shows "card (home_set t target) = min K (Suc (total_known t))"
proof -
  let ?ids = "rt_self_id t # map re_id (all_entries t)"
  have "distinct ?ids"
    using distinct_all_entries [OF assms(1)] self_not_known [OF assms] by (simp add: known_ids_def)
  then have "distinct (take K (sort_key (xdist target) ?ids))"
    by (meson distinct_sort distinct_take)
  then show ?thesis
    by (simp add: home_set_sorted distinct_card total_known_length del: sort_key_simps)
qed

section \<open>Properties\<close>

text \<open>
  The contract of \<^verbatim>\<open>select_nth_unstable_by_key\<close> followed by \<^verbatim>\<open>truncate\<close>: the vector is permuted into a
  kept and a dropped part, and no kept key exceeds a dropped one.
\<close>

definition cut_contract ::
  "('a \<Rightarrow> 'd::linorder) \<Rightarrow> nat \<Rightarrow> 'a list \<Rightarrow> 'a list \<Rightarrow> 'a list \<Rightarrow> bool" where
  "cut_contract key n xs kept dropped \<longleftrightarrow>
     distinct (kept @ dropped) = distinct xs \<and> set (kept @ dropped) = set xs
     \<and> length (kept @ dropped) = length xs \<and> length kept = min n (length xs)
     \<and> (\<forall>x \<in> set kept. \<forall>y \<in> set dropped. key x \<le> key y)"

lemma cut_contract_sort_key: "cut_contract key n xs (take n (sort_key key xs)) (drop n (sort_key key xs))"
proof -
  have "sorted (map key (take n (sort_key key xs) @ drop n (sort_key key xs)))"
    by (simp only: append_take_drop_id sorted_sort_key)
  then have "\<forall>x \<in> set (take n (sort_key key xs)). \<forall>y \<in> set (drop n (sort_key key xs)). key x \<le> key y"
    by (simp only: map_append sorted_append set_map) auto
  then show ?thesis by (simp add: cut_contract_def)
qed

text \<open>
  Property C30.  The nearest-node query is well determined although it uses an unstable partial
  selection: any selection that meets the library's contract, sorted by distance afterwards, is the
  vector of the query.  The ids of a table are distinct and so are their distances to a target.
\<close>

theorem closest_any_cut:
  assumes inv: "table_inv cr (t, clock)" and target: "id32 target"
    and cut: "cut_contract (entry_dist target) count (all_entries t) kept dropped"
    and out: "set out = set kept" "distinct out" "sorted (map (entry_dist target) out)"
  shows "out = rt_closest t target count"
proof -
  let ?xs = "all_entries t"
  let ?ys = "rt_closest t target count"
  have dd: "distinct (map (entry_dist target) ?xs)" by (rule distinct_entry_dist [OF inv target])
  have dx: "distinct ?xs" and ii: "inj_on re_id (set ?xs)"
    using distinct_all_entries [OF inv] by (auto simp: distinct_map)
  have ctr: "cut_contract (entry_dist target) count ?xs ?ys (drop count (sort_key (entry_dist target) ?xs))"
    unfolding rt_closest_def by (rule cut_contract_sort_key)
  have sub: "set k \<subseteq> set ?xs" "distinct k" "card (set k) = min count (length ?xs)"
    "\<And>x y. x \<in> set k \<Longrightarrow> y \<in> set ?xs - set k \<Longrightarrow> entry_dist target x \<le> entry_dist target y"
    if "cut_contract (entry_dist target) count ?xs k d" for k d
    using that dx by (auto simp: cut_contract_def distinct_card)
  have card_img: "card (re_id ` A) = card A" if "A \<subseteq> set ?xs" for A
    using ii that by (meson card_image inj_on_subset)
  have "re_id ` set kept = re_id ` set ?ys"
  proof (rule xord.nearest_unique [of target "re_id ` set ?xs"])
    show "card (re_id ` set kept) = card (re_id ` set ?ys)"
      using card_img sub(1,3) [OF cut] sub(1,3) [OF ctr] by simp
    show "xdist target x \<le> xdist target y"
      if "x \<in> re_id ` set kept" "y \<in> re_id ` set ?xs - re_id ` set kept" for x y
      using that sub(4) [OF cut] by (auto simp: entry_dist_def)
    show "xdist target x \<le> xdist target y"
      if "x \<in> re_id ` set ?ys" "y \<in> re_id ` set ?xs - re_id ` set ?ys" for x y
      using that sub(4) [OF ctr] by (auto simp: entry_dist_def)
  qed (use target all_entries_wf(1) [OF inv] sub(1) [OF cut] sub(1) [OF ctr] in auto)
  then have "set out = set ?ys"
    using ii sub(1) [OF cut] sub(1) [OF ctr] out(1) by (simp add: inj_on_image_eq_iff)
  moreover have "sorted (map (entry_dist target) ?ys)"
    by (simp add: rt_closest_def flip: take_map)
  moreover have inj: "inj_on (entry_dist target) (set out)"
    using dd sub(1) [OF cut] out(1) by (metis distinct_map inj_on_subset)
  have dout: "distinct (map (entry_dist target) out)"
    using inj out(2) by (simp only: distinct_map)
  ultimately have "?ys = sort_key (entry_dist target) out"
    using sub(2) [OF ctr] by (intro sorted_key_unique) auto
  moreover have "out = sort_key (entry_dist target) out"
    by (rule sorted_key_unique [OF dout refl out(2,3)])
  ultimately show ?thesis by simp
qed

text \<open>
  Property C12.  The homes of a user are the three relays nearest to the user's id among the relays
  this one knows and itself; there are exactly three of them, or all of them when fewer are known.
\<close>

theorem homes_are_k_nearest:
  assumes "table_inv cr (t, clock)" "id32 (rt_self_id t)" "id32 target"
  shows "home_set t target = n_nearest (xdist target) K (insert (rt_self_id t) (known_ids t))
         \<and> card (home_set t target) = min K (Suc (total_known t))"
  using home_set_nearest [OF assms] card_home_set [OF assms(1,2)] by (rule conjI)

text \<open>
  Property C14.  Relays whose views of the network coincide agree on the homes of every user: if two
  relays know each other and the same others, a sender's relay and a recipient's relay compute the
  same home set.
\<close>

theorem homes_agree:
  assumes "table_inv cr (t1, clock1)" "table_inv cr (t2, clock2)"
    and "id32 (rt_self_id t1)" "id32 (rt_self_id t2)" "id32 target"
    and "insert (rt_self_id t1) (known_ids t1) = insert (rt_self_id t2) (known_ids t2)"
  shows "home_set t1 target = home_set t2 target"
  using home_set_nearest [OF assms(1,3,5)] home_set_nearest [OF assms(2,4,5)] assms(6) by simp

section \<open>Witnesses\<close>

text \<open>Two relays, 1 and 2, that know each other and relays 8 and 9.\<close>

definition demo_table :: "u8 \<Rightarrow> u8 list \<Rightarrow> routing_table" where
  "demo_table self peers =
     fst (fold (table_step toy_crypto) (map (\<lambda>p. (0, 0, OpInsert (demo_descriptor p))) peers)
            (table_empty 0 (replicate 31 0 @ [self]), 0))"

lemma trace_ok_inserts:
  assumes "\<And>p. p \<in> set ps \<Longrightarrow> id32 (nd_id (f p)) \<and> node_id_new cr (nd_pubkey (f p)) = nd_id (f p)"
  shows "trace_ok (table_step cr) (table_guard cr) (map (\<lambda>p. (0, 0, OpInsert (f p))) ps) (t, 0)"
  using assms by (induction ps arbitrary: t) auto

lemma demo_descriptor_wf:
  "id32 (nd_id (demo_descriptor p))"
  "node_id_new toy_crypto (nd_pubkey (demo_descriptor p)) = nd_id (demo_descriptor p)"
  by (simp_all add: demo_descriptor_def id32_def node_id_new_def toy_crypto_def)

lemma snd_fold_inserts:
  "snd (fold (table_step cr) (map (\<lambda>p. (0, 0, OpInsert (f p))) ps) (t, 0)) = 0"
  by (induction ps arbitrary: t) auto

lemma demo_table_inv: "table_inv toy_crypto (demo_table self peers, 0)"
proof -
  let ?ops = "map (\<lambda>p. (0 :: nat, 0 :: nat, OpInsert (demo_descriptor p))) peers"
  let ?s = "(table_empty 0 (replicate 31 0 @ [self]), 0)"
  have "table_inv toy_crypto (fold (table_step toy_crypto) ?ops ?s)"
    by (rule table.inv_run) (rule trace_ok_inserts, simp add: demo_descriptor_wf)
  then show ?thesis
    using snd_fold_inserts [of toy_crypto demo_descriptor peers "table_empty 0 (replicate 31 0 @ [self])"]
    by (metis demo_table_def prod.collapse)
qed

lemma demo_entries:
  "all_entries (demo_table 1 [2, 8, 9]) = map (from_descriptor 0 \<circ> demo_descriptor) [2, 8, 9]"
  "all_entries (demo_table 2 [1, 8, 9]) = map (from_descriptor 0 \<circ> demo_descriptor) [1, 8, 9]"
  by code_simp+

lemma demo_known:
  "known_ids (demo_table 1 [2, 8, 9]) = (\<lambda>n. replicate 31 0 @ [n]) ` {2, 8, 9}"
  "known_ids (demo_table 2 [1, 8, 9]) = (\<lambda>n. replicate 31 0 @ [n]) ` {1, 8, 9}"
  by (simp_all add: known_ids_def demo_entries from_descriptor_def demo_descriptor_def)

lemma rt_self_id_step: "rt_self_id (fst (table_step cr x s)) = rt_self_id (fst s)"
  by (cases s; cases x; cases "snd (snd x)")
    (auto simp: rt_insert_def ping_failed_def ping_succeeded_def mark_refreshed_def
      split: option.splits prod.splits)

lemma rt_self_id_fold: "rt_self_id (fst (fold (table_step cr) xs s)) = rt_self_id (fst s)"
proof (induction xs arbitrary: s)
  case (Cons x xs)
  then show ?case by (simp add: rt_self_id_step)
qed simp

lemma demo_self [simp]: "rt_self_id (demo_table self peers) = replicate 31 0 @ [self]"
  by (simp add: demo_table_def rt_self_id_fold table_empty_def)

theorem closest_any_cut_witness:
  "rt_closest (demo_table 1 [2, 8, 9]) (replicate 31 0 @ [10]) 2
   = map (from_descriptor 0 \<circ> demo_descriptor) [8, 9]"
proof -
  let ?e = "from_descriptor 0 \<circ> demo_descriptor"
  have "cut_contract (entry_dist (replicate 31 0 @ [10])) 2 (all_entries (demo_table 1 [2, 8, 9]))
          (map ?e [9, 8]) (map ?e [2])"
    unfolding demo_entries by code_simp
  moreover have "sorted (map (entry_dist (replicate 31 0 @ [10])) (map ?e [8, 9]))" by code_simp
  moreover have "distinct (map ?e [8, 9])" by code_simp
  ultimately show ?thesis
    using closest_any_cut [OF demo_table_inv, of "replicate 31 0 @ [10]" 2 1 "[2, 8, 9]"
        "map ?e [9, 8]" "map ?e [2]" "map ?e [8, 9]"]
    by (simp add: id32_def insert_commute)
qed

theorem homes_are_k_nearest_witness:
  "home_set (demo_table 1 [2, 8, 9]) (replicate 31 0 @ [10])
     = n_nearest (xdist (replicate 31 0 @ [10])) K ((\<lambda>n. replicate 31 0 @ [n]) ` {1, 2, 8, 9})
   \<and> card (home_set (demo_table 1 [2, 8, 9]) (replicate 31 0 @ [10])) = 3"
proof -
  have known: "total_known (demo_table 1 [2, 8, 9]) = 3" "min K (Suc 3) = 3"
    by (simp_all add: total_known_length demo_entries K_def)
  have ids: "insert (replicate 31 0 @ [1]) (known_ids (demo_table 1 [2, 8, 9]))
      = (\<lambda>n. replicate 31 0 @ [n]) ` {1, 2, 8, 9}"
    by (simp add: demo_known)
  have wf: "id32 (rt_self_id (demo_table 1 [2, 8, 9]))" "id32 (replicate 31 0 @ [10])"
    by (simp_all add: id32_def)
  show ?thesis
    using homes_are_k_nearest [OF demo_table_inv wf] unfolding demo_self known ids .
qed

theorem homes_agree_witness:
  "home_set (demo_table 1 [2, 8, 9]) (replicate 31 0 @ [10])
   = home_set (demo_table 2 [1, 8, 9]) (replicate 31 0 @ [10])"
  by (rule homes_agree [OF demo_table_inv demo_table_inv])
    (auto simp: demo_known id32_def)

end
