(* ===== verification/Queue.thy ===== *)
theory Queue
  imports Keyspace Homes
begin

text \<open>
  The offline message queue: the row key and row formats of \<^verbatim>\<open>relay/src/storage/mod.rs\<close>, the dispatch
  of \<^verbatim>\<open>common/src/proto/client_rel.rs\<close>, and the home queue of \<^verbatim>\<open>relay/src/dht/store.rs\<close>: admission
  with its caps, batches for a drain, deletion by id, and the drift plan.  postcard is a parameter
  (\<^verbatim>\<open>serde\<close>); what the proofs need of it is the round trip of a dispatch (\<^verbatim>\<open>serde_ok\<close>).
\<close>

section \<open>Keys\<close>

definition MAX_QUEUED_PER_RECIPIENT :: nat where "MAX_QUEUED_PER_RECIPIENT = 1024"

datatype message_key = MessageKey (mk_recipient: bytes) (mk_ts_be: bytes) (mk_id: bytes)

definition mk_SIZE :: nat where "mk_SIZE = 56"

definition mk_new :: "bytes \<Rightarrow> u64 \<Rightarrow> bytes \<Rightarrow> message_key" where
  "mk_new recipient ts_ms i = MessageKey recipient (u64_be ts_ms) i"

definition mk_as_bytes :: "message_key \<Rightarrow> bytes" where
  "mk_as_bytes k = mk_recipient k @ mk_ts_be k @ mk_id k"

definition mk_parse :: "bytes \<Rightarrow> message_key option" where
  "mk_parse bs = (if length bs = mk_SIZE
     then Some (MessageKey (take 32 bs) (take 8 (drop 32 bs)) (drop 40 bs)) else None)"

definition mk_wf :: "message_key \<Rightarrow> bool" where
  "mk_wf k \<longleftrightarrow> length (mk_recipient k) = 32 \<and> length (mk_ts_be k) = 8 \<and> length (mk_id k) = 16"

text \<open>Keys are compared as their bytes: this is the order of a scan.\<close>

instantiation message_key :: linorder
begin

definition less_eq_message_key :: "message_key \<Rightarrow> message_key \<Rightarrow> bool" where
  "less_eq_message_key a b \<longleftrightarrow>
     (mk_recipient a, mk_ts_be a, mk_id a) = (mk_recipient b, mk_ts_be b, mk_id b)
     \<or> mk_recipient a < mk_recipient b
     \<or> mk_recipient a = mk_recipient b \<and> (mk_ts_be a < mk_ts_be b
         \<or> mk_ts_be a = mk_ts_be b \<and> mk_id a < mk_id b)"

definition less_message_key :: "message_key \<Rightarrow> message_key \<Rightarrow> bool" where
  "less_message_key a b \<longleftrightarrow>
     mk_recipient a < mk_recipient b
     \<or> mk_recipient a = mk_recipient b \<and> (mk_ts_be a < mk_ts_be b
         \<or> mk_ts_be a = mk_ts_be b \<and> mk_id a < mk_id b)"

instance
proof
  fix a b c :: message_key
  show "a < b \<longleftrightarrow> a \<le> b \<and> \<not> b \<le> a"
    by (auto simp: less_message_key_def less_eq_message_key_def)
  show "a \<le> a" by (simp add: less_eq_message_key_def)
  show "a \<le> b \<Longrightarrow> b \<le> c \<Longrightarrow> a \<le> c"
    by (auto simp: less_eq_message_key_def)
  show "a \<le> b \<Longrightarrow> b \<le> a \<Longrightarrow> a = b"
    by (auto simp: less_eq_message_key_def message_key.expand)
  show "a \<le> b \<or> b \<le> a"
    by (auto simp: less_eq_message_key_def)
qed

end

section \<open>Dispatches and their rows\<close>

datatype wake = WakeNo | WakeMessage | WakeCall

definition wakes :: "wake \<Rightarrow> bool" where
  "wakes w \<longleftrightarrow> w \<noteq> WakeNo"

record dispatch =
  d_to :: bytes
  d_from :: bytes
  d_id :: bytes
  d_payload :: bytes
  d_sig :: bytes
  d_accepted_at_ms :: u64
  d_wake :: wake
  d_ttl_ms :: u64

definition is_expired :: "dispatch \<Rightarrow> u64 \<Rightarrow> bool" where
  "is_expired d now_ms \<longleftrightarrow>
     d_wake d \<noteq> WakeCall \<and> d_ttl_ms d \<noteq> 0 \<and> sat_sub now_ms (d_accepted_at_ms d) > d_ttl_ms d"

record untimed_dispatch =
  ud_to :: bytes
  ud_from :: bytes
  ud_id :: bytes
  ud_payload :: bytes
  ud_sig :: bytes
  ud_accepted_at_ms :: u64
  ud_wake :: wake

record delivered =
  dl_id :: bytes
  dl_from :: bytes
  dl_payload :: bytes
  dl_sig :: bytes
  dl_accepted_at_ms :: u64

text \<open>The parameter for postcard: encoder and decoders of the row shapes.\<close>

record serde =
  ser_dispatch :: "dispatch \<Rightarrow> bytes option"
  de_dispatch :: "bytes \<Rightarrow> dispatch option"
  de_untimed :: "bytes \<Rightarrow> untimed_dispatch option"
  de_delivered_ttl :: "bytes \<Rightarrow> (delivered \<times> u64) option"
  de_delivered :: "bytes \<Rightarrow> delivered option"

definition serde_ok :: "serde \<Rightarrow> bool" where
  "serde_ok sd \<longleftrightarrow> (\<forall>d b. ser_dispatch sd d = Some b \<longrightarrow> de_dispatch sd b = Some d)"

definition queued_dispatch :: "serde \<Rightarrow> bytes \<Rightarrow> bytes \<Rightarrow> dispatch option" where
  "queued_dispatch sd recipient val =
     (case de_dispatch sd val of
        Some d \<Rightarrow> Some d
      | None \<Rightarrow>
          (case de_untimed sd val of
             Some u \<Rightarrow>
               Some \<lparr> d_to = ud_to u, d_from = ud_from u, d_id = ud_id u, d_payload = ud_payload u,
                      d_sig = ud_sig u, d_accepted_at_ms = ud_accepted_at_ms u,
                      d_wake = ud_wake u, d_ttl_ms = 0 \<rparr>
           | None \<Rightarrow>
               map_option (\<lambda>(l, ttl_ms).
                   \<lparr> d_to = recipient, d_from = dl_from l, d_id = dl_id l, d_payload = dl_payload l,
                     d_sig = dl_sig l, d_accepted_at_ms = dl_accepted_at_ms l,
                     d_wake = WakeNo, d_ttl_ms = ttl_ms \<rparr>)
                 (case de_delivered_ttl sd val of
                    Some lt \<Rightarrow> Some lt
                  | None \<Rightarrow> map_option (\<lambda>l. (l, 0)) (de_delivered sd val))))"

section \<open>Admission\<close>

definition MAX_QUEUED_PER_SENDER :: nat where "MAX_QUEUED_PER_SENDER = 128"
definition SENDER_SCAN_BYTE_BUDGET :: nat where "SENDER_SCAN_BYTE_BUDGET = 8 * 1024 * 1024"
definition MAX_FRAME_BYTES :: nat where "MAX_FRAME_BYTES = 1048576"
definition QUEUE_BATCH_MAX_BYTES :: nat where "QUEUE_BATCH_MAX_BYTES = MAX_FRAME_BYTES - 64 * 1024"

datatype queue_admission = Insert | AlreadyQueued | IdTakenByOther | Full | ScanFailed

text \<open>
  The scan loop of \<^verbatim>\<open>admit_to_queue\<close> with its three counters; both \<^verbatim>\<open>break\<close>s fall through to the check
  after the loop.
\<close>

definition admit_verdict :: "nat \<Rightarrow> nat \<Rightarrow> queue_admission" where
  "admit_verdict tot from_sender =
     (if tot \<ge> MAX_QUEUED_PER_RECIPIENT \<or> from_sender \<ge> MAX_QUEUED_PER_SENDER then Full else Insert)"

definition queued_from :: "serde \<Rightarrow> bytes \<Rightarrow> bytes \<Rightarrow> bytes \<Rightarrow> bool" where
  "queued_from sd recipient sender val \<longleftrightarrow>
     (case queued_dispatch sd recipient val of Some q \<Rightarrow> d_from q = sender | None \<Rightarrow> False)"

fun admit_scan ::
  "serde \<Rightarrow> bytes \<Rightarrow> bytes \<Rightarrow> bytes \<Rightarrow> (bytes \<times> bytes) option list \<Rightarrow> nat \<Rightarrow> nat \<Rightarrow> nat
   \<Rightarrow> queue_admission" where
  "admit_scan sd recipient did sender [] tot from_sender attributed = admit_verdict tot from_sender"
| "admit_scan sd recipient did sender (None # gs) tot from_sender attributed = ScanFailed"
| "admit_scan sd recipient did sender (Some (key, val) # gs) tot from_sender attributed =
     (if length key \<noteq> mk_SIZE
      then admit_scan sd recipient did sender gs tot from_sender attributed
      else
        let attributable = attributed < SENDER_SCAN_BYTE_BUDGET;
            same_sender = (attributable \<and> queued_from sd recipient sender val);
            attributed' = (if attributable then attributed + length val else attributed)
        in if take 16 (drop 40 key) = did
           then (if same_sender then AlreadyQueued else IdTakenByOther)
           else
             let tot' = tot + 1;
                 from_sender' = (if same_sender then from_sender + 1 else from_sender)
             in if same_sender \<and> from_sender' \<ge> MAX_QUEUED_PER_SENDER
                then admit_verdict tot' from_sender'
                else if tot' \<ge> MAX_QUEUED_PER_RECIPIENT + 1
                then admit_verdict tot' from_sender'
                else admit_scan sd recipient did sender gs tot' from_sender' attributed')"

definition admit_to_queue ::
  "fjall_io \<Rightarrow> serde \<Rightarrow> keyspace \<Rightarrow> bytes \<Rightarrow> bytes \<Rightarrow> bytes \<Rightarrow> queue_admission" where
  "admit_to_queue fj sd ks recipient did sender =
     admit_scan sd recipient did sender (fj_prefix fj ks recipient) 0 0 0"

datatype forward_outcome = Delivered | Stored | NotOwner | QueueFull | BadSig | RateLimited

definition enqueue_for_home ::
  "fjall_io \<Rightarrow> serde \<Rightarrow> bytes \<Rightarrow> dispatch \<Rightarrow> u64 \<Rightarrow> keyspace \<Rightarrow> keyspace \<times> forward_outcome" where
  "enqueue_for_home fj sd user_ipk d now_ms ks =
     (case admit_to_queue fj sd ks user_ipk (d_id d) (d_from d) of
        AlreadyQueued \<Rightarrow> (ks, Stored)
      | IdTakenByOther \<Rightarrow> (ks, BadSig)
      | ScanFailed \<Rightarrow> (ks, BadSig)
      | Full \<Rightarrow> (ks, QueueFull)
      | Insert \<Rightarrow>
          (case ser_dispatch sd d of
             None \<Rightarrow> (ks, BadSig)
           | Some val \<Rightarrow>
               (case io_insert fj (mk_as_bytes (mk_new user_ipk now_ms (d_id d))) val ks of
                  (ks', True) \<Rightarrow> (ks', Stored)
                | (ks', False) \<Rightarrow> (ks', BadSig))))"

section \<open>Batches, deletion and drift\<close>

fun batch_scan ::
  "serde \<Rightarrow> bytes \<Rightarrow> nat \<Rightarrow> u64 \<Rightarrow> (bytes \<times> bytes) option list \<Rightarrow> nat \<Rightarrow> nat
   \<Rightarrow> (message_key \<times> dispatch) list \<times> bytes list \<times> bool" where
  "batch_scan sd user mx now_ms [] n used = ([], [], True)"
| "batch_scan sd user mx now_ms (None # gs) n used = ([], [], False)"
| "batch_scan sd user mx now_ms (Some (key_bytes, val) # gs) n used =
     (case mk_parse key_bytes of
        None \<Rightarrow> batch_scan sd user mx now_ms gs n used
      | Some key \<Rightarrow>
          if length val > QUEUE_BATCH_MAX_BYTES
          then (case batch_scan sd user mx now_ms gs n used of
                  (out, dead, ex) \<Rightarrow> (out, key_bytes # dead, ex))
          else case queued_dispatch sd user val of
                 None \<Rightarrow> batch_scan sd user mx now_ms gs n used
               | Some d \<Rightarrow>
                   if is_expired d now_ms
                   then (case batch_scan sd user mx now_ms gs n used of
                           (out, dead, ex) \<Rightarrow> (out, key_bytes # dead, ex))
                   else if n \<ge> mx \<or> used + length val > QUEUE_BATCH_MAX_BYTES
                   then ([], [], False)
                   else (case batch_scan sd user mx now_ms gs (n + 1) (used + length val) of
                           (out, dead, ex) \<Rightarrow> ((key, d) # out, dead, ex)))"

definition queue_batch_for_user ::
  "fjall_io \<Rightarrow> serde \<Rightarrow> bytes \<Rightarrow> nat \<Rightarrow> u64 \<Rightarrow> keyspace
   \<Rightarrow> keyspace \<times> (message_key \<times> dispatch) list \<times> bool" where
  "queue_batch_for_user fj sd user mx now_ms ks =
     (if mx = 0 then (ks, [], False)
      else case batch_scan sd user mx now_ms (fj_prefix fj ks user) 0 0 of
             (out, dead, exhausted) \<Rightarrow> (fst (io_removes fj dead ks), out, exhausted))"

fun victims_scan :: "bytes list \<Rightarrow> (bytes \<times> bytes) option list \<Rightarrow> bytes list" where
  "victims_scan ids [] = []"
| "victims_scan ids (None # gs) = []"
| "victims_scan ids (Some (key_bytes, val) # gs) =
     (if (case mk_parse key_bytes of Some k \<Rightarrow> mk_id k \<in> set ids | None \<Rightarrow> False)
      then key_bytes # victims_scan ids gs
      else victims_scan ids gs)"

definition delete_queue_entries :: "fjall_io \<Rightarrow> bytes \<Rightarrow> bytes list \<Rightarrow> keyspace \<Rightarrow> keyspace \<times> nat" where
  "delete_queue_entries fj user ids ks =
     (if ids = [] then (ks, 0) else io_removes fj (victims_scan ids (fj_prefix fj ks user)) ks)"

fun drift_scan ::
  "serde \<Rightarrow> (bytes \<Rightarrow> bool) \<Rightarrow> nat \<Rightarrow> (bytes \<times> bytes) option list \<Rightarrow> (message_key \<times> dispatch) list" where
  "drift_scan sd drifted mx [] = []"
| "drift_scan sd drifted mx (None # gs) = drift_scan sd drifted mx gs"
| "drift_scan sd drifted mx (Some (key_bytes, val) # gs) =
     (case mk_parse key_bytes of
        None \<Rightarrow> drift_scan sd drifted mx gs
      | Some key \<Rightarrow>
          if \<not> drifted (mk_recipient key) then drift_scan sd drifted mx gs
          else case queued_dispatch sd (mk_recipient key) val of
                 None \<Rightarrow> drift_scan sd drifted mx gs
               | Some d \<Rightarrow> if mx \<le> 1 then [(key, d)] else (key, d) # drift_scan sd drifted (mx - 1) gs)"

text \<open>The per-recipient verdicts are cached in the source; the verdict is a function of the table.\<close>

definition plan_drift_migrations ::
  "fjall_io \<Rightarrow> serde \<Rightarrow> routing_table \<Rightarrow> nat \<Rightarrow> keyspace \<Rightarrow> (message_key \<times> dispatch) list" where
  "plan_drift_migrations fj sd t mx ks =
     (if mx = 0 then []
      else drift_scan sd (\<lambda>user. \<not> snd (homes t user)) mx (fj_iter fj ks))"

definition delete_migrated_entry :: "fjall_io \<Rightarrow> message_key \<Rightarrow> keyspace \<Rightarrow> keyspace \<times> bool" where
  "delete_migrated_entry fj key ks = io_remove fj (mk_as_bytes key) ks"

section \<open>Keys: lemmas\<close>

lemma mk_parse_as_bytes [simp]: "mk_wf k \<Longrightarrow> mk_parse (mk_as_bytes k) = Some k"
  by (cases k) (simp add: mk_wf_def mk_parse_def mk_as_bytes_def mk_SIZE_def)

interpretation mk: codec mk_as_bytes mk_parse mk_wf
  by unfold_locales simp

lemma take_take_drop: "take a bs @ take b (drop a bs) @ drop (b + a) bs = bs"
proof -
  have "drop (b + a) bs = drop b (drop a bs)" by simp
  then show ?thesis by (simp only: append_take_drop_id)
qed

lemma mk_parse_SomeD:
  "mk_parse bs = Some k \<Longrightarrow> mk_wf k \<and> mk_as_bytes k = bs \<and> length bs = 56 \<and> mk_recipient k = take 32 bs"
  using take_take_drop [of 32 bs 8]
  by (auto simp: mk_parse_def mk_wf_def mk_as_bytes_def mk_SIZE_def split: if_splits)

lemma mk_less_bytes: "mk_wf a \<Longrightarrow> mk_wf b \<Longrightarrow> mk_as_bytes a < mk_as_bytes b \<longleftrightarrow> a < b"
  by (auto simp: mk_wf_def mk_as_bytes_def less_message_key_def append_less_append)

lemma mk_wf_new: "length r = 32 \<Longrightarrow> length i = 16 \<Longrightarrow> mk_wf (mk_new r ts i)"
  by (simp add: mk_wf_def mk_new_def)

lemma mk_new_bytes: "mk_as_bytes (mk_new r ts i) = r @ u64_be ts @ i"
  by (simp add: mk_as_bytes_def mk_new_def)

text \<open>The rows of one recipient that count: those with a key of the right size.\<close>

definition queue_rows :: "keyspace \<Rightarrow> bytes \<Rightarrow> (bytes \<times> bytes) list" where
  "queue_rows ks r = filter (\<lambda>(k, v). length k = mk_SIZE \<and> starts_with r k) ks"

definition row_id :: "bytes \<times> bytes \<Rightarrow> bytes" where
  "row_id row = take 16 (drop 40 (fst row))"

lemma queue_rows_prefix: "queue_rows ks r = filter (\<lambda>(k, v). length k = mk_SIZE) (ks_prefix ks r)"
  by (simp add: queue_rows_def ks_prefix_def split_def filter_filter conj_commute)

lemma row_id_new [simp]:
  "length r = 32 \<Longrightarrow> length i = 16 \<Longrightarrow> row_id (mk_as_bytes (mk_new r ts i), v) = i"
  by (simp add: row_id_def mk_new_bytes)

section \<open>Admission: what an accepted dispatch implies\<close>

abbreviation sized_rows :: "(bytes \<times> bytes) list \<Rightarrow> (bytes \<times> bytes) list" where
  "sized_rows rows \<equiv> filter (\<lambda>(k, v). length k = mk_SIZE) rows"

text \<open>One row of the right size, in the scan of an accepted dispatch.\<close>

lemma admit_scan_Insert_row:
  assumes "admit_scan sd r did sender (Some (key, val) # gs) tot fs at = Insert" "length key = mk_SIZE"
  shows "row_id (key, val) \<noteq> did
    \<and> admit_scan sd r did sender gs (tot + 1)
        (if at < SENDER_SCAN_BYTE_BUDGET \<and> queued_from sd r sender val then fs + 1 else fs)
        (if at < SENDER_SCAN_BYTE_BUDGET then at + length val else at) = Insert"
proof (cases "at < SENDER_SCAN_BYTE_BUDGET"; cases "queued_from sd r sender val")
qed (use assms in \<open>auto simp: Let_def row_id_def admit_verdict_def split: if_splits\<close>)

text \<open>\<^verbatim>\<open>Insert\<close> means that the scan read every row, met no row with the id, and stayed under the caps.\<close>

lemma admit_scan_Insert:
  assumes "admit_scan sd r did sender gs tot fs at = Insert" "reads_rows rows gs"
  shows "gs = map Some rows \<and> (\<forall>row \<in> set (sized_rows rows). row_id row \<noteq> did)
    \<and> tot + length (sized_rows rows) < MAX_QUEUED_PER_RECIPIENT"
  using assms
proof (induction gs arbitrary: tot fs at rows)
  case Nil
  then show ?case by (auto simp: admit_verdict_def split: if_splits)
next
  case (Cons g gs)
  from Cons.prems obtain key val rs where
    rows: "g = Some (key, val)" "rows = (key, val) # rs" "reads_rows rs gs"
    by (cases g) auto
  show ?case
  proof (cases "length key = mk_SIZE")
    case False
    then show ?thesis using Cons.IH [of tot fs at rs] Cons.prems rows by simp
  next
    case True
    note row = admit_scan_Insert_row [OF Cons.prems(1) [unfolded rows(1)] True]
    then show ?thesis using Cons.IH [OF conjunct2 [OF row] rows(3)] rows True by auto
  qed
qed

text \<open>The attributed rows of the sender stay below the share.\<close>

lemma admit_scan_Insert_sender:
  assumes "admit_scan sd r did sender gs tot fs at = Insert" "reads_rows rows gs"
    and "at + sum_list (map (length \<circ> snd) (sized_rows rows)) < SENDER_SCAN_BYTE_BUDGET"
  shows "fs + length (filter (\<lambda>(k, v). queued_from sd r sender v) (sized_rows rows)) < MAX_QUEUED_PER_SENDER"
  using assms
proof (induction gs arbitrary: tot fs at rows)
  case Nil
  then show ?case by (auto simp: admit_verdict_def split: if_splits)
next
  case (Cons g gs)
  from Cons.prems obtain key val rs where
    rows: "g = Some (key, val)" "rows = (key, val) # rs" "reads_rows rs gs"
    by (cases g) auto
  show ?case
  proof (cases "length key = mk_SIZE")
    case False
    then show ?thesis using Cons.IH [of tot fs at rs] Cons.prems rows by simp
  next
    case True
    note row = admit_scan_Insert_row [OF Cons.prems(1) [unfolded rows(1)] True]
    have "at < SENDER_SCAN_BYTE_BUDGET" using Cons.prems(3) by simp
    then show ?thesis
      using Cons.IH [OF conjunct2 [OF row] rows(3)] Cons.prems(3) rows True
      by (auto split: if_splits)
  qed
qed

section \<open>The queue invariant\<close>

text \<open>Per recipient: at most 1024 rows, and no dispatch id twice.\<close>

definition queue_inv :: "keyspace \<Rightarrow> bool" where
  "queue_inv ks \<longleftrightarrow> ks_wf ks \<and>
     (\<forall>r. length r = 32 \<longrightarrow>
        length (queue_rows ks r) \<le> MAX_QUEUED_PER_RECIPIENT \<and> distinct (map row_id (queue_rows ks r)))"

datatype queue_op =
    QEnqueue bytes dispatch u64
  | QBatch bytes nat u64
  | QDelete bytes "bytes list"
  | QMigrated message_key

fun queue_step :: "fjall_io \<Rightarrow> serde \<Rightarrow> queue_op \<Rightarrow> keyspace \<Rightarrow> keyspace" where
  "queue_step fj sd (QEnqueue user d now) ks = fst (enqueue_for_home fj sd user d now ks)"
| "queue_step fj sd (QBatch user mx now) ks = fst (queue_batch_for_user fj sd user mx now ks)"
| "queue_step fj sd (QDelete user ids) ks = fst (delete_queue_entries fj user ids ks)"
| "queue_step fj sd (QMigrated key) ks = fst (delete_migrated_entry fj key ks)"

fun queue_guard :: "fjall_io \<Rightarrow> queue_op \<Rightarrow> keyspace \<Rightarrow> bool" where
  "queue_guard fj (QEnqueue user d now) ks \<longleftrightarrow> scan_sound fj \<and> length user = 32 \<and> length (d_id d) = 16"
| "queue_guard fj _ ks \<longleftrightarrow> True"

lemma io_remove_filter: "\<exists>P. fst (io_remove fj k ks) = filter P ks"
  by (auto simp: io_remove_def ks_remove_def intro: exI [of _ "\<lambda>_. True"])

lemma io_removes_filter: "\<exists>P. fst (io_removes fj dead ks) = filter P ks"
proof (induction dead arbitrary: ks)
  case Nil
  then show ?case by (auto intro: exI [of _ "\<lambda>_. True"])
next
  case (Cons k dead)
  obtain P where P: "fst (io_remove fj k ks) = filter P ks" using io_remove_filter by blast
  obtain Q where "fst (io_removes fj dead (filter P ks)) = filter Q (filter P ks)" using Cons by blast
  then show ?case using P by (auto simp: split_def)
qed

lemma queue_inv_filter: "queue_inv ks \<Longrightarrow> queue_inv (filter P ks)"
proof -
  assume inv: "queue_inv ks"
  have "queue_rows (filter P ks) r = filter P (queue_rows ks r)" for r
    by (auto simp: queue_rows_def intro: filter_cong)
  then show ?thesis
    using inv by (auto simp: queue_inv_def ks_wf_filter distinct_map_filter
        intro: order_trans [OF length_filter_le])
qed

lemma queue_inv_removes [inv_intros]: "queue_inv ks \<Longrightarrow> queue_inv (fst (io_removes fj dead ks))"
  using io_removes_filter [of fj dead ks] queue_inv_filter by fastforce

lemma queue_inv_remove [inv_intros]: "queue_inv ks \<Longrightarrow> queue_inv (fst (io_remove fj k ks))"
  using io_remove_filter [of fj k ks] queue_inv_filter by fastforce

lemma distinct_map_ks_insert:
  assumes "ks_wf ks" "distinct (map f (filter Q ks))"
    and new: "\<And>x. x \<in> set ks \<Longrightarrow> Q x \<Longrightarrow> f x \<noteq> f (k, v)"
  shows "distinct (map f (filter Q (ks_insert k v ks)))"
proof -
  have "distinct (ks_insert k v ks)"
    using ks_wf_distinct [OF ks_wf_insert [OF assms(1)], of k v] by (simp add: distinct_map)
  moreover have "inj_on f (set (filter Q (ks_insert k v ks)))"
    using assms(2) new by (auto simp: distinct_map inj_on_def set_ks_insert [OF assms(1)]) metis+
  ultimately show ?thesis by (simp add: distinct_map)
qed

lemma queue_inv_insert:
  assumes inv: "queue_inv ks" and len: "length user = 32" "length i = 16"
    and fresh: "\<forall>row \<in> set (queue_rows ks user). row_id row \<noteq> i"
    and room: "length (queue_rows ks user) < MAX_QUEUED_PER_RECIPIENT"
  shows "queue_inv (ks_insert (mk_as_bytes (mk_new user now i)) val ks)"
proof -
  let ?k = "mk_as_bytes (mk_new user now i)"
  have wf: "ks_wf ks" using inv by (simp add: queue_inv_def)
  have klen: "length ?k = mk_SIZE" using len by (simp add: mk_new_bytes mk_SIZE_def)
  have own: "starts_with r ?k \<longleftrightarrow> r = user" if "length r = 32" for r
    using that len by (auto simp: starts_with_def mk_new_bytes)
  have new: "?k \<notin> fst ` set ks"
  proof
    assume "?k \<in> fst ` set ks"
    then obtain v where "(?k, v) \<in> set (queue_rows ks user)"
      using klen own [OF len(1)] by (auto simp: queue_rows_def)
    then show False using fresh row_id_new [OF len] by blast
  qed
  have "length (queue_rows (ks_insert ?k val ks) r) \<le> MAX_QUEUED_PER_RECIPIENT
      \<and> distinct (map row_id (queue_rows (ks_insert ?k val ks) r))" if r: "length r = 32" for r
  proof (cases "r = user")
    case True
    have "length (queue_rows (ks_insert ?k val ks) user) \<le> length (queue_rows ks user) + 1"
      unfolding queue_rows_def by (subst length_filter_ks_insert [OF new]) simp
    moreover have "distinct (map row_id (queue_rows (ks_insert ?k val ks) user))"
      unfolding queue_rows_def
    proof (rule distinct_map_ks_insert [OF wf])
      show "distinct (map row_id (filter (\<lambda>(k, v). length k = mk_SIZE \<and> starts_with user k) ks))"
        using inv len(1) by (simp add: queue_inv_def flip: queue_rows_def)
      show "row_id x \<noteq> row_id (?k, val)"
        if "x \<in> set ks" "case x of (k, v) \<Rightarrow> length k = mk_SIZE \<and> starts_with user k" for x
        using that fresh row_id_new [OF len] by (auto simp: queue_rows_def)
    qed
    ultimately show ?thesis using True room by simp
  next
    case False
    then have "queue_rows (ks_insert ?k val ks) r = queue_rows ks r"
      unfolding queue_rows_def by (intro filter_ks_insert_other) (simp add: own r)
    then show ?thesis using inv r by (simp add: queue_inv_def)
  qed
  then show ?thesis using wf by (simp add: queue_inv_def ks_wf_insert)
qed

lemma admit_to_queue_Insert:
  assumes "admit_to_queue fj sd ks r did sender = Insert" "scan_sound fj" "ks_wf ks"
  shows "\<forall>row \<in> set (queue_rows ks r). row_id row \<noteq> did"
    and "length (queue_rows ks r) < MAX_QUEUED_PER_RECIPIENT"
  using admit_scan_Insert [OF assms(1) [unfolded admit_to_queue_def] scan_sound_prefix [OF assms(2,3)]]
  by (auto simp: queue_rows_prefix)

lemma queue_inv_enqueue [inv_intros]:
  assumes "queue_inv ks" "scan_sound fj" "length user = 32" "length (d_id d) = 16"
  shows "queue_inv (fst (enqueue_for_home fj sd user d now ks))"
proof -
  have "ks_wf ks" using assms(1) by (simp add: queue_inv_def)
  note ins = admit_to_queue_Insert [OF _ assms(2) this]
  show ?thesis
    using assms queue_inv_insert [OF assms(1,3,4) ins]
    by (auto simp: enqueue_for_home_def io_insert_def split: queue_admission.splits option.splits)
qed

lemma queue_inv_step:
  "queue_inv ks \<Longrightarrow> queue_guard fj x ks \<Longrightarrow> queue_inv (queue_step fj sd x ks)"
  by (cases x)
    (auto simp: queue_batch_for_user_def delete_queue_entries_def delete_migrated_entry_def split_def
      intro: inv_intros)

lemma queue_inv_Nil: "queue_inv []"
  by (simp add: queue_inv_def queue_rows_def)

interpretation hq: step_system "[]" "queue_step fj sd" "queue_guard fj" queue_inv for fj sd
  by unfold_locales (auto intro: queue_inv_Nil queue_inv_step)

section \<open>Outcomes of an admission\<close>

lemma admit_scan_AlreadyQueued:
  assumes "admit_scan sd r did sender gs tot fs at = AlreadyQueued" "reads_rows rows gs"
  shows "\<exists>row \<in> set (sized_rows rows). row_id row = did \<and> queued_from sd r sender (snd row)"
  using assms
proof (induction gs arbitrary: tot fs at rows)
  case Nil
  then show ?case by (auto simp: admit_verdict_def split: if_splits)
next
  case (Cons g gs)
  from Cons.prems obtain key val rs where
    rows: "g = Some (key, val)" "rows = (key, val) # rs" "reads_rows rs gs"
    by (cases g) auto
  show ?case
  proof (cases "length key = mk_SIZE \<and> row_id (key, val) = did")
    case True
    then show ?thesis
      using Cons.prems(1) rows by (auto simp: Let_def row_id_def split: if_splits)
  next
    case False
    then obtain tot' fs' at' where "admit_scan sd r did sender gs tot' fs' at' = AlreadyQueued"
      using Cons.prems(1) rows(1)
      by (auto simp: Let_def row_id_def admit_verdict_def split: if_splits)
    from Cons.IH [OF this rows(3)] show ?thesis using rows(2) by auto
  qed
qed

text \<open>The scan meets the row with the id while it still attributes rows to senders.\<close>

lemma admit_scan_retry:
  assumes "\<forall>row \<in> set (sized_rows pre). row_id row \<noteq> did"
    and "length (sized_rows pre) + tot < MAX_QUEUED_PER_RECIPIENT"
    and "fs + length (filter (\<lambda>(k, v). queued_from sd r sender v) (sized_rows pre)) < MAX_QUEUED_PER_SENDER"
    and "at + sum_list (map (length \<circ> snd) (sized_rows pre)) < SENDER_SCAN_BYTE_BUDGET"
    and "length key = mk_SIZE" "row_id (key, val) = did" "queued_from sd r sender val"
  shows "admit_scan sd r did sender (map Some (pre @ (key, val) # post)) tot fs at = AlreadyQueued"
  using assms(1-4)
proof (induction pre arbitrary: tot fs at)
  case Nil
  then show ?case using assms(5-7) by (simp add: row_id_def Let_def)
next
  case (Cons row pre)
  obtain k v where row: "row = (k, v)" by (cases row)
  show ?case
  proof (cases "length k = mk_SIZE")
    case False
    then show ?thesis using Cons row by simp
  next
    case True
    have "at < SENDER_SCAN_BYTE_BUDGET" using Cons.prems(4) by simp
    moreover have "take 16 (drop 40 k) \<noteq> did" using Cons.prems(1) row True by (auto simp: row_id_def)
    moreover have "tot + 1 < MAX_QUEUED_PER_RECIPIENT + 1" using Cons.prems(2) row True by simp
    ultimately show ?thesis
      using Cons.IH [of "tot + 1" "if queued_from sd r sender v then fs + 1 else fs" "at + length v"]
        Cons.prems row True
      by (auto simp: Let_def split: if_splits)
  qed
qed

text \<open>Past the byte budget the scan no longer attributes: the row with the id reads as another's.\<close>

lemma admit_scan_past_budget:
  assumes "\<forall>row \<in> set (sized_rows pre). row_id row \<noteq> did"
    and "length (sized_rows pre) + tot < MAX_QUEUED_PER_RECIPIENT"
    and "fs + length (filter (\<lambda>(k, v). queued_from sd r sender v) (sized_rows pre)) < MAX_QUEUED_PER_SENDER"
    and "at + sum_list (map (length \<circ> snd) (sized_rows pre)) \<ge> SENDER_SCAN_BYTE_BUDGET"
    and "length key = mk_SIZE" "row_id (key, val) = did"
  shows "admit_scan sd r did sender (map Some (pre @ (key, val) # post)) tot fs at = IdTakenByOther"
  using assms(1-4)
proof (induction pre arbitrary: tot fs at)
  case Nil
  then show ?case using assms(5,6) by (simp add: row_id_def Let_def)
next
  case (Cons row pre)
  obtain k v where row: "row = (k, v)" by (cases row)
  show ?case
  proof (cases "length k = mk_SIZE")
    case False
    then show ?thesis using Cons row by simp
  next
    case True
    define fs' where "fs' = (if at < SENDER_SCAN_BYTE_BUDGET \<and> queued_from sd r sender v then fs + 1 else fs)"
    define at' where "at' = (if at < SENDER_SCAN_BYTE_BUDGET then at + length v else at)"
    have "take 16 (drop 40 k) \<noteq> did" using Cons.prems(1) row True by (auto simp: row_id_def)
    moreover have "tot + 1 < MAX_QUEUED_PER_RECIPIENT + 1" using Cons.prems(2) row True by simp
    moreover have "fs' + length (filter (\<lambda>(k, v). queued_from sd r sender v) (sized_rows pre))
        < MAX_QUEUED_PER_SENDER"
      using Cons.prems(3) row True by (auto simp: fs'_def split: if_splits)
    moreover have "at' + sum_list (map (length \<circ> snd) (sized_rows pre)) \<ge> SENDER_SCAN_BYTE_BUDGET"
      using Cons.prems(4) row True by (auto simp: at'_def comp_def)
    ultimately show ?thesis
      using Cons.IH [of "tot + 1" fs' at'] Cons.prems row True
      by (auto simp: Let_def fs'_def at'_def)
  qed
qed

section \<open>Batches: lemmas\<close>

text \<open>
  A row the drain may deliver, a row it discards, and the rows a scan reads before its first error.
\<close>

definition drainable :: "serde \<Rightarrow> bytes \<Rightarrow> u64 \<Rightarrow> bytes \<times> bytes \<Rightarrow> bool" where
  "drainable sd user now row \<longleftrightarrow>
     mk_parse (fst row) \<noteq> None \<and> length (snd row) \<le> QUEUE_BATCH_MAX_BYTES
     \<and> (case queued_dispatch sd user (snd row) of Some d \<Rightarrow> \<not> is_expired d now | None \<Rightarrow> False)"

definition doomed :: "serde \<Rightarrow> bytes \<Rightarrow> u64 \<Rightarrow> bytes \<times> bytes \<Rightarrow> bool" where
  "doomed sd user now row \<longleftrightarrow>
     mk_parse (fst row) \<noteq> None
     \<and> (length (snd row) > QUEUE_BATCH_MAX_BYTES
        \<or> (case queued_dispatch sd user (snd row) of Some d \<Rightarrow> is_expired d now | None \<Rightarrow> False))"

definition decoded :: "serde \<Rightarrow> bytes \<Rightarrow> bytes \<times> bytes \<Rightarrow> message_key \<times> dispatch" where
  "decoded sd user row = (the (mk_parse (fst row)), the (queued_dispatch sd user (snd row)))"

definition readable :: "(bytes \<times> bytes) option list \<Rightarrow> (bytes \<times> bytes) list" where
  "readable gs = map the (takeWhile (\<lambda>g. g \<noteq> None) gs)"

lemma readable_simps [simp]:
  "readable [] = []" "readable (None # gs) = []" "readable (Some r # gs) = r # readable gs"
  by (simp_all add: readable_def)

lemma readable_map_Some [simp]: "readable (map Some rows) = rows"
  by (induction rows) auto

lemma batch_scan_skip:
  "\<not> drainable sd user now (k, v) \<Longrightarrow> \<not> doomed sd user now (k, v)
   \<Longrightarrow> batch_scan sd user mx now (Some (k, v) # gs) n used = batch_scan sd user mx now gs n used"
  by (auto simp: drainable_def doomed_def split: option.splits)

lemma batch_scan_dead:
  "doomed sd user now (k, v)
   \<Longrightarrow> batch_scan sd user mx now (Some (k, v) # gs) n used
      = (case batch_scan sd user mx now gs n used of (out, dead, ex) \<Rightarrow> (out, k # dead, ex))"
  by (auto simp: doomed_def split: option.splits)

lemma batch_scan_row:
  "drainable sd user now (k, v)
   \<Longrightarrow> batch_scan sd user mx now (Some (k, v) # gs) n used
      = (if n \<ge> mx \<or> used + length v > QUEUE_BATCH_MAX_BYTES then ([], [], False)
         else case batch_scan sd user mx now gs (n + 1) (used + length v) of
                (out, dead, ex) \<Rightarrow> (decoded sd user (k, v) # out, dead, ex))"
  by (auto simp: drainable_def decoded_def split: option.splits)

declare batch_scan.simps(3) [simp del]

lemma drainable_not_doomed: "drainable sd user now row \<Longrightarrow> \<not> doomed sd user now row"
  by (auto simp: drainable_def doomed_def split: option.splits)

lemma drainable_length: "drainable sd user now row \<Longrightarrow> length (snd row) \<le> QUEUE_BATCH_MAX_BYTES"
  by (simp add: drainable_def)

text \<open>What one scan collects, with \<^verbatim>\<open>n\<close> rows and \<^verbatim>\<open>used\<close> bytes already taken.\<close>

definition batch_ok ::
  "serde \<Rightarrow> bytes \<Rightarrow> nat \<Rightarrow> u64 \<Rightarrow> (bytes \<times> bytes) option list \<Rightarrow> nat \<Rightarrow> nat
   \<Rightarrow> (message_key \<times> dispatch) list \<times> bytes list \<times> bool \<Rightarrow> bool" where
  "batch_ok sd user mx now gs n used = (\<lambda>(out, dead, ex).
     (let D = filter (drainable sd user now) (readable gs) in
      out = map (decoded sd user) (take (length out) D)
      \<and> (ex \<longleftrightarrow> None \<notin> set gs \<and> length out = length D)
      \<and> (n \<le> mx \<longrightarrow> n + length out \<le> mx)
      \<and> (used \<le> QUEUE_BATCH_MAX_BYTES \<longrightarrow>
           used + sum_list (map (length \<circ> snd) (take (length out) D)) \<le> QUEUE_BATCH_MAX_BYTES)
      \<and> (n < mx \<and> used = 0 \<and> D \<noteq> [] \<longrightarrow> out \<noteq> [])
      \<and> set dead \<subseteq> fst ` {row \<in> set (readable gs). doomed sd user now row}))"

lemma batch_ok_take:
  assumes "drainable sd user now (k, v)" "n < mx" "used + length v \<le> QUEUE_BATCH_MAX_BYTES"
    and "batch_ok sd user mx now gs (n + 1) (used + length v) (out, dead, ex)"
  shows "batch_ok sd user mx now (Some (k, v) # gs) n used (decoded sd user (k, v) # out, dead, ex)"
proof -
  have "set dead \<subseteq> fst ` {row \<in> set ((k, v) # readable gs). doomed sd user now row}"
    using assms(4) by (auto simp: batch_ok_def Let_def)
  then show ?thesis using assms by (simp add: batch_ok_def Let_def add.assoc)
qed

lemma batch_scan_spec: "batch_ok sd user mx now gs n used (batch_scan sd user mx now gs n used)"
proof (induction gs arbitrary: n used)
  case Nil
  then show ?case by (simp add: batch_ok_def)
next
  case (Cons g gs)
  show ?case
  proof (cases g)
    case None
    then show ?thesis by (simp add: batch_ok_def)
  next
    case (Some row)
    obtain k v where row: "g = Some (k, v)" using Some by (cases row) auto
    obtain out dead ex where rec: "batch_scan sd user mx now gs n used = (out, dead, ex)"
      by (metis prod_cases3)
    note ih = Cons.IH [of n used, unfolded rec]
    show ?thesis
    proof (cases "drainable sd user now (k, v)")
      case True
      obtain out1 dead1 ex1 where rec1: "batch_scan sd user mx now gs (n + 1) (used + length v) = (out1, dead1, ex1)"
        by (metis prod_cases3)
      note take = batch_ok_take [OF True _ _ Cons.IH [of "n + 1" "used + length v", unfolded rec1]]
      show ?thesis
      proof (cases "n \<ge> mx \<or> used + length v > QUEUE_BATCH_MAX_BYTES")
        case cut: True
        then show ?thesis
          using drainable_length [OF True] by (auto simp: row batch_scan_row [OF True] batch_ok_def Let_def True)
      next
        case False
        then show ?thesis using take by (simp add: row batch_scan_row [OF True] rec1 [simplified] not_le)
      qed
    next
      case False
      have sub: "set dead \<subseteq> fst ` {row \<in> set ((k, v) # readable gs). doomed sd user now row}"
        using ih by (auto simp: batch_ok_def Let_def)
      show ?thesis
      proof (cases "doomed sd user now (k, v)")
        case True
        then have "k \<in> fst ` {row \<in> set ((k, v) # readable gs). doomed sd user now row}" by force
        then show ?thesis
          using ih sub False by (simp add: row batch_scan_dead [OF True] rec batch_ok_def Let_def)
      next
        case nd: False
        then show ?thesis
          using ih sub False by (simp add: row batch_scan_skip [OF False nd] rec batch_ok_def Let_def)
      qed
    qed
  qed
qed

section \<open>A concrete row format\<close>

text \<open>Fixed-width fields followed by the payload; it instantiates the postcard parameter.\<close>

fun wake_byte :: "wake \<Rightarrow> u8" where
  "wake_byte WakeNo = 0"
| "wake_byte WakeMessage = 1"
| "wake_byte WakeCall = 2"

definition byte_wake :: "u8 \<Rightarrow> wake" where
  "byte_wake b = (if b = 0 then WakeNo else if b = 1 then WakeMessage else WakeCall)"

definition flat_ser :: "dispatch \<Rightarrow> bytes option" where
  "flat_ser d =
     (if length (d_to d) = 32 \<and> length (d_from d) = 32 \<and> length (d_id d) = 16 \<and> length (d_sig d) = 64
      then Some (d_to d @ d_from d @ d_id d @ d_sig d @ u64_be (d_accepted_at_ms d)
                 @ u64_be (d_ttl_ms d) @ [wake_byte (d_wake d)] @ d_payload d)
      else None)"

definition flat_de :: "bytes \<Rightarrow> dispatch option" where
  "flat_de b =
     (if length b < 161 then None
      else Some \<lparr> d_to = take 32 b, d_from = take 32 (drop 32 b), d_id = take 16 (drop 64 b),
                  d_payload = drop 161 b, d_sig = take 64 (drop 80 b),
                  d_accepted_at_ms = u64_of_be (take 8 (drop 144 b)),
                  d_wake = byte_wake (b ! 160), d_ttl_ms = u64_of_be (take 8 (drop 152 b)) \<rparr>)"

definition flat_serde :: serde where
  "flat_serde = \<lparr> ser_dispatch = flat_ser, de_dispatch = flat_de, de_untimed = (\<lambda>_. None),
                  de_delivered_ttl = (\<lambda>_. None), de_delivered = (\<lambda>_. None) \<rparr>"

lemma byte_wake_byte [simp]: "byte_wake (wake_byte w) = w"
  by (cases w) (simp_all add: byte_wake_def)

lemma flat_de_ser: "flat_ser d = Some b \<Longrightarrow> flat_de b = Some d"
  by (auto simp: flat_ser_def flat_de_def nth_append split: if_splits)

lemma serde_ok_flat: "serde_ok flat_serde"
  by (simp add: serde_ok_def flat_serde_def flat_de_ser)

definition demo_dispatch :: "u8 \<Rightarrow> u8 \<Rightarrow> u8 \<Rightarrow> dispatch" where
  "demo_dispatch t f i = \<lparr> d_to = replicate 32 t, d_from = replicate 32 f, d_id = replicate 16 i,
     d_payload = [1, 2, 3], d_sig = replicate 64 0, d_accepted_at_ms = 1000, d_wake = WakeMessage,
     d_ttl_ms = 500 \<rparr>"

section \<open>Properties\<close>

text \<open>
  Property C35.  The row key is a faithful, order-preserving encoding: it decodes to itself, and the
  byte order of keys, hence the order of a scan, is recipient first, then time, then id.  One
  recipient's queue therefore reads oldest first.
\<close>

theorem message_key_roundtrip_and_order:
  assumes "length r1 = 32" "length r2 = 32" "length i1 = 16" "length i2 = 16"
  shows "mk_parse (mk_as_bytes (mk_new r1 t1 i1)) = Some (mk_new r1 t1 i1)
    \<and> (mk_as_bytes (mk_new r1 t1 i1) < mk_as_bytes (mk_new r2 t2 i2)
       \<longleftrightarrow> r1 < r2 \<or> r1 = r2 \<and> (t1 < t2 \<or> t1 = t2 \<and> i1 < i2))"
  using mk_wf_new [OF assms(1,3), of t1] mk_wf_new [OF assms(2,4), of t2]
  by (auto simp: mk_less_bytes less_message_key_def) (auto simp: mk_new_def)

theorem message_key_roundtrip_and_order_witness:
  "mk_parse (mk_as_bytes (mk_new (replicate 32 7) 255 (replicate 16 9)))
     = Some (mk_new (replicate 32 7) 255 (replicate 16 9))
   \<and> mk_as_bytes (mk_new (replicate 32 7) 255 (replicate 16 9))
     < mk_as_bytes (mk_new (replicate 32 7) 256 (replicate 16 0))"
  using message_key_roundtrip_and_order [of "replicate 32 7" "replicate 32 7" "replicate 16 9"
      "replicate 16 0" 255 256] by simp

text \<open>
  Property C1.  Under every sequence of admissions, drains, acknowledgements and migrations, with
  any pattern of store failures, no recipient ever has more than 1024 queued rows and no dispatch id
  is queued twice for one recipient.
\<close>

theorem queue_caps_hold:
  assumes "trace_ok (queue_step fj sd) (queue_guard fj) ops []" "length r = 32"
  shows "length (queue_rows (fold (queue_step fj sd) ops []) r) \<le> MAX_QUEUED_PER_RECIPIENT
    \<and> distinct (map row_id (queue_rows (fold (queue_step fj sd) ops []) r))"
  using hq.inv_run [OF assms(1)] assms(2) by (simp add: queue_inv_def)

theorem queue_caps_hold_witness:
  "length (queue_rows (fold (queue_step healthy_io flat_serde)
     [QEnqueue (replicate 32 1) (demo_dispatch 1 2 3) 5, QEnqueue (replicate 32 1) (demo_dispatch 1 2 3) 6,
      QEnqueue (replicate 32 1) (demo_dispatch 1 4 3) 7] []) (replicate 32 1)) \<le> MAX_QUEUED_PER_RECIPIENT"
proof -
  let ?ops = "[QEnqueue (replicate 32 1) (demo_dispatch 1 2 3) 5,
    QEnqueue (replicate 32 1) (demo_dispatch 1 2 3) 6, QEnqueue (replicate 32 1) (demo_dispatch 1 4 3) 7]"
  have "trace_ok (queue_step healthy_io flat_serde) (queue_guard healthy_io) ?ops []"
    by (simp add: scan_sound_healthy demo_dispatch_def)
  from queue_caps_hold [OF this, of "replicate 32 1"] show ?thesis by simp
qed

end
