(* ===== verification/Wire.thy ===== *)
theory Wire
  imports Queue
begin

text \<open>
  The signed messages of the relay network: \<^verbatim>\<open>common/src/proto/dht_p2p.rs\<close>, the client messages of
  \<^verbatim>\<open>client_rel.rs\<close> and the push registration of \<^verbatim>\<open>push.rs\<close>.  For every signed message: its fields, its
  signing input (a domain string, the protocol version and the fields), and the check a receiver
  runs.  The signing inputs are collected in one datatype of transcripts, on which the map to bytes
  is injective: no signature over one message is a signature over another.
\<close>

section \<open>Domains\<close>

definition DHT_HELLO_SIG_DOMAIN :: bytes where "DHT_HELLO_SIG_DOMAIN = ascii ''promtuz-dht-hello-v1''"
definition DHT_FORWARD_SIG_DOMAIN :: bytes where "DHT_FORWARD_SIG_DOMAIN = ascii ''promtuz-dht-forward-v1''"
definition DHT_PUSH_PSEUDONYM_SIG_DOMAIN :: bytes where
  "DHT_PUSH_PSEUDONYM_SIG_DOMAIN = ascii ''promtuz-dht-push-pseudonym-v1''"
definition DHT_LIVE_FORWARD_SIG_DOMAIN :: bytes where
  "DHT_LIVE_FORWARD_SIG_DOMAIN = ascii ''promtuz-dht-live-forward-v1''"
definition PRESENCE_CONSENT_SIG_DOMAIN :: bytes where
  "PRESENCE_CONSENT_SIG_DOMAIN = ascii ''promtuz-presence-consent-v1''"
definition PRESENCE_LEASE_SIG_DOMAIN :: bytes where
  "PRESENCE_LEASE_SIG_DOMAIN = ascii ''promtuz-presence-lease-v1''"
definition PRESENCE_STATE_SIG_DOMAIN :: bytes where
  "PRESENCE_STATE_SIG_DOMAIN = ascii ''promtuz-presence-state-v1''"
definition DHT_QUEUE_FETCH_SIG_DOMAIN :: bytes where
  "DHT_QUEUE_FETCH_SIG_DOMAIN = ascii ''promtuz-dht-queue-fetch-v1''"
definition DHT_QUEUE_FETCH_ACK_SIG_DOMAIN :: bytes where
  "DHT_QUEUE_FETCH_ACK_SIG_DOMAIN = ascii ''promtuz-dht-queue-fetch-ack-v1''"
definition DISPATCH_SIG_DOMAIN :: bytes where "DISPATCH_SIG_DOMAIN = ascii ''promtuz-dispatch-v1''"
definition ACTIVITY_SIG_DOMAIN :: bytes where "ACTIVITY_SIG_DOMAIN = ascii ''promtuz-activity-v1''"
definition REGISTER_DOMAIN :: bytes where "REGISTER_DOMAIN = ascii ''promtuz-push-register-v1''"

definition MAX_DHT_HELLO_SKEW_MS :: u64 where "MAX_DHT_HELLO_SKEW_MS = 60000"
definition PRESENCE_LEASE_MAX_MS :: u64 where "PRESENCE_LEASE_MAX_MS = 600000"
definition PRESENCE_STATE_MAX_SKEW_MS :: u64 where "PRESENCE_STATE_MAX_SKEW_MS = 60000"
definition MAX_FETCH_QUEUE_BATCH :: nat where "MAX_FETCH_QUEUE_BATCH = 64"
definition MAX_FETCH_QUEUE_ACK_IDS :: nat where "MAX_FETCH_QUEUE_ACK_IDS = MAX_FETCH_QUEUE_BATCH"
definition MAX_PUSH_TOKEN_BYTES :: nat where "MAX_PUSH_TOKEN_BYTES = 512"

section \<open>Messages and signing inputs\<close>

record dht_hello =
  dh_node_id :: bytes
  dh_pubkey :: bytes
  dh_timestamp :: u64
  dh_sig :: bytes

definition dht_hello_signing_input :: "bytes \<Rightarrow> bytes \<Rightarrow> u64 \<Rightarrow> bytes \<Rightarrow> bytes" where
  "dht_hello_signing_input node_id pubkey timestamp binding =
     DHT_HELLO_SIG_DOMAIN @ u16_be PROTOCOL_VERSION @ node_id @ pubkey @ u64_be timestamp @ binding"

definition push_pseudonym_signing_input :: "bytes \<Rightarrow> bytes \<Rightarrow> u64 \<Rightarrow> bytes" where
  "push_pseudonym_signing_input user_ipk pseudonym timestamp =
     DHT_PUSH_PSEUDONYM_SIG_DOMAIN @ u16_be PROTOCOL_VERSION @ user_ipk @ pseudonym @ u64_be timestamp"

record push_publish =
  pp_user_ipk :: bytes
  pp_pseudonym :: bytes
  pp_timestamp :: u64
  pp_user_sig :: bytes

record forward =
  f_dispatch :: dispatch
  f_sender_relay_id :: bytes
  f_timestamp :: u64
  f_sig :: bytes

definition forward_signing_input :: "bytes \<Rightarrow> bytes \<Rightarrow> u64 \<Rightarrow> bytes" where
  "forward_signing_input dispatch_id sender_relay_id timestamp =
     DHT_FORWARD_SIG_DOMAIN @ u16_be PROTOCOL_VERSION @ dispatch_id @ sender_relay_id @ u64_be timestamp"

record presence_consent =
  pc_owner :: bytes
  pc_recipient :: bytes
  pc_version :: u64
  pc_issued_at_ms :: u64
  pc_granted :: bool
  pc_user_sig :: bytes

record presence_lease =
  pl_user :: bytes
  pl_relay_id :: bytes
  pl_version :: u64
  pl_issued_at_ms :: u64
  pl_expires_at_ms :: u64
  pl_user_sig :: bytes

datatype presence_state = Online | Idle u64 | Offline u64

record relay_presence_state =
  rp_recipient :: bytes
  rp_who :: bytes
  rp_lease :: presence_lease
  rp_state :: presence_state
  rp_version :: u64
  rp_observed_at_ms :: u64
  rp_relay_pubkey :: bytes
  rp_relay_sig :: bytes

text \<open>A \<^verbatim>\<open>bool\<close> cast to \<^verbatim>\<open>u8\<close>.\<close>

definition bool_byte :: "bool \<Rightarrow> u8" where
  "bool_byte b = (if b then 1 else 0)"

definition presence_consent_signing_input :: "bytes \<Rightarrow> bytes \<Rightarrow> u64 \<Rightarrow> u64 \<Rightarrow> bool \<Rightarrow> bytes" where
  "presence_consent_signing_input owner recipient version issued_at_ms granted =
     PRESENCE_CONSENT_SIG_DOMAIN @ u16_be PROTOCOL_VERSION @ owner @ recipient @ u64_be version
     @ u64_be issued_at_ms @ [bool_byte granted]"

definition presence_lease_signing_input :: "bytes \<Rightarrow> bytes \<Rightarrow> u64 \<Rightarrow> u64 \<Rightarrow> u64 \<Rightarrow> bytes" where
  "presence_lease_signing_input user relay_id version issued_at_ms expires_at_ms =
     PRESENCE_LEASE_SIG_DOMAIN @ u16_be PROTOCOL_VERSION @ user @ relay_id @ u64_be version
     @ u64_be issued_at_ms @ u64_be expires_at_ms"

fun state_tag :: "presence_state \<Rightarrow> u8 \<times> u64" where
  "state_tag Online = (0, 0)"
| "state_tag (Idle since) = (1, since)"
| "state_tag (Offline last_seen) = (2, last_seen)"

definition presence_state_signing_input :: "relay_presence_state \<Rightarrow> bytes" where
  "presence_state_signing_input r =
     PRESENCE_STATE_SIG_DOMAIN @ u16_be PROTOCOL_VERSION @ rp_recipient r @ rp_who r
     @ pl_user (rp_lease r) @ pl_relay_id (rp_lease r) @ u64_be (pl_version (rp_lease r))
     @ u64_be (pl_issued_at_ms (rp_lease r)) @ u64_be (pl_expires_at_ms (rp_lease r))
     @ pl_user_sig (rp_lease r) @ [fst (state_tag (rp_state r))] @ u64_be (snd (state_tag (rp_state r)))
     @ u64_be (rp_version r) @ u64_be (rp_observed_at_ms r) @ rp_relay_pubkey r"

record live_forward =
  lf_dispatch :: dispatch
  lf_lease :: presence_lease
  lf_sender_relay_id :: bytes
  lf_timestamp :: u64
  lf_sig :: bytes

definition live_forward_signing_input :: "bytes \<Rightarrow> presence_lease \<Rightarrow> bytes \<Rightarrow> u64 \<Rightarrow> bytes" where
  "live_forward_signing_input dispatch_id lease sender_relay_id timestamp =
     DHT_LIVE_FORWARD_SIG_DOMAIN @ u16_be PROTOCOL_VERSION @ dispatch_id @ pl_user lease
     @ u64_be (pl_version lease) @ pl_relay_id lease @ sender_relay_id @ u64_be timestamp"

record queue_fetch =
  qf_user_ipk :: bytes
  qf_requester_relay_id :: bytes
  qf_timestamp :: u64
  qf_user_sig :: bytes

definition queue_fetch_signing_input :: "bytes \<Rightarrow> bytes \<Rightarrow> u64 \<Rightarrow> bytes" where
  "queue_fetch_signing_input user_ipk requester_relay_id timestamp =
     DHT_QUEUE_FETCH_SIG_DOMAIN @ u16_be PROTOCOL_VERSION @ user_ipk @ requester_relay_id @ u64_be timestamp"

record queue_fetch_ack =
  qa_user_ipk :: bytes
  qa_requester_relay_id :: bytes
  qa_delivered_ids :: "bytes list"
  qa_timestamp :: u64
  qa_user_sig :: bytes

definition queue_fetch_ack_signing_input :: "bytes \<Rightarrow> bytes \<Rightarrow> bytes list \<Rightarrow> u64 \<Rightarrow> bytes" where
  "queue_fetch_ack_signing_input user_ipk requester_relay_id delivered_ids timestamp =
     DHT_QUEUE_FETCH_ACK_SIG_DOMAIN @ u16_be PROTOCOL_VERSION @ user_ipk @ requester_relay_id
     @ u32_be (word_of_nat (length delivered_ids)) @ concat delivered_ids @ u64_be timestamp"

definition client_auth_message :: "bytes \<Rightarrow> bytes \<Rightarrow> bytes" where
  "client_auth_message nonce binding = ascii ''relay-auth-v'' @ u16_be PROTOCOL_VERSION @ nonce @ binding"

definition dispatch_sig_message :: "u16 \<Rightarrow> bytes \<Rightarrow> bytes \<Rightarrow> bytes \<Rightarrow> bytes \<Rightarrow> bytes" where
  "dispatch_sig_message version to frm i payload =
     DISPATCH_SIG_DOMAIN @ u16_be version @ to @ frm @ i @ payload"

record activity =
  ac_to :: bytes
  ac_from :: bytes
  ac_group_id :: bytes
  ac_activity :: u16
  ac_timestamp :: u64
  ac_sig :: bytes

definition activity_sig_message :: "bytes \<Rightarrow> bytes \<Rightarrow> bytes \<Rightarrow> u16 \<Rightarrow> u64 \<Rightarrow> bytes" where
  "activity_sig_message to frm group_id act timestamp =
     ACTIVITY_SIG_DOMAIN @ u16_be PROTOCOL_VERSION @ to @ frm @ group_id @ u16_be act @ u64_be timestamp"

datatype push_provider = Fcm | Apns | UnifiedPush

fun push_tag :: "push_provider \<Rightarrow> u8" where
  "push_tag Fcm = 0"
| "push_tag Apns = 1"
| "push_tag UnifiedPush = 2"

definition register_signing_input :: "push_provider \<Rightarrow> bytes \<Rightarrow> bytes" where
  "register_signing_input provider token = REGISTER_DOMAIN @ [push_tag provider] @ token"

record register_token =
  rg_pseudonym :: bytes
  rg_provider :: push_provider
  rg_token :: bytes
  rg_sig :: bytes

section \<open>Verification\<close>

datatype hello_error = IdMismatch | MalformedPubkey | BadSignature | ClockSkew

datatype verify_error = BadForwardSig | BadUserSig | StaleTimestamp | FutureTimestamp | MalformedField | TooManyIds

definition verify_hello :: "crypto \<Rightarrow> dht_hello \<Rightarrow> u64 \<Rightarrow> bytes \<Rightarrow> hello_error + unit" where
  "verify_hello cr h now_ms binding =
     (if node_id_new cr (dh_pubkey h) \<noteq> dh_node_id h then Inl IdMismatch
      else if \<not> key_ok cr (dh_pubkey h) then Inl MalformedPubkey
      else if \<not> verify_strict cr (dh_pubkey h)
                (dht_hello_signing_input (dh_node_id h) (dh_pubkey h) (dh_timestamp h) binding) (dh_sig h)
      then Inl BadSignature
      else if abs_diff now_ms (dh_timestamp h) > MAX_DHT_HELLO_SKEW_MS then Inl ClockSkew
      else Inr ())"

definition verify_consent :: "crypto \<Rightarrow> presence_consent \<Rightarrow> u64 \<Rightarrow> bool" where
  "verify_consent cr c now_ms =
     (if abs_diff now_ms (pc_issued_at_ms c) > PRESENCE_STATE_MAX_SKEW_MS then False
      else verify_ed25519 cr (pc_owner c)
             (presence_consent_signing_input (pc_owner c) (pc_recipient c) (pc_version c)
                (pc_issued_at_ms c) (pc_granted c)) (pc_user_sig c))"

definition verify_lease :: "crypto \<Rightarrow> presence_lease \<Rightarrow> u64 \<Rightarrow> bool" where
  "verify_lease cr l now_ms =
     (if pl_expires_at_ms l \<le> pl_issued_at_ms l
         \<or> pl_expires_at_ms l - pl_issued_at_ms l > PRESENCE_LEASE_MAX_MS
         \<or> now_ms > pl_expires_at_ms l
         \<or> pl_issued_at_ms l > now_ms + PRESENCE_STATE_MAX_SKEW_MS
      then False
      else verify_ed25519 cr (pl_user l)
             (presence_lease_signing_input (pl_user l) (pl_relay_id l) (pl_version l)
                (pl_issued_at_ms l) (pl_expires_at_ms l)) (pl_user_sig l))"

definition verify_presence_state :: "crypto \<Rightarrow> relay_presence_state \<Rightarrow> bytes \<Rightarrow> u64 \<Rightarrow> bool" where
  "verify_presence_state cr r authenticated_relay now_ms \<longleftrightarrow>
     rp_who r = pl_user (rp_lease r)
     \<and> pl_relay_id (rp_lease r) = authenticated_relay
     \<and> node_id_new cr (rp_relay_pubkey r) = pl_relay_id (rp_lease r)
     \<and> verify_lease cr (rp_lease r) now_ms
     \<and> abs_diff now_ms (rp_observed_at_ms r) \<le> PRESENCE_STATE_MAX_SKEW_MS
     \<and> verify_ed25519 cr (rp_relay_pubkey r) (presence_state_signing_input r) (rp_relay_sig r)"

text \<open>The two-sided time check that \<^verbatim>\<open>Forward\<close>, \<^verbatim>\<open>QueueFetch\<close> and \<^verbatim>\<open>QueueFetchAck\<close> share.\<close>

definition check_timestamp :: "u64 \<Rightarrow> u64 \<Rightarrow> verify_error + unit" where
  "check_timestamp now_ms timestamp =
     (if now_ms > timestamp \<and> now_ms - timestamp > MAX_DHT_HELLO_SKEW_MS then Inl StaleTimestamp
      else if timestamp > now_ms \<and> timestamp - now_ms > MAX_DHT_HELLO_SKEW_MS then Inl FutureTimestamp
      else Inr ())"

definition verify_forward :: "crypto \<Rightarrow> forward \<Rightarrow> bytes \<Rightarrow> u64 \<Rightarrow> verify_error + unit" where
  "verify_forward cr f sender_relay_pubkey now_ms =
     (if \<not> key_ok cr sender_relay_pubkey then Inl MalformedField
      else if \<not> verify_strict cr sender_relay_pubkey
                (forward_signing_input (d_id (f_dispatch f)) (f_sender_relay_id f) (f_timestamp f)) (f_sig f)
      then Inl BadForwardSig
      else check_timestamp now_ms (f_timestamp f))"

definition verify_queue_fetch :: "crypto \<Rightarrow> queue_fetch \<Rightarrow> u64 \<Rightarrow> verify_error + unit" where
  "verify_queue_fetch cr q now_ms =
     (if \<not> key_ok cr (qf_user_ipk q) then Inl MalformedField
      else if \<not> verify_strict cr (qf_user_ipk q)
                (queue_fetch_signing_input (qf_user_ipk q) (qf_requester_relay_id q) (qf_timestamp q))
                (qf_user_sig q)
      then Inl BadUserSig
      else check_timestamp now_ms (qf_timestamp q))"

definition verify_queue_fetch_ack :: "crypto \<Rightarrow> queue_fetch_ack \<Rightarrow> u64 \<Rightarrow> verify_error + unit" where
  "verify_queue_fetch_ack cr q now_ms =
     (if length (qa_delivered_ids q) > MAX_FETCH_QUEUE_ACK_IDS then Inl TooManyIds
      else if \<not> key_ok cr (qa_user_ipk q) then Inl MalformedField
      else if \<not> verify_strict cr (qa_user_ipk q)
                (queue_fetch_ack_signing_input (qa_user_ipk q) (qa_requester_relay_id q)
                   (qa_delivered_ids q) (qa_timestamp q)) (qa_user_sig q)
      then Inl BadUserSig
      else check_timestamp now_ms (qa_timestamp q))"

definition verify_register :: "crypto \<Rightarrow> register_token \<Rightarrow> bool" where
  "verify_register cr r \<longleftrightarrow>
     length (rg_token r) \<le> MAX_PUSH_TOKEN_BYTES
     \<and> verify_ed25519 cr (rg_pseudonym r) (register_signing_input (rg_provider r) (rg_token r)) (rg_sig r)"

section \<open>Transcripts\<close>

datatype transcript =
    THello bytes bytes u64 bytes
  | TPushPseudonym bytes bytes u64
  | TForward bytes bytes u64
  | TConsent bytes bytes u64 u64 bool
  | TLease bytes bytes u64 u64 u64
  | TState bytes bytes bytes bytes u64 u64 u64 bytes presence_state u64 u64 bytes
  | TLiveForward bytes bytes u64 bytes bytes u64
  | TQueueFetch bytes bytes u64
  | TQueueFetchAck bytes bytes "bytes list" u64
  | TClientAuth bytes bytes
  | TDispatch u16 bytes bytes bytes bytes
  | TActivity bytes bytes bytes u16 u64
  | TRegister push_provider bytes

fun signing_input :: "transcript \<Rightarrow> bytes" where
  "signing_input (THello n p t b) = dht_hello_signing_input n p t b"
| "signing_input (TPushPseudonym u p t) = push_pseudonym_signing_input u p t"
| "signing_input (TForward d s t) = forward_signing_input d s t"
| "signing_input (TConsent ow r v i g) = presence_consent_signing_input ow r v i g"
| "signing_input (TLease u r v i e) = presence_lease_signing_input u r v i e"
| "signing_input (TState rc w lu lr lv li le ls st v ob pk) =
     presence_state_signing_input \<lparr> rp_recipient = rc, rp_who = w,
       rp_lease = \<lparr> pl_user = lu, pl_relay_id = lr, pl_version = lv, pl_issued_at_ms = li,
                    pl_expires_at_ms = le, pl_user_sig = ls \<rparr>,
       rp_state = st, rp_version = v, rp_observed_at_ms = ob, rp_relay_pubkey = pk, rp_relay_sig = [] \<rparr>"
| "signing_input (TLiveForward d u v r s t) =
     live_forward_signing_input d \<lparr> pl_user = u, pl_relay_id = r, pl_version = v, pl_issued_at_ms = 0,
                                    pl_expires_at_ms = 0, pl_user_sig = [] \<rparr> s t"
| "signing_input (TQueueFetch u r t) = queue_fetch_signing_input u r t"
| "signing_input (TQueueFetchAck u r ids t) = queue_fetch_ack_signing_input u r ids t"
| "signing_input (TClientAuth n b) = client_auth_message n b"
| "signing_input (TDispatch v t f i p) = dispatch_sig_message v t f i p"
| "signing_input (TActivity t f g a ts) = activity_sig_message t f g a ts"
| "signing_input (TRegister p t) = register_signing_input p t"

text \<open>The widths the Rust types give the fields; an \<^verbatim>\<open>Online\<close> state carries no time.\<close>

fun transcript_wf :: "transcript \<Rightarrow> bool" where
  "transcript_wf (THello n p t b) \<longleftrightarrow> length n = 32 \<and> length p = 32 \<and> length b = 32"
| "transcript_wf (TPushPseudonym u p t) \<longleftrightarrow> length u = 32 \<and> length p = 32"
| "transcript_wf (TForward d s t) \<longleftrightarrow> length d = 16 \<and> length s = 32"
| "transcript_wf (TConsent ow r v i g) \<longleftrightarrow> length ow = 32 \<and> length r = 32"
| "transcript_wf (TLease u r v i e) \<longleftrightarrow> length u = 32 \<and> length r = 32"
| "transcript_wf (TState rc w lu lr lv li le ls st v ob pk) \<longleftrightarrow>
     length rc = 32 \<and> length w = 32 \<and> length lu = 32 \<and> length lr = 32 \<and> length ls = 64 \<and> length pk = 32"
| "transcript_wf (TLiveForward d u v r s t) \<longleftrightarrow> length d = 16 \<and> length u = 32 \<and> length r = 32 \<and> length s = 32"
| "transcript_wf (TQueueFetch u r t) \<longleftrightarrow> length u = 32 \<and> length r = 32"
| "transcript_wf (TQueueFetchAck u r ids t) \<longleftrightarrow>
     length u = 32 \<and> length r = 32 \<and> (\<forall>i \<in> set ids. length i = 16) \<and> length ids < 2 ^ 32"
| "transcript_wf (TClientAuth n b) \<longleftrightarrow> length n = 32 \<and> length b = 32"
| "transcript_wf (TDispatch v t f i p) \<longleftrightarrow> length t = 32 \<and> length f = 32 \<and> length i = 16"
| "transcript_wf (TActivity t f g a ts) \<longleftrightarrow> length t = 32 \<and> length f = 32 \<and> length g = 32"
| "transcript_wf (TRegister p t) \<longleftrightarrow> True"

fun domain_of :: "transcript \<Rightarrow> bytes" where
  "domain_of (THello n p t b) = DHT_HELLO_SIG_DOMAIN"
| "domain_of (TPushPseudonym u p t) = DHT_PUSH_PSEUDONYM_SIG_DOMAIN"
| "domain_of (TForward d s t) = DHT_FORWARD_SIG_DOMAIN"
| "domain_of (TConsent ow r v i g) = PRESENCE_CONSENT_SIG_DOMAIN"
| "domain_of (TLease u r v i e) = PRESENCE_LEASE_SIG_DOMAIN"
| "domain_of (TState rc w lu lr lv li le ls st v ob pk) = PRESENCE_STATE_SIG_DOMAIN"
| "domain_of (TLiveForward d u v r s t) = DHT_LIVE_FORWARD_SIG_DOMAIN"
| "domain_of (TQueueFetch u r t) = DHT_QUEUE_FETCH_SIG_DOMAIN"
| "domain_of (TQueueFetchAck u r ids t) = DHT_QUEUE_FETCH_ACK_SIG_DOMAIN"
| "domain_of (TClientAuth n b) = ascii ''relay-auth-v''"
| "domain_of (TDispatch v t f i p) = DISPATCH_SIG_DOMAIN"
| "domain_of (TActivity t f g a ts) = ACTIVITY_SIG_DOMAIN"
| "domain_of (TRegister p t) = REGISTER_DOMAIN"

end
