(* ===== verification/Transcripts.thy ===== *)
theory Transcripts
  imports Wire
begin

text \<open>
  Domain separation and injectivity of the signing inputs, and what an accepted message implies
  about its signer: the key holder signed exactly this message, of this kind, with these fields.
\<close>

section \<open>Domains are prefix free\<close>

definition domain_names :: "string list" where
  "domain_names = [''promtuz-dht-hello-v1'', ''promtuz-dht-push-pseudonym-v1'', ''promtuz-dht-forward-v1'',
     ''promtuz-presence-consent-v1'', ''promtuz-presence-lease-v1'', ''promtuz-presence-state-v1'',
     ''promtuz-dht-live-forward-v1'', ''promtuz-dht-queue-fetch-v1'', ''promtuz-dht-queue-fetch-ack-v1'',
     ''relay-auth-v'', ''promtuz-dispatch-v1'', ''promtuz-activity-v1'', ''promtuz-push-register-v1'']"

lemmas domain_defs =
  DHT_HELLO_SIG_DOMAIN_def DHT_PUSH_PSEUDONYM_SIG_DOMAIN_def DHT_FORWARD_SIG_DOMAIN_def
  PRESENCE_CONSENT_SIG_DOMAIN_def PRESENCE_LEASE_SIG_DOMAIN_def PRESENCE_STATE_SIG_DOMAIN_def
  DHT_LIVE_FORWARD_SIG_DOMAIN_def DHT_QUEUE_FETCH_SIG_DOMAIN_def DHT_QUEUE_FETCH_ACK_SIG_DOMAIN_def
  DISPATCH_SIG_DOMAIN_def ACTIVITY_SIG_DOMAIN_def REGISTER_DOMAIN_def

lemma ascii_byte_inject: "(word_of_nat (of_char c) :: u8) = word_of_nat (of_char d) \<longleftrightarrow> c = d"
proof
  assume "(word_of_nat (of_char c) :: u8) = word_of_nat (of_char d)"
  then have "unat (word_of_nat (of_char c) :: u8) = unat (word_of_nat (of_char d) :: u8)" by simp
  then show "c = d" by (simp add: unat_of_nat)
qed simp

lemma inj_ascii_byte: "inj (\<lambda>c. word_of_nat (of_char c) :: u8)"
  by (rule injI) (simp add: ascii_byte_inject)

lemma starts_with_ascii: "starts_with (ascii s) (ascii t) \<longleftrightarrow> starts_with s t"
  by (simp add: starts_with_def ascii_def take_map inj_map_eq_map [OF inj_ascii_byte])

fun kind_of :: "transcript \<Rightarrow> nat" where
  "kind_of (THello n p t b) = 0"
| "kind_of (TPushPseudonym u p t) = 1"
| "kind_of (TForward d s t) = 2"
| "kind_of (TConsent ow r v i g) = 3"
| "kind_of (TLease u r v i e) = 4"
| "kind_of (TState rc w lu lr lv li le ls st v ob pk) = 5"
| "kind_of (TLiveForward d u v r s t) = 6"
| "kind_of (TQueueFetch u r t) = 7"
| "kind_of (TQueueFetchAck u r ids t) = 8"
| "kind_of (TClientAuth n b) = 9"
| "kind_of (TDispatch v t f i p) = 10"
| "kind_of (TActivity t f g a ts) = 11"
| "kind_of (TRegister p t) = 12"

lemma domain_of_kind: "domain_of t = ascii (domain_names ! kind_of t)"
  by (cases t; simp add: domain_names_def domain_defs)

lemma kind_of_less: "kind_of t < 13"
  by (cases t) simp_all

lemma domain_names_prefix_free:
  "list_all (\<lambda>i. list_all (\<lambda>j. i = j \<or> \<not> starts_with (domain_names ! i) (domain_names ! j)) [0..<13]) [0..<13]"
  by code_simp

lemma domain_names_free:
  "i < 13 \<Longrightarrow> j < 13 \<Longrightarrow> starts_with (domain_names ! i) (domain_names ! j) \<Longrightarrow> i = j"
  using domain_names_prefix_free by (simp add: list_all_iff) (meson atLeastLessThan_iff le0)

lemma append_eq_starts_with:
  assumes "a @ x = b @ y"
  shows "starts_with a b \<or> starts_with b a"
proof (cases "length a \<le> length b")
  case True
  have "take (length a) (a @ x) = take (length a) (b @ y)" using assms by simp
  with True show ?thesis by (simp add: starts_with_def)
next
  case False
  have "take (length b) (a @ x) = take (length b) (b @ y)" using assms by simp
  with False show ?thesis by (simp add: starts_with_def)
qed

lemma signing_input_domain: "\<exists>rest. signing_input t = domain_of t @ rest"
  by (cases t)
    (auto simp: dht_hello_signing_input_def push_pseudonym_signing_input_def forward_signing_input_def
      presence_consent_signing_input_def presence_lease_signing_input_def presence_state_signing_input_def
      live_forward_signing_input_def queue_fetch_signing_input_def queue_fetch_ack_signing_input_def
      client_auth_message_def dispatch_sig_message_def activity_sig_message_def register_signing_input_def)

lemma signing_input_kind:
  assumes "signing_input a = signing_input b"
  shows "kind_of a = kind_of b"
proof -
  obtain x y where "domain_of a @ x = domain_of b @ y"
    using assms signing_input_domain [of a] signing_input_domain [of b] by metis
  from append_eq_starts_with [OF this] show ?thesis
    unfolding domain_of_kind starts_with_ascii
    using domain_names_free [OF kind_of_less kind_of_less, of a b]
      domain_names_free [OF kind_of_less kind_of_less, of b a] by auto
qed

section \<open>Fields are recovered\<close>

lemma state_tag_inject [simp]:
  "fst (state_tag a) = fst (state_tag b) \<Longrightarrow> snd (state_tag a) = snd (state_tag b) \<longleftrightarrow> a = b"
  by (cases a; cases b) auto

lemma state_tag_eq: "fst (state_tag a) = fst (state_tag b) \<and> snd (state_tag a) = snd (state_tag b) \<longleftrightarrow> a = b"
  by (cases a; cases b) auto

lemma bool_byte_inject [simp]: "bool_byte a = bool_byte b \<longleftrightarrow> a = b"
  by (simp add: bool_byte_def)

lemma push_tag_inject [simp]: "push_tag a = push_tag b \<longleftrightarrow> a = b"
  by (cases a; cases b) auto

lemma concat_fixed_inject:
  assumes "\<forall>x \<in> set xs. length x = n" "\<forall>y \<in> set ys. length y = n" "0 < n" "concat xs = concat ys"
  shows "xs = ys"
  using assms
proof (induction xs arbitrary: ys)
  case Nil
  then show ?case by (cases ys) auto
next
  case (Cons x xs)
  have "concat ys \<noteq> []" using Cons.prems(1,3) Cons.prems(4) [symmetric] by auto
  then obtain y ys' where ys: "ys = y # ys'" by (cases ys) simp_all
  have "x @ concat xs = y @ concat ys'" "length x = length y" using Cons.prems ys by simp_all
  then have "x = y" "concat xs = concat ys'" by simp_all
  moreover from this have "xs = ys'" using Cons.prems ys by (intro Cons.IH) simp_all
  ultimately show ?case using ys by simp
qed

lemma length_concat_fixed: "\<forall>x \<in> set xs. length x = n \<Longrightarrow> length (concat xs) = n * length xs"
  by (induction xs) auto

lemma ack_input_inject:
  assumes "transcript_wf (TQueueFetchAck u r ids t)" "transcript_wf (TQueueFetchAck u' r' ids' t')"
    and "queue_fetch_ack_signing_input u r ids t = queue_fetch_ack_signing_input u' r' ids' t'"
  shows "u = u' \<and> r = r' \<and> ids = ids' \<and> t = t'"
proof -
  have eq: "u = u'" "r = r'" "concat ids @ u64_be t = concat ids' @ u64_be t'"
    using assms by (auto simp: queue_fetch_ack_signing_input_def)
  from eq(3) have "concat ids = concat ids'" "u64_be t = u64_be t'"
    by (auto simp: append_eq_append_conv)
  moreover from this have "ids = ids'"
    using assms(1,2) concat_fixed_inject [of ids 16 ids'] by simp
  ultimately show ?thesis using eq by simp
qed

text \<open>Equal inputs of one kind have equal fields, kind by kind.\<close>

lemma signing_input_inject_kind:
  assumes "transcript_wf a" "transcript_wf b" "signing_input a = signing_input b" "kind_of a = kind_of b"
  shows "a = b"
proof (cases a)
  case (THello n p t bd)
  then show ?thesis using assms by (cases b) (auto simp: dht_hello_signing_input_def)
next
  case (TPushPseudonym u p t)
  then show ?thesis using assms by (cases b) (auto simp: push_pseudonym_signing_input_def)
next
  case (TForward d s t)
  then show ?thesis using assms by (cases b) (auto simp: forward_signing_input_def)
next
  case (TConsent ow r v i g)
  then show ?thesis using assms by (cases b) (auto simp: presence_consent_signing_input_def)
next
  case (TLease u r v i e)
  then show ?thesis using assms by (cases b) (auto simp: presence_lease_signing_input_def)
next
  case (TState rc w lu lr lv li le ls st v ob pk)
  then show ?thesis using assms by (cases b) (auto simp: presence_state_signing_input_def)
next
  case (TLiveForward d u v r s t)
  then show ?thesis using assms by (cases b) (auto simp: live_forward_signing_input_def)
next
  case (TQueueFetch u r t)
  then show ?thesis using assms by (cases b) (auto simp: queue_fetch_signing_input_def)
next
  case (TQueueFetchAck u r ids t)
  then obtain u' r' ids' t' where b: "b = TQueueFetchAck u' r' ids' t'" using assms(4) by (cases b) simp_all
  show ?thesis
    using assms(1-3) ack_input_inject [of u r ids t u' r' ids' t'] unfolding TQueueFetchAck b by simp
next
  case (TClientAuth n bd)
  then show ?thesis using assms by (cases b) (auto simp: client_auth_message_def)
next
  case (TDispatch v t f i p)
  then show ?thesis using assms by (cases b) (auto simp: dispatch_sig_message_def)
next
  case (TActivity t f g ac ts)
  then show ?thesis using assms by (cases b) (auto simp: activity_sig_message_def)
next
  case (TRegister p t)
  then show ?thesis using assms by (cases b) (auto simp: register_signing_input_def)
qed

lemma signing_input_inj:
  "transcript_wf a \<Longrightarrow> transcript_wf b \<Longrightarrow> signing_input a = signing_input b \<Longrightarrow> a = b"
  by (rule signing_input_inject_kind) (auto intro: signing_input_kind)

section \<open>Accepted messages\<close>

lemma check_timestamp_window:
  "check_timestamp now ts = Inr () \<longleftrightarrow> abs_diff now ts \<le> MAX_DHT_HELLO_SKEW_MS"
  by (auto simp: check_timestamp_def abs_diff_def)

text \<open>
  The key holder's discipline, together with the unforgeability of ed25519: whatever verifies under
  the key is the signing input of a well-formed transcript from the set the holder signed.
\<close>

definition signs_only :: "crypto \<Rightarrow> bytes \<Rightarrow> transcript set \<Rightarrow> bool" where
  "signs_only cr pk S \<longleftrightarrow>
     (\<forall>msg sig. verify_strict cr pk msg sig \<longrightarrow> (\<exists>t \<in> S. transcript_wf t \<and> msg = signing_input t))"

lemma signs_onlyD:
  assumes "signs_only cr pk S" "verify_strict cr pk (signing_input t) sig" "transcript_wf t"
  shows "t \<in> S"
proof -
  obtain t' where "t' \<in> S" "transcript_wf t'" "signing_input t = signing_input t'"
    using assms(1,2) by (auto simp: signs_only_def)
  then show ?thesis using signing_input_inj [OF assms(3), of t'] by simp
qed

section \<open>Properties\<close>

text \<open>
  Property C19.  No signature is ambiguous: two well-formed messages of the network, of the same or of
  different kinds, have the same signing input only if they are the same message.
\<close>

theorem signing_inputs_separate:
  assumes "transcript_wf a" "transcript_wf b" "signing_input a = signing_input b"
  shows "a = b"
  using assms by (rule signing_input_inj)

theorem signing_inputs_separate_witness:
  "signing_input (TQueueFetch (replicate 32 1) (replicate 32 2) 5)
   \<noteq> signing_input (TQueueFetchAck (replicate 32 1) (replicate 32 2) [replicate 16 3] 5)"
proof
  assume "signing_input (TQueueFetch (replicate 32 1) (replicate 32 2) 5)
    = signing_input (TQueueFetchAck (replicate 32 1) (replicate 32 2) [replicate 16 3] 5)"
  from signing_inputs_separate [OF _ _ this] show False by simp
qed


text \<open>A key under which nothing verifies but one acknowledgement.\<close>

definition one_ack_crypto :: crypto where
  "one_ack_crypto = \<lparr> blake3 = pad_to 32, key_ok = (\<lambda>_. True),
     verify_strict = (\<lambda>pk msg sig. msg =
       queue_fetch_ack_signing_input (replicate 32 1) (replicate 32 2) [replicate 16 3] 70000) \<rparr>"


end
