(* ===== verification/Mls_Wire.thy ===== *)
theory Mls_Wire
  imports Transcripts
begin

text \<open>
  The MLS side of the wire (\<^verbatim>\<open>common/src/proto/mls_wire.rs\<close>): KeyPackage and Welcome records, the
  limits of their stashes, and every signing input of the file.  openmls values are opaque bytes.
  postcard, which the group transcripts embed, is a parameter of those definitions.
\<close>

section \<open>Limits\<close>

definition MLS_WIRE_VERSION :: u16 where "MLS_WIRE_VERSION = 12"
definition MAX_WELCOME_BYTES :: nat where "MAX_WELCOME_BYTES = 256 * 1024"
definition KP_STASH_TARGET :: nat where "KP_STASH_TARGET = 100"
definition MAX_KP_FETCH_PER_HOUR :: u32 where "MAX_KP_FETCH_PER_HOUR = 60"
definition MAX_KP_SKEW_MS :: u64 where "MAX_KP_SKEW_MS = 60000"
definition KEYPACKAGE_LIFETIME_MS :: u64 where "KEYPACKAGE_LIFETIME_MS = 30 * 24 * 3600000"
definition MAX_WELCOMES_PER_RECIPIENT :: nat where "MAX_WELCOMES_PER_RECIPIENT = 32"
definition WELCOME_LIFETIME_MS :: u64 where "WELCOME_LIFETIME_MS = 30 * 24 * 3600000"
definition MAX_WELCOME_ACK_IDS :: nat where "MAX_WELCOME_ACK_IDS = MAX_WELCOMES_PER_RECIPIENT"
definition WELCOME_ID_LEN :: nat where "WELCOME_ID_LEN = 8"

section \<open>Domains\<close>

definition GROUP_CHANGE_SIG_DOMAIN :: bytes where "GROUP_CHANGE_SIG_DOMAIN = ascii ''promtuz-mls-v1 group-change''"
definition MLS_ENVELOPE_SIG_DOMAIN :: bytes where "MLS_ENVELOPE_SIG_DOMAIN = ascii ''promtuz-mls-v1 envelope''"
definition WELCOME_ENVELOPE_SIG_DOMAIN :: bytes where
  "WELCOME_ENVELOPE_SIG_DOMAIN = ascii ''promtuz-mls-v1 welcome-envelope''"
definition INVITE_SIG_DOMAIN :: bytes where "INVITE_SIG_DOMAIN = ascii ''promtuz-mls-v1 invite''"
definition KP_PUBLISH_DOMAIN :: bytes where "KP_PUBLISH_DOMAIN = ascii ''promtuz-mls-v1 kp-publish''"
definition KP_RECORD_DOMAIN :: bytes where "KP_RECORD_DOMAIN = ascii ''promtuz-mls-v1 kp-record''"
definition WELCOME_FETCH_DOMAIN :: bytes where "WELCOME_FETCH_DOMAIN = ascii ''promtuz-mls-v1 welcome-fetch''"
definition WELCOME_ACK_DOMAIN :: bytes where "WELCOME_ACK_DOMAIN = ascii ''promtuz-mls-v1 welcome-ack''"
definition KP_FETCH_WRAP_DOMAIN :: bytes where "KP_FETCH_WRAP_DOMAIN = ascii ''promtuz-mls-v1 kp-fetch-wrap''"
definition WELCOME_PUBLISH_WRAP_DOMAIN :: bytes where
  "WELCOME_PUBLISH_WRAP_DOMAIN = ascii ''promtuz-mls-v1 welcome-publish-wrap''"
definition PAIR_DECLINE_SIG_DOMAIN :: bytes where "PAIR_DECLINE_SIG_DOMAIN = ascii ''promtuz-pair-decline-v1''"

section \<open>Records\<close>

record invite =
  iv_id :: bytes
  iv_expiry_ms :: u64
  iv_sig :: bytes

record pairing =
  pr_invite :: invite
  pr_sender_name :: bytes

record welcome_envelope =
  we_version :: u8
  we_group_id :: bytes
  we_sender_ipk :: bytes
  we_recipient_ipk :: bytes
  we_welcome_blob :: bytes
  we_kp_ref_used :: bytes
  we_sender_sig :: bytes
  we_pairing :: "pairing option"

datatype group_member_action = Refresh | Leave_Group

record group_member_request =
  gq_who :: bytes
  gq_nonce :: bytes
  gq_action :: group_member_action
  gq_signature :: bytes

record group_rules =
  gr_members_add :: bool
  gr_members_edit :: bool
  gr_members_send :: bool
  gr_admins_appoint :: bool

definition group_rules_default :: group_rules where
  "group_rules_default = \<lparr> gr_members_add = True, gr_members_edit = False, gr_members_send = True,
                           gr_admins_appoint = False \<rparr>"

datatype group_change =
    Add "bytes list"
  | Remove bytes
  | Leave "bytes option"
  | Role bytes u8
  | Rules group_rules
  | Handover bytes
  | Takeover
  | Upgrade
  | MemberRequest group_member_request

record signed_change =
  sc_by :: bytes
  sc_epoch :: u64
  sc_branch :: bytes
  sc_change :: group_change
  sc_sig :: bytes

record migration_approval =
  ma_who :: bytes
  ma_signature :: bytes

record kp_record =
  kr_ipk :: bytes
  kr_kp_ref :: bytes
  kr_kp_bytes :: bytes
  kr_expires_at_ms :: u64
  kr_owner_sig :: bytes

datatype publish_outcome =
    Kp_Stored | Kp_BadSig | Kp_Expired | Kp_NotOwner | Kp_RateLimited | Kp_TooMany
  | Kp_StaticFieldsConflict | Kp_Unavailable

record kp_fetch_req =
  kf_target_ipk :: bytes
  kf_requester_relay_id :: bytes
  kf_timestamp :: u64

record kp_fetch_found =
  kff_record :: kp_record
  kff_remaining :: u32
  kff_static_hash :: bytes

datatype kp_fetch_outcome =
    Kf_Found kp_fetch_found | Kf_NoStash | Kf_NotOwner | Kf_RateLimited | Kf_Unavailable

record welcome_publish_req =
  wp_envelope :: welcome_envelope
  wp_timestamp :: u64

datatype welcome_publish_outcome =
    Wp_Stored | Wp_BadSig | Wp_StaleTimestamp | Wp_NotOwner | Wp_QueueFull | Wp_RateLimited

record welcome_fetch_req =
  wf_user_ipk :: bytes
  wf_requester_relay_id :: bytes
  wf_timestamp :: u64
  wf_user_sig :: bytes

record welcome_entry =
  wn_welcome_id :: bytes
  wn_envelope :: welcome_envelope

datatype welcome_fetch_outcome = Wf_Found "welcome_entry list" | Wf_BadSig | Wf_NotOwner | Wf_RateLimited

record welcome_ack_req =
  wa_user_ipk :: bytes
  wa_requester_relay_id :: bytes
  wa_welcome_ids :: "bytes list"
  wa_timestamp :: u64
  wa_user_sig :: bytes

section \<open>Signing inputs\<close>

text \<open>The postcard values that the group transcripts embed.\<close>

record mls_postcard =
  pc_action :: "group_member_action \<Rightarrow> bytes"
  pc_change :: "group_change \<Rightarrow> bytes option"
  pc_migration :: "bytes \<times> bytes \<times> migration_approval list \<times> welcome_envelope \<times> bytes \<Rightarrow> bytes"
  pc_invitation :: "welcome_envelope \<times> bytes \<Rightarrow> bytes"

definition group_member_request_signing_input ::
  "mls_postcard \<Rightarrow> bytes \<Rightarrow> bytes \<Rightarrow> bytes \<Rightarrow> group_member_action \<Rightarrow> bytes" where
  "group_member_request_signing_input pc grp who nonce action =
     ascii ''promtuz group member request v1'' @ grp @ who @ nonce @ pc_action pc action"

definition group_change_signing_input ::
  "mls_postcard \<Rightarrow> bytes \<Rightarrow> u64 \<Rightarrow> bytes \<Rightarrow> bytes \<Rightarrow> group_change \<Rightarrow> bytes option" where
  "group_change_signing_input pc group_id epoch branch by_ipk change =
     map_option (\<lambda>bs. GROUP_CHANGE_SIG_DOMAIN @ group_id @ u64_be epoch @ branch @ by_ipk @ bs) (pc_change pc change)"

definition group_migration_signing_input :: "bytes \<Rightarrow> bytes \<Rightarrow> bytes" where
  "group_migration_signing_input grp branch = ascii ''promtuz legacy group migration v1'' @ grp @ branch"

definition group_migration_welcome_signing_input ::
  "mls_postcard \<Rightarrow> bytes \<Rightarrow> bytes \<Rightarrow> migration_approval list \<Rightarrow> welcome_envelope \<Rightarrow> bytes \<Rightarrow> bytes" where
  "group_migration_welcome_signing_input pc grp branch approvals welcome history =
     ascii ''promtuz legacy migration welcome v1'' @ pc_migration pc (grp, branch, approvals, welcome, history)"

definition group_welcome_signing_input ::
  "mls_postcard \<Rightarrow> welcome_envelope \<Rightarrow> bytes \<Rightarrow> bytes" where
  "group_welcome_signing_input pc welcome history =
     ascii ''promtuz group welcome v1'' @ pc_invitation pc (welcome, history)"

definition envelope_signing_input :: "crypto \<Rightarrow> u16 \<Rightarrow> bytes \<Rightarrow> bytes \<Rightarrow> u64 \<Rightarrow> bytes \<Rightarrow> bytes" where
  "envelope_signing_input cr version to group_id epoch mls =
     MLS_ENVELOPE_SIG_DOMAIN @ u16_be version @ to @ group_id @ u64_be epoch @ blake3 cr mls"

definition group_envelope_signing_input ::
  "crypto \<Rightarrow> u16 \<Rightarrow> bytes \<Rightarrow> bytes \<Rightarrow> u64 \<Rightarrow> bytes \<Rightarrow> bytes \<Rightarrow> bytes" where
  "group_envelope_signing_input cr version to grp epoch branch ciphertext =
     ascii ''promtuz group envelope v1'' @ branch @ envelope_signing_input cr version to grp epoch ciphertext"

definition pair_decline_signing_input :: "bytes \<Rightarrow> bytes \<Rightarrow> u8 \<Rightarrow> u64 \<Rightarrow> bytes" where
  "pair_decline_signing_input sender recipient reason timestamp =
     PAIR_DECLINE_SIG_DOMAIN @ u16_be MLS_WIRE_VERSION @ sender @ recipient @ [reason] @ u64_be timestamp"

definition invite_signing_input :: "u16 \<Rightarrow> bytes \<Rightarrow> u64 \<Rightarrow> bytes" where
  "invite_signing_input version iid expiry_ms = INVITE_SIG_DOMAIN @ u16_be version @ iid @ u64_be expiry_ms"

definition welcome_envelope_signing_input ::
  "crypto \<Rightarrow> u16 \<Rightarrow> bytes \<Rightarrow> bytes \<Rightarrow> bytes \<Rightarrow> bytes \<Rightarrow> bytes \<Rightarrow> bytes" where
  "welcome_envelope_signing_input cr version group_id sender recipient kp_ref_used blob =
     WELCOME_ENVELOPE_SIG_DOMAIN @ u16_be version @ group_id @ sender @ recipient @ kp_ref_used @ blake3 cr blob"

definition kp_record_signing_input :: "crypto \<Rightarrow> u16 \<Rightarrow> bytes \<Rightarrow> bytes \<Rightarrow> bytes \<Rightarrow> u64 \<Rightarrow> bytes" where
  "kp_record_signing_input cr version ipk kp_ref kp_bytes expires_at_ms =
     KP_RECORD_DOMAIN @ u16_be version @ ipk @ u32_be (word_of_nat (length kp_ref)) @ kp_ref
     @ blake3 cr kp_bytes @ u64_be expires_at_ms"

definition kp_publish_signing_input :: "u16 \<Rightarrow> bytes \<Rightarrow> bytes \<Rightarrow> u32 \<Rightarrow> u64 \<Rightarrow> bytes" where
  "kp_publish_signing_input version ipk records_digest record_count timestamp =
     KP_PUBLISH_DOMAIN @ u16_be version @ ipk @ u32_be record_count @ records_digest @ u64_be timestamp"

definition kp_publish_records_digest :: "crypto \<Rightarrow> u16 \<Rightarrow> kp_record list \<Rightarrow> bytes" where
  "kp_publish_records_digest cr version records =
     blake3 cr (concat (map (\<lambda>r. kp_record_signing_input cr version (kr_ipk r) (kr_kp_ref r) (kr_kp_bytes r)
                                   (kr_expires_at_ms r)) records))"

definition key_package_stash_prefix :: "crypto \<Rightarrow> bytes \<Rightarrow> bytes" where
  "key_package_stash_prefix cr ipk = blake3 cr (ascii ''kp:'' @ ipk)"

definition welcome_fetch_signing_input :: "u16 \<Rightarrow> bytes \<Rightarrow> bytes \<Rightarrow> u64 \<Rightarrow> bytes" where
  "welcome_fetch_signing_input version user requester timestamp =
     WELCOME_FETCH_DOMAIN @ u16_be version @ user @ requester @ u64_be timestamp"

definition welcome_ack_signing_input :: "crypto \<Rightarrow> u16 \<Rightarrow> bytes \<Rightarrow> bytes \<Rightarrow> bytes list \<Rightarrow> u64 \<Rightarrow> bytes" where
  "welcome_ack_signing_input cr version user requester ids timestamp =
     WELCOME_ACK_DOMAIN @ u16_be version @ user @ requester @ u32_be (word_of_nat (length ids))
     @ blake3 cr (concat ids) @ u64_be timestamp"

definition kp_fetch_wrap_signing_input :: "u16 \<Rightarrow> bytes \<Rightarrow> bytes \<Rightarrow> u64 \<Rightarrow> bytes" where
  "kp_fetch_wrap_signing_input version sender target timestamp =
     KP_FETCH_WRAP_DOMAIN @ u16_be version @ sender @ target @ u64_be timestamp"

definition welcome_publish_wrap_signing_input :: "crypto \<Rightarrow> u16 \<Rightarrow> bytes \<Rightarrow> bytes \<Rightarrow> u64 \<Rightarrow> bytes" where
  "welcome_publish_wrap_signing_input cr version sender blob timestamp =
     WELCOME_PUBLISH_WRAP_DOMAIN @ u16_be version @ sender @ blake3 cr blob @ u64_be timestamp"

end
