(* ===== verification/Mls_Transcripts.thy ===== *)
theory Mls_Transcripts
  imports Mls_Wire
begin

text \<open>
  Separation of the signing inputs of \<^verbatim>\<open>mls_wire.rs\<close> from each other and from those of the relay
  protocols, which the same identity keys sign.
\<close>

section \<open>Messages\<close>

text \<open>
  One constructor per signing input.
\<close>

datatype (plugins only: code size) mls_message =
    MMemberRequest bytes bytes bytes group_member_action
  | MChange bytes u64 bytes bytes group_change
  | MMigration bytes bytes
  | MMigrationWelcome bytes bytes "migration_approval list" welcome_envelope bytes
  | MGroupWelcome welcome_envelope bytes
  | MGroupEnvelope u16 bytes bytes u64 bytes bytes
  | MPairDecline bytes bytes u8 u64
  | MEnvelope u16 bytes bytes u64 bytes
  | MInvite u16 bytes u64
  | MWelcomeEnvelope u16 bytes bytes bytes bytes bytes
  | MKpRecord u16 bytes bytes bytes u64
  | MKpPublish u16 bytes bytes u32 u64
  | MWelcomeFetch u16 bytes bytes u64
  | MWelcomeAck u16 bytes bytes "bytes list" u64
  | MKpFetchWrap u16 bytes bytes u64
  | MWelcomePublishWrap u16 bytes bytes u64

fun mls_input :: "crypto \<Rightarrow> mls_postcard \<Rightarrow> mls_message \<Rightarrow> bytes option" where
  "mls_input cr pc (MMemberRequest g w n a) = Some (group_member_request_signing_input pc g w n a)"
| "mls_input cr pc (MChange g e b w c) = group_change_signing_input pc g e b w c"
| "mls_input cr pc (MMigration g b) = Some (group_migration_signing_input g b)"
| "mls_input cr pc (MMigrationWelcome g b a w h) = Some (group_migration_welcome_signing_input pc g b a w h)"
| "mls_input cr pc (MGroupWelcome w h) = Some (group_welcome_signing_input pc w h)"
| "mls_input cr pc (MGroupEnvelope v t g e b c) = Some (group_envelope_signing_input cr v t g e b c)"
| "mls_input cr pc (MPairDecline s r x t) = Some (pair_decline_signing_input s r x t)"
| "mls_input cr pc (MEnvelope v t g e m) = Some (envelope_signing_input cr v t g e m)"
| "mls_input cr pc (MInvite v i e) = Some (invite_signing_input v i e)"
| "mls_input cr pc (MWelcomeEnvelope v g s r k b) = Some (welcome_envelope_signing_input cr v g s r k b)"
| "mls_input cr pc (MKpRecord v i k b e) = Some (kp_record_signing_input cr v i k b e)"
| "mls_input cr pc (MKpPublish v i d n t) = Some (kp_publish_signing_input v i d n t)"
| "mls_input cr pc (MWelcomeFetch v u r t) = Some (welcome_fetch_signing_input v u r t)"
| "mls_input cr pc (MWelcomeAck v u r ids t) = Some (welcome_ack_signing_input cr v u r ids t)"
| "mls_input cr pc (MKpFetchWrap v s t ts) = Some (kp_fetch_wrap_signing_input v s t ts)"
| "mls_input cr pc (MWelcomePublishWrap v s b t) = Some (welcome_publish_wrap_signing_input cr v s b t)"

text \<open>The kind of a message and its fields as they are signed: bodies by their hash.\<close>

fun mls_view :: "crypto \<Rightarrow> mls_postcard \<Rightarrow> mls_message \<Rightarrow> nat \<times> bytes list" where
  "mls_view cr pc (MMemberRequest g w n a) = (0, [g, w, n, pc_action pc a])"
| "mls_view cr pc (MChange g e b w c) = (1, [g, u64_be e, b, w, the (pc_change pc c)])"
| "mls_view cr pc (MMigration g b) = (2, [g, b])"
| "mls_view cr pc (MMigrationWelcome g b a w h) = (3, [pc_migration pc (g, b, a, w, h)])"
| "mls_view cr pc (MGroupWelcome w h) = (4, [pc_invitation pc (w, h)])"
| "mls_view cr pc (MGroupEnvelope v t g e b c) =
     (5, [b, MLS_ENVELOPE_SIG_DOMAIN, u16_be v, t, g, u64_be e, blake3 cr c])"
| "mls_view cr pc (MPairDecline s r x t) = (6, [u16_be MLS_WIRE_VERSION, s, r, [x], u64_be t])"
| "mls_view cr pc (MEnvelope v t g e m) = (7, [u16_be v, t, g, u64_be e, blake3 cr m])"
| "mls_view cr pc (MInvite v i e) = (8, [u16_be v, i, u64_be e])"
| "mls_view cr pc (MWelcomeEnvelope v g s r k b) = (9, [u16_be v, g, s, r, k, blake3 cr b])"
| "mls_view cr pc (MKpRecord v i k b e) =
     (10, [u16_be v, i, u32_be (word_of_nat (length k)), k, blake3 cr b, u64_be e])"
| "mls_view cr pc (MKpPublish v i d n t) = (11, [u16_be v, i, u32_be n, d, u64_be t])"
| "mls_view cr pc (MWelcomeFetch v u r t) = (12, [u16_be v, u, r, u64_be t])"
| "mls_view cr pc (MWelcomeAck v u r ids t) =
     (13, [u16_be v, u, r, u32_be (word_of_nat (length ids)), blake3 cr (concat ids), u64_be t])"
| "mls_view cr pc (MKpFetchWrap v s t ts) = (14, [u16_be v, s, t, u64_be ts])"
| "mls_view cr pc (MWelcomePublishWrap v s b t) = (15, [u16_be v, s, blake3 cr b, u64_be t])"

text \<open>The widths of the Rust types.\<close>

fun mls_wf :: "mls_message \<Rightarrow> bool" where
  "mls_wf (MMemberRequest g w n a) \<longleftrightarrow> length g = 32 \<and> length w = 32 \<and> length n = 16"
| "mls_wf (MChange g e b w c) \<longleftrightarrow> length g = 32 \<and> length b = 32 \<and> length w = 32"
| "mls_wf (MMigration g b) \<longleftrightarrow> length g = 32 \<and> length b = 32"
| "mls_wf (MMigrationWelcome g b a w h) \<longleftrightarrow> True"
| "mls_wf (MGroupWelcome w h) \<longleftrightarrow> True"
| "mls_wf (MGroupEnvelope v t g e b c) \<longleftrightarrow> length t = 32 \<and> length g = 32 \<and> length b = 32"
| "mls_wf (MPairDecline s r x t) \<longleftrightarrow> length s = 32 \<and> length r = 32"
| "mls_wf (MEnvelope v t g e m) \<longleftrightarrow> length t = 32 \<and> length g = 32"
| "mls_wf (MInvite v i e) \<longleftrightarrow> length i = 16"
| "mls_wf (MWelcomeEnvelope v g s r k b) \<longleftrightarrow> length g = 32 \<and> length s = 32 \<and> length r = 32 \<and> length k = 32"
| "mls_wf (MKpRecord v i k b e) \<longleftrightarrow> length i = 32 \<and> length k < 2 ^ 32"
| "mls_wf (MKpPublish v i d n t) \<longleftrightarrow> length i = 32 \<and> length d = 32"
| "mls_wf (MWelcomeFetch v u r t) \<longleftrightarrow> length u = 32 \<and> length r = 32"
| "mls_wf (MWelcomeAck v u r ids t) \<longleftrightarrow> length u = 32 \<and> length r = 32"
| "mls_wf (MKpFetchWrap v s t ts) \<longleftrightarrow> length s = 32 \<and> length t = 32"
| "mls_wf (MWelcomePublishWrap v s b t) \<longleftrightarrow> length s = 32"

definition mls_names :: "string list" where
  "mls_names = [''promtuz group member request v1'', ''promtuz-mls-v1 group-change'',
     ''promtuz legacy group migration v1'', ''promtuz legacy migration welcome v1'',
     ''promtuz group welcome v1'', ''promtuz group envelope v1'', ''promtuz-pair-decline-v1'',
     ''promtuz-mls-v1 envelope'', ''promtuz-mls-v1 invite'', ''promtuz-mls-v1 welcome-envelope'',
     ''promtuz-mls-v1 kp-record'', ''promtuz-mls-v1 kp-publish'', ''promtuz-mls-v1 welcome-fetch'',
     ''promtuz-mls-v1 welcome-ack'', ''promtuz-mls-v1 kp-fetch-wrap'', ''promtuz-mls-v1 welcome-publish-wrap'']"

lemmas mls_input_defs =
  group_member_request_signing_input_def group_change_signing_input_def group_migration_signing_input_def
  group_migration_welcome_signing_input_def group_welcome_signing_input_def group_envelope_signing_input_def
  pair_decline_signing_input_def envelope_signing_input_def invite_signing_input_def
  welcome_envelope_signing_input_def kp_record_signing_input_def kp_publish_signing_input_def
  welcome_fetch_signing_input_def welcome_ack_signing_input_def kp_fetch_wrap_signing_input_def
  welcome_publish_wrap_signing_input_def

lemmas mls_domain_defs =
  GROUP_CHANGE_SIG_DOMAIN_def MLS_ENVELOPE_SIG_DOMAIN_def WELCOME_ENVELOPE_SIG_DOMAIN_def INVITE_SIG_DOMAIN_def
  KP_PUBLISH_DOMAIN_def KP_RECORD_DOMAIN_def WELCOME_FETCH_DOMAIN_def WELCOME_ACK_DOMAIN_def
  KP_FETCH_WRAP_DOMAIN_def WELCOME_PUBLISH_WRAP_DOMAIN_def PAIR_DECLINE_SIG_DOMAIN_def

lemma mls_input_view:
  "mls_input cr pc m = Some x \<Longrightarrow> x = ascii (mls_names ! fst (mls_view cr pc m)) @ concat (snd (mls_view cr pc m))"
  by (cases m) (auto simp: mls_names_def mls_input_defs mls_domain_defs)

lemma mls_kind_less: "fst (mls_view cr pc m) < 16"
  by (cases m) simp_all

section \<open>Prefix freeness\<close>

lemma mls_names_prefix_free:
  "list_all (\<lambda>i. list_all (\<lambda>j. i = j \<or> \<not> starts_with (mls_names ! i) (mls_names ! j)) [0..<16]) [0..<16]"
  by code_simp

lemma mls_names_free: "i < 16 \<Longrightarrow> j < 16 \<Longrightarrow> starts_with (mls_names ! i) (mls_names ! j) \<Longrightarrow> i = j"
  using mls_names_prefix_free by (simp add: list_all_iff) (meson atLeastLessThan_iff le0)

lemma mls_names_apart:
  "list_all (\<lambda>a. list_all (\<lambda>b. \<not> starts_with a b \<and> \<not> starts_with b a) domain_names) mls_names"
  by code_simp

lemma mls_kind_eq:
  assumes "mls_input cr pc a = Some x" "mls_input cr pc b = Some x"
  shows "fst (mls_view cr pc a) = fst (mls_view cr pc b)"
  using append_eq_starts_with [OF mls_input_view [OF assms(1), symmetric, unfolded mls_input_view [OF assms(2)]]]
    mls_kind_less [of cr pc a] mls_kind_less [of cr pc b]
  unfolding starts_with_ascii by (auto dest: mls_names_free)

lemma mls_not_relay: "mls_input cr pc m \<noteq> Some (signing_input t)"
proof
  assume "mls_input cr pc m = Some (signing_input t)"
  from mls_input_view [OF this] obtain x y
    where "ascii (mls_names ! fst (mls_view cr pc m)) @ x = ascii (domain_names ! kind_of t) @ y"
    using signing_input_domain [of t] unfolding domain_of_kind by metis
  from append_eq_starts_with [OF this] show False
    using mls_names_apart mls_kind_less [of cr pc m] kind_of_less [of t]
    unfolding starts_with_ascii by (simp add: list_all_length mls_names_def domain_names_def)
qed

section \<open>Fields\<close>

lemma kp_ref_length_eq:
  assumes "mls_wf (MKpRecord v i k c e)" "mls_wf (MKpRecord v' i' k' c' e')"
    "concat (snd (mls_view cr pc (MKpRecord v i k c e))) = concat (snd (mls_view cr pc (MKpRecord v' i' k' c' e')))"
  shows "length k = length k'"
proof -
  have "(word_of_nat (length k) :: u32) = word_of_nat (length k')" using assms by simp
  then have "unat (word_of_nat (length k) :: u32) = unat (word_of_nat (length k') :: u32)" by simp
  then show ?thesis using assms(1,2) by (simp add: unat_of_nat)
qed

text \<open>Lists whose members but the last have equal widths are determined by their concatenation.\<close>

lemma concat_widths_inject:
  "map length (butlast xs) = map length (butlast ys) \<Longrightarrow> length xs = length ys \<Longrightarrow> concat xs = concat ys \<Longrightarrow> xs = ys"
proof (induction xs arbitrary: ys)
  case (Cons x xs)
  then obtain y ys' where ys: "ys = y # ys'" by (cases ys) auto
  then show ?case using Cons by (cases "xs = []") (auto split: if_splits)
qed simp

text \<open>The widths of all fields but the last, by kind; kind 10 has its length in a field.\<close>

definition mls_widths :: "nat list list" where
  "mls_widths = [[32, 32, 16], [32, 8, 32, 32], [32], [], [], [32, 23, 2, 32, 32, 8], [2, 32, 32, 1],
     [2, 32, 32, 8], [2, 16], [2, 32, 32, 32, 32], [], [2, 32, 4, 32], [2, 32, 32], [2, 32, 32, 4, 32],
     [2, 32, 32], [2, 32, 32]]"

lemma mls_view_widths:
  "hash_width cr \<Longrightarrow> mls_wf a \<Longrightarrow> fst (mls_view cr pc a) \<noteq> 10
   \<Longrightarrow> map length (butlast (snd (mls_view cr pc a))) = mls_widths ! fst (mls_view cr pc a)
     \<and> length (snd (mls_view cr pc a)) = Suc (length (mls_widths ! fst (mls_view cr pc a)))"
  by (cases a) (simp_all add: mls_widths_def hash_width_def MLS_ENVELOPE_SIG_DOMAIN_def ascii_def)

lemma mls_fields_eq:
  assumes "hash_width cr" "mls_wf a" "mls_wf b" "fst (mls_view cr pc a) = fst (mls_view cr pc b)"
    "concat (snd (mls_view cr pc a)) = concat (snd (mls_view cr pc b))"
  shows "snd (mls_view cr pc a) = snd (mls_view cr pc b)"
proof (cases "fst (mls_view cr pc a) = 10")
  case True
  then obtain v i k c e where a: "a = MKpRecord v i k c e" by (cases a) simp_all
  from True obtain v' i' k' c' e' where b: "b = MKpRecord v' i' k' c' e'" unfolding assms(4) by (cases b) simp_all
  have "length k = length k'" using assms(2,3,5) unfolding a b by (rule kp_ref_length_eq)
  then have "map length (butlast (snd (mls_view cr pc a))) = map length (butlast (snd (mls_view cr pc b)))"
    using assms(1-3) by (simp add: a b hash_width_def)
  then show ?thesis by (rule concat_widths_inject [OF _ _ assms(5)]) (simp add: a b)
next
  case False
  show ?thesis
    by (rule concat_widths_inject [OF _ _ assms(5)])
      (use mls_view_widths [OF assms(1,2) False] mls_view_widths [OF assms(1,3)] False assms(4) in simp_all)
qed

section \<open>Properties\<close>

text \<open>
  Property C29: the sixteen signing inputs of the MLS wire are separate.  Two well-formed messages
  of any kinds with the same signing input are of the same kind and agree in every signed field,
  bodies by their hash; and none of them is a signing input of the relay protocols.
\<close>

theorem mls_inputs_separate:
  assumes "hash_width cr" "mls_wf a" "mls_wf b" "mls_input cr pc a = Some x" "mls_input cr pc b = Some x"
  shows "mls_view cr pc a = mls_view cr pc b \<and> (\<forall>t. x \<noteq> signing_input t)"
proof -
  have kind: "fst (mls_view cr pc a) = fst (mls_view cr pc b)" using mls_kind_eq [OF assms(4,5)] .
  have "concat (snd (mls_view cr pc a)) = concat (snd (mls_view cr pc b))"
    using mls_input_view [OF assms(4)] mls_input_view [OF assms(5)] unfolding kind by simp
  then show ?thesis
    using mls_fields_eq [OF assms(1-3) kind] kind mls_not_relay [of cr pc a] assms(4) by (auto simp: prod_eq_iff)
qed

definition demo_postcard :: mls_postcard where
  "demo_postcard = \<lparr> pc_action = (\<lambda>a. case a of Refresh \<Rightarrow> [0] | Leave_Group \<Rightarrow> [1]), pc_change = (\<lambda>_. None),
     pc_migration = (\<lambda>(g, b, a, w, h). g @ b @ h), pc_invitation = (\<lambda>(w, h). we_welcome_blob w @ h) \<rparr>"

theorem mls_inputs_separate_witness:
  "\<forall>t. invite_signing_input 12 (replicate 16 1) 77 \<noteq> signing_input t"
  using mls_inputs_separate [OF hash_width_toy, of "MInvite 12 (replicate 16 1) 77" "MInvite 12 (replicate 16 1) 77"
    demo_postcard "invite_signing_input 12 (replicate 16 1) 77"] by simp

end
