(* ===== verification/Maintenance.thy ===== *)
theory Maintenance
  imports Keyspace
begin

text \<open>
  Durability in the relay store (\<^verbatim>\<open>relay/src/storage/db.rs\<close>): writers number their writes, one
  maintenance thread fsyncs in groups, and a \<^verbatim>\<open>PersistBarrier\<close> waits for the commit that covers its
  number.  The shared state is a record; the thread, the writers and the shutdown are the labels of
  a step relation.  Generations are naturals: the code's \<^verbatim>\<open>u64\<close> counter advances once per write.
\<close>

section \<open>The shared state\<close>

record maintenance_state =
  ms_persist_requested :: bool
  ms_shutdown :: bool
  ms_requested_gen :: nat
  ms_persisted_gen :: nat
  ms_persist_failed :: bool

definition ms_default :: maintenance_state where
  "ms_default = \<lparr> ms_persist_requested = False, ms_shutdown = False, ms_requested_gen = 0,
                  ms_persisted_gen = 0, ms_persist_failed = False \<rparr>"

text \<open>\<^verbatim>\<open>request_persist\<close>: the number it hands out is the new \<^verbatim>\<open>requested_gen\<close>.\<close>

definition request_persist :: "maintenance_state \<Rightarrow> maintenance_state \<times> nat" where
  "request_persist st =
     (let st' = st\<lparr> ms_persist_requested := True, ms_requested_gen := ms_requested_gen st + 1 \<rparr>
      in (st', ms_requested_gen st'))"

text \<open>
  \<^verbatim>\<open>put_sync\<close>: the insertion, and a request only when it succeeded.  The result says whether the
  store took the row.
\<close>

definition put_sync ::
  "fjall_io \<Rightarrow> bytes \<Rightarrow> bytes \<Rightarrow> keyspace \<times> maintenance_state \<Rightarrow> (keyspace \<times> maintenance_state) \<times> (unit + unit)" where
  "put_sync fj key val s =
     (case io_insert fj key val (fst s) of
        (ks', True) \<Rightarrow> ((ks', fst (request_persist (snd s))), Inr ())
      | (ks', False) \<Rightarrow> ((ks', snd s), Inl ()))"

text \<open>
  \<^verbatim>\<open>PersistBarrier::wait_blocking\<close>, one look at the state: \<^const>\<open>None\<close> goes back to waiting, \<^const>\<open>Inl\<close> is
  the error of a poisoned store.
\<close>

definition wait_blocking :: "nat \<Rightarrow> maintenance_state \<Rightarrow> (unit + unit) option" where
  "wait_blocking target st =
     (if ms_persisted_gen st < target \<and> \<not> ms_shutdown st then None
      else if ms_persist_failed st then Some (Inl ())
      else Some (Inr ()))"

section \<open>Writers and the maintenance thread\<close>

text \<open>
  Where \<^verbatim>\<open>run_maintenance\<close> stands: at the wait, inside \<^verbatim>\<open>db.persist\<close> with the local variables
  \<^verbatim>\<open>shutdown\<close> and \<^verbatim>\<open>covered\<close> (and the length of the journal when the call began), or returned.
\<close>

datatype worker = Waiting | Syncing bool nat nat | Returned

text \<open>
  The machine adds what the operating system knows: \<^verbatim>\<open>written\<close> journal entries, of which the first
  \<^verbatim>\<open>flushed\<close> are on disk, and for every generation handed out how long the journal was then.
\<close>

record machine =
  mc_state :: maintenance_state
  mc_worker :: worker
  mc_written :: nat
  mc_flushed :: nat
  mc_marks :: "nat list"

definition mc_start :: machine where
  "mc_start = \<lparr> mc_state = ms_default, mc_worker = Waiting, mc_written = 0, mc_flushed = 0, mc_marks = [] \<rparr>"

datatype label = Insert | Request | Shutdown | Snapshot | Sync_Ok nat | Sync_Err

definition is_sync :: "label \<Rightarrow> bool" where
  "is_sync l = (case l of Sync_Ok _ \<Rightarrow> True | Sync_Err \<Rightarrow> True | _ \<Rightarrow> False)"

definition snapshot :: "machine \<Rightarrow> machine" where
  "snapshot m = m\<lparr> mc_state := (mc_state m)\<lparr> ms_persist_requested := False \<rparr>,
                   mc_worker := Syncing (ms_shutdown (mc_state m)) (ms_requested_gen (mc_state m)) (mc_written m) \<rparr>"

definition synced :: "bool \<Rightarrow> bool \<Rightarrow> nat \<Rightarrow> machine \<Rightarrow> machine" where
  "synced failed shutdown covered m =
     m\<lparr> mc_state := (mc_state m)\<lparr> ms_persist_failed := ms_persist_failed (mc_state m) \<or> failed,
                                   ms_persisted_gen := covered \<rparr>,
        mc_worker := (if shutdown then Returned else Waiting) \<rparr>"

text \<open>
  One step.  An fsync that succeeds puts at least the journal as it was at the call on disk
  (\<^verbatim>\<open>PersistMode::SyncAll\<close>); one that fails promises nothing.  A wake-up for the sweep alone takes no
  request and changes nothing here.
\<close>

inductive mstep :: "label \<Rightarrow> machine \<Rightarrow> machine \<Rightarrow> bool" where
  insert: "mstep Insert m (m\<lparr> mc_written := mc_written m + 1 \<rparr>)"
| request: "mstep Request m (m\<lparr> mc_state := fst (request_persist (mc_state m)),
                                mc_marks := mc_marks m @ [mc_written m] \<rparr>)"
| shutdown: "mstep Shutdown m (m\<lparr> mc_state := (mc_state m)\<lparr> ms_shutdown := True \<rparr> \<rparr>)"
| snapshot: "mc_worker m = Waiting \<Longrightarrow> ms_persist_requested (mc_state m) \<or> ms_shutdown (mc_state m)
    \<Longrightarrow> mstep Snapshot m (snapshot m)"
| sync_ok: "mc_worker m = Syncing sh covered journal \<Longrightarrow> journal \<le> n \<Longrightarrow> n \<le> mc_written m
    \<Longrightarrow> mstep (Sync_Ok n) m ((synced False sh covered m)\<lparr> mc_flushed := max (mc_flushed m) n \<rparr>)"
| sync_err: "mc_worker m = Syncing sh covered journal \<Longrightarrow> mstep Sync_Err m (synced True sh covered m)"

inductive mtrace :: "machine \<Rightarrow> label list \<Rightarrow> machine \<Rightarrow> bool" where
  mtrace_Nil: "mtrace m [] m"
| mtrace_snoc: "mtrace m ls m' \<Longrightarrow> mstep l m' m'' \<Longrightarrow> mtrace m (ls @ [l]) m''"


section \<open>The invariant\<close>

text \<open>
  Every generation has its mark; what counts as persisted has been flushed unless an fsync failed;
  and no request is forgotten: it is pending, covered by the running fsync, or already persisted.
\<close>

definition marked :: "machine \<Rightarrow> nat \<Rightarrow> nat \<Rightarrow> bool" where
  "marked m gen n \<longleftrightarrow> (\<forall>i < gen. mc_marks m ! i \<le> n)"

definition machine_inv :: "machine \<Rightarrow> bool" where
  "machine_inv m \<longleftrightarrow>
     length (mc_marks m) = ms_requested_gen (mc_state m)
     \<and> ms_persisted_gen (mc_state m) \<le> ms_requested_gen (mc_state m)
     \<and> marked m (ms_requested_gen (mc_state m)) (mc_written m)
     \<and> (ms_persist_failed (mc_state m) \<or> marked m (ms_persisted_gen (mc_state m)) (mc_flushed m))
     \<and> (case mc_worker m of
          Waiting \<Rightarrow> ms_persist_requested (mc_state m)
                     \<or> ms_persisted_gen (mc_state m) = ms_requested_gen (mc_state m)
        | Syncing sh covered journal \<Rightarrow>
            marked m covered journal \<and> journal \<le> mc_written m
            \<and> ms_persisted_gen (mc_state m) \<le> covered \<and> covered \<le> ms_requested_gen (mc_state m)
            \<and> (ms_persist_requested (mc_state m) \<or> covered = ms_requested_gen (mc_state m))
            \<and> (sh \<longrightarrow> ms_shutdown (mc_state m))
        | Returned \<Rightarrow> ms_shutdown (mc_state m))"

lemmas machine_defs = machine_inv_def marked_def request_persist_def snapshot_def synced_def Let_def

lemma machine_inv_start: "machine_inv mc_start"
  by (simp add: machine_defs mc_start_def ms_default_def)

lemma inv_insert: "machine_inv m \<Longrightarrow> machine_inv (m\<lparr> mc_written := mc_written m + 1 \<rparr>)"
  by (auto simp: machine_defs le_SucI split: worker.splits)

lemma inv_request:
  assumes "machine_inv m"
  shows "machine_inv (m\<lparr> mc_state := fst (request_persist (mc_state m)),
                          mc_marks := mc_marks m @ [mc_written m] \<rparr>)"
proof -
  have nth: "(mc_marks m @ [mc_written m]) ! i = mc_marks m ! i" if "i < ms_requested_gen (mc_state m)" for i
    using that assms by (simp add: machine_defs nth_append)
  have last: "(mc_marks m @ [mc_written m]) ! ms_requested_gen (mc_state m) = mc_written m"
    using assms by (simp add: machine_defs nth_append)
  show ?thesis
    using assms nth last by (auto simp: machine_defs less_Suc_eq split: worker.splits)
qed

lemma inv_shutdown: "machine_inv m \<Longrightarrow> machine_inv (m\<lparr> mc_state := (mc_state m)\<lparr> ms_shutdown := True \<rparr> \<rparr>)"
  by (auto simp: machine_defs split: worker.splits)

lemma inv_snapshot: "machine_inv m \<Longrightarrow> mc_worker m = Waiting \<Longrightarrow> machine_inv (snapshot m)"
  by (auto simp: machine_defs)

lemma inv_sync_ok:
  "machine_inv m \<Longrightarrow> mc_worker m = Syncing sh covered journal \<Longrightarrow> journal \<le> n
   \<Longrightarrow> machine_inv ((synced False sh covered m)\<lparr> mc_flushed := max (mc_flushed m) n \<rparr>)"
  by (fastforce simp: machine_defs le_max_iff_disj)

lemma inv_sync_err:
  "machine_inv m \<Longrightarrow> mc_worker m = Syncing sh covered journal \<Longrightarrow> machine_inv (synced True sh covered m)"
  by (auto simp: machine_defs)

lemma machine_inv_step: "mstep l m m' \<Longrightarrow> machine_inv m \<Longrightarrow> machine_inv m'"
  by (induction rule: mstep.induct)
    (auto intro: inv_insert [simplified] inv_request inv_shutdown inv_snapshot inv_sync_ok inv_sync_err)

lemma machine_inv_trace: "mtrace m ls m' \<Longrightarrow> machine_inv m \<Longrightarrow> machine_inv m'"
  by (induction rule: mtrace.induct) (auto intro: machine_inv_step)

section \<open>How many more fsyncs a barrier waits for\<close>

definition syncs_left :: "nat \<Rightarrow> machine \<Rightarrow> nat" where
  "syncs_left target m =
     (if wait_blocking target (mc_state m) \<noteq> None then 0
      else case mc_worker m of Syncing _ covered _ \<Rightarrow> if target \<le> covered then 1 else 2 | _ \<Rightarrow> 1)"

lemma machine_inv_Syncing:
  "machine_inv m \<Longrightarrow> mc_worker m = Syncing sh covered journal
   \<Longrightarrow> ms_persisted_gen (mc_state m) \<le> covered \<and> (sh \<longrightarrow> ms_shutdown (mc_state m))"
  by (simp add: machine_inv_def)

lemmas syncs_left_defs = syncs_left_def wait_blocking_def is_sync_def request_persist_def snapshot_def
  synced_def Let_def

lemma syncs_left_step:
  assumes "mstep l m m'" "machine_inv m" "target \<le> ms_requested_gen (mc_state m)"
  shows "syncs_left target m' \<le> syncs_left target m - (if is_sync l then 1 else 0)
         \<and> target \<le> ms_requested_gen (mc_state m')"
  using assms(1)
proof (cases rule: mstep.cases)
  case insert
  then show ?thesis using assms(3) by (simp add: syncs_left_defs)
next
  case request
  then show ?thesis using assms(3) by (simp add: syncs_left_defs split: worker.split)
next
  case shutdown
  then show ?thesis using assms(3) by (simp add: syncs_left_defs)
next
  case snapshot
  then show ?thesis using assms(3) by (simp add: syncs_left_defs)
next
  case (sync_ok sh covered journal n)
  then show ?thesis using assms(3) machine_inv_Syncing [OF assms(2) sync_ok(3)]
    by (cases sh) (simp_all add: syncs_left_defs)
next
  case (sync_err sh covered journal)
  then show ?thesis using assms(3) machine_inv_Syncing [OF assms(2) sync_err(3)]
    by (cases sh) (simp_all add: syncs_left_defs)
qed

lemma syncs_left_trace:
  assumes "mtrace m ls m'" "machine_inv m" "target \<le> ms_requested_gen (mc_state m)"
  shows "syncs_left target m' \<le> syncs_left target m - length (filter is_sync ls)
         \<and> target \<le> ms_requested_gen (mc_state m')"
  using assms
proof (induction rule: mtrace.induct)
  case (mtrace_snoc m ls m' l m'')
  then show ?case using syncs_left_step [OF mtrace_snoc.hyps(2) machine_inv_trace [OF mtrace_snoc.hyps(1)]]
    by fastforce
qed simp

lemma syncs_left_le_2: "syncs_left target m \<le> 2"
  by (auto simp: syncs_left_def split: worker.splits)

lemma syncs_left_0: "syncs_left target m = 0 \<longleftrightarrow> wait_blocking target (mc_state m) \<noteq> None"
  by (auto simp: syncs_left_def split: worker.splits)

text \<open>While a barrier waits, the maintenance thread has a step to take.\<close>

lemma worker_enabled:
  assumes "machine_inv m" "target \<le> ms_requested_gen (mc_state m)" "wait_blocking target (mc_state m) = None"
  shows "\<exists>l m'. (l = Snapshot \<or> is_sync l) \<and> mstep l m m'"
proof (cases "mc_worker m")
  case Waiting
  then have "ms_persist_requested (mc_state m)"
    using assms by (auto simp: machine_inv_def wait_blocking_def split: if_splits)
  then show ?thesis using mstep.snapshot [OF Waiting] by blast
next
  case (Syncing sh covered journal)
  have "is_sync Sync_Err" by (simp add: is_sync_def)
  then show ?thesis using mstep.sync_err [OF Syncing] by blast
next
  case Returned
  then show ?thesis using assms by (auto simp: machine_inv_def wait_blocking_def split: if_splits)
qed

section \<open>Properties\<close>

text \<open>
  Property C7: the barrier is a durability point.  In every reachable state of writers and
  maintenance thread, when a barrier resolves without error and the store is not shutting down,
  every journal entry written before the barrier took its number is on disk.
\<close>

theorem barrier_is_durable:
  assumes "mtrace mc_start ls m" "0 < target" "target \<le> ms_requested_gen (mc_state m)"
    "wait_blocking target (mc_state m) = Some (Inr ())" "\<not> ms_shutdown (mc_state m)"
  shows "mc_marks m ! (target - 1) \<le> mc_flushed m"
proof -
  have "machine_inv m" using machine_inv_trace [OF assms(1) machine_inv_start] .
  moreover have "target \<le> ms_persisted_gen (mc_state m)" "\<not> ms_persist_failed (mc_state m)"
    using assms(4,5) by (auto simp: wait_blocking_def split: if_splits)
  ultimately show ?thesis using assms(2) by (auto simp: machine_inv_def marked_def)
qed

lemma mtrace_from: "mtrace m ls m' \<Longrightarrow> mstep l m0 m \<Longrightarrow> mtrace m0 (l # ls) m'"
proof (induction rule: mtrace.induct)
  case (mtrace_Nil m)
  then show ?case using mtrace.mtrace_snoc [OF mtrace.mtrace_Nil, of l m0 m] by simp
next
  case (mtrace_snoc m ls m' l' m'')
  then show ?case using mtrace.mtrace_snoc [of m0 "l # ls" m' l' m''] by simp
qed

lemmas mtrace_run = mtrace_from [OF _ mstep.insert] mtrace_from [OF _ mstep.request]
  mtrace_from [OF _ mstep.shutdown] mtrace_from [OF _ mstep.snapshot] mtrace_from [OF _ mstep.sync_ok]

definition mc_after_one :: machine where
  "mc_after_one = \<lparr> mc_state = \<lparr> ms_persist_requested = False, ms_shutdown = False, ms_requested_gen = 1,
      ms_persisted_gen = 1, ms_persist_failed = False \<rparr>,
     mc_worker = Waiting, mc_written = 1, mc_flushed = 1, mc_marks = [1] \<rparr>"

lemma run_one: "mtrace mc_start [Insert, Request, Snapshot, Sync_Ok 1] mc_after_one"
  apply (rule mtrace_run(1), rule mtrace_run(2), rule mtrace_run(4))
    apply (rule mtrace_run(5) [where sh = False and covered = 1 and journal = 1])
       apply (simp_all add: mc_start_def ms_default_def request_persist_def snapshot_def synced_def mc_after_one_def)
  apply (rule mtrace.mtrace_Nil)
  done

theorem barrier_is_durable_witness:
  "mc_marks mc_after_one ! (1 - 1) \<le> mc_flushed mc_after_one"
  by (rule barrier_is_durable [OF run_one]) (simp_all add: mc_after_one_def wait_blocking_def)

text \<open>
  Property C24: barriers do not wait forever.  From any reachable state, whatever the writers do
  meanwhile, a barrier has resolved once the maintenance thread has finished two more fsyncs,
  successful or not; and as long as it has not resolved, the thread is able to make a step.
\<close>

theorem barrier_resolves:
  assumes "mtrace mc_start ls m" "target \<le> ms_requested_gen (mc_state m)" "mtrace m ls' m'"
  shows "(2 \<le> length (filter is_sync ls') \<longrightarrow> wait_blocking target (mc_state m') \<noteq> None)
       \<and> (wait_blocking target (mc_state m') = None
          \<longrightarrow> (\<exists>l m''. (l = Snapshot \<or> is_sync l) \<and> mstep l m' m''))"
proof -
  have inv: "machine_inv m" using machine_inv_trace [OF assms(1) machine_inv_start] .
  have left: "syncs_left target m' \<le> syncs_left target m - length (filter is_sync ls')"
    "target \<le> ms_requested_gen (mc_state m')"
    using syncs_left_trace [OF assms(3) inv assms(2)] by auto
  have "syncs_left target m' = 0" if "2 \<le> length (filter is_sync ls')"
    using left(1) that syncs_left_le_2 [of target m] by linarith
  then show ?thesis
    using worker_enabled [OF machine_inv_trace [OF assms(3) inv] left(2)] by (auto simp: syncs_left_0)
qed

definition mc_waiting :: machine where
  "mc_waiting = \<lparr> mc_state = \<lparr> ms_persist_requested = True, ms_shutdown = False, ms_requested_gen = 1,
      ms_persisted_gen = 0, ms_persist_failed = False \<rparr>,
     mc_worker = Waiting, mc_written = 1, mc_flushed = 0, mc_marks = [1] \<rparr>"

lemma run_waiting: "mtrace mc_start [Insert, Request] mc_waiting"
  apply (rule mtrace_run(1), rule mtrace_run(2))
  apply (simp add: mc_start_def ms_default_def request_persist_def mc_waiting_def)
  apply (rule mtrace.mtrace_Nil)
  done

theorem barrier_resolves_witness:
  "wait_blocking 1 (mc_state mc_waiting) = None \<and> (\<exists>l m''. (l = Snapshot \<or> is_sync l) \<and> mstep l mc_waiting m'')"
proof -
  have "wait_blocking 1 (mc_state mc_waiting) = None" by (simp add: mc_waiting_def wait_blocking_def)
  then show ?thesis
    using barrier_resolves [OF run_waiting _ mtrace.mtrace_Nil, of 1] by (simp add: mc_waiting_def)
qed

text \<open>
  Property C39: at shutdown the barrier is not a durability point.  There is a run in which a write
  is inserted and numbered, the store begins to shut down, and the barrier for that write resolves
  without error although nothing has been fsynced.
\<close>

theorem barrier_at_shutdown:
  "\<exists>ls m. mtrace mc_start ls m \<and> ms_requested_gen (mc_state m) = 1
        \<and> wait_blocking 1 (mc_state m) = Some (Inr ()) \<and> mc_flushed m < mc_marks m ! 0"
proof -
  let ?m = "mc_waiting\<lparr> mc_state := (mc_state mc_waiting)\<lparr> ms_shutdown := True \<rparr> \<rparr>"
  have "mtrace mc_start ([Insert, Request] @ [Shutdown]) ?m"
    by (rule mtrace.mtrace_snoc [OF run_waiting mstep.shutdown])
  moreover have "wait_blocking 1 (mc_state ?m) = Some (Inr ())" "mc_flushed ?m < mc_marks ?m ! 0"
    "ms_requested_gen (mc_state ?m) = 1"
    by (simp_all add: mc_waiting_def wait_blocking_def)
  ultimately show ?thesis by blast
qed

end
