(* ===== verification/Store_Rows.thy ===== *)
theory Store_Rows
  imports Wire Maintenance
begin

text \<open>
  The small rows of the relay store, \<^verbatim>\<open>relay/src/storage/db.rs\<close>: last-seen stamps, presence consents,
  presence states and leases, push pseudonyms and pending publishes.  Consents and leases are
  replicated registers ordered by a signed version; what they share is the locale \<^verbatim>\<open>versioned\<close>.
\<close>

section \<open>Versioned registers\<close>

text \<open>
  A keyed register that keeps the record with the highest version.  A write may be refused for
  other reasons (\<^verbatim>\<open>admit\<close>: the store failed, or a cap was reached); then nothing changes.
\<close>

definition newer :: "('v::linorder \<times> 'x) option \<Rightarrow> 'v \<Rightarrow> bool" where
  "newer old v \<longleftrightarrow> (case old of None \<Rightarrow> True | Some (v', _) \<Rightarrow> v' < v)"

definition newest :: "('v::linorder \<times> 'x) option \<Rightarrow> ('v \<times> 'x) list \<Rightarrow> ('v \<times> 'x) option" where
  "newest acc xs = fold (\<lambda>x acc. if newer acc (fst x) then Some x else acc) xs acc"

lemma newest_simps [simp]:
  "newest acc [] = acc"
  "newest acc (x # xs) = newest (if newer acc (fst x) then Some x else acc) xs"
  by (simp_all add: newest_def)

lemma newest_max:
  "newest acc xs = Some r \<Longrightarrow> r \<in> set_option acc \<union> set xs \<and> (\<forall>x \<in> set_option acc \<union> set xs. fst x \<le> fst r)"
proof (induction xs arbitrary: acc)
  case Nil
  then show ?case by auto
next
  case (Cons x xs)
  then have "r \<in> set_option (if newer acc (fst x) then Some x else acc) \<union> set xs"
    "\<forall>y \<in> set_option (if newer acc (fst x) then Some x else acc) \<union> set xs. fst y \<le> fst r" by auto
  then show ?case
    by (cases acc) (auto simp: newer_def split: if_splits)
qed

lemma newest_None: "newest acc xs = None \<longleftrightarrow> acc = None \<and> xs = []"
proof (induction xs arbitrary: acc)
  case (Cons x xs)
  have "(if newer acc (fst x) then Some x else acc) \<noteq> None" by (cases acc) (auto simp: newer_def)
  then show ?case using Cons.IH [of "if newer acc (fst x) then Some x else acc"] by simp
qed simp

lemma newest_iff:
  assumes "inj_on fst (set xs)"
  shows "newest None xs = Some r \<longleftrightarrow> r \<in> set xs \<and> (\<forall>x \<in> set xs. fst x \<le> fst r)"
proof
  assume r: "r \<in> set xs \<and> (\<forall>x \<in> set xs. fst x \<le> fst r)"
  then obtain r' where r': "newest None xs = Some r'"
    by (cases "newest None xs") (auto simp: newest_None)
  have max: "r' \<in> set xs" "\<And>x. x \<in> set xs \<Longrightarrow> fst x \<le> fst r'" using newest_max [OF r'] by simp_all
  have "fst r' = fst r" using max r by (simp add: order_antisym)
  then have "r' = r" using inj_onD [OF assms, of r' r] max(1) r by simp
  then show "newest None xs = Some r" using r' by simp
next
  assume "newest None xs = Some r"
  from newest_max [OF this] show "r \<in> set xs \<and> (\<forall>x \<in> set xs. fst x \<le> fst r)" by simp
qed

text \<open>When versions tell records apart, only the set of records matters.\<close>

lemma newest_order_free:
  assumes "set xs = set ys" "inj_on fst (set_option acc \<union> set xs)"
  shows "newest acc xs = newest acc ys"
proof (cases "newest acc xs")
  case None
  then show ?thesis using assms(1) by (auto simp: newest_None)
next
  case (Some r)
  then obtain r' where r': "newest acc ys = Some r'"
    using assms(1) by (cases "newest acc ys") (auto simp: newest_None)
  have "fst r = fst r'" "r \<in> set_option acc \<union> set xs" "r' \<in> set_option acc \<union> set xs"
    using newest_max [OF Some] newest_max [OF r'] assms(1) by (auto intro: order_antisym)
  then show ?thesis using assms(2) Some r' by (auto dest: inj_onD)
qed

locale versioned =
  fixes look :: "'m \<Rightarrow> 'k \<Rightarrow> ('v::linorder \<times> 'x) option"
    and put :: "'r \<Rightarrow> 'm \<Rightarrow> 'm"
    and key :: "'r \<Rightarrow> 'k" and ver :: "'r \<Rightarrow> 'v" and val :: "'r \<Rightarrow> 'x"
    and admit :: "'r \<Rightarrow> 'm \<Rightarrow> bool" and wf :: "'m \<Rightarrow> bool"
  assumes look_put: "wf m \<Longrightarrow> look (put r m) k =
      (if k = key r \<and> admit r m \<and> newer (look m k) (ver r) then Some (ver r, val r) else look m k)"
    and wf_put: "wf m \<Longrightarrow> wf (put r m)"
begin

lemma wf_puts: "wf m \<Longrightarrow> wf (fold put rs m)"
  by (induction rs arbitrary: m) (auto intro: wf_put)

lemma version_mono:
  "wf m \<Longrightarrow> look m k = Some (v, x) \<Longrightarrow> \<exists>v' x'. look (fold put rs m) k = Some (v', x') \<and> v \<le> v'"
proof (induction rs arbitrary: m v x)
  case (Cons r rs)
  obtain v1 x1 where "look (put r m) k = Some (v1, x1)" "v \<le> v1"
    using look_put [OF Cons.prems(1), of r k] Cons.prems(2)
    by (cases "k = key r \<and> admit r m \<and> v < ver r") (auto simp: newer_def)
  then show ?case using Cons.IH [OF wf_put [OF Cons.prems(1)], of r v1 x1] by fastforce
qed simp

lemma replay: "wf m \<Longrightarrow> look m (key r) = Some (v, x) \<Longrightarrow> ver r \<le> v \<Longrightarrow> look (put r m) k = look m k"
  by (auto simp: look_put newer_def)

lemma look_puts:
  assumes "wf m" "\<And>m r. wf m \<Longrightarrow> r \<in> set rs \<Longrightarrow> admit r m"
  shows "look (fold put rs m) k = newest (look m k) (map (\<lambda>r. (ver r, val r)) (filter (\<lambda>r. key r = k) rs))"
  using assms
proof (induction rs arbitrary: m)
  case (Cons r rs)
  then show ?case using look_put [of m r k] wf_put [of m r] by auto
qed simp

end

section \<open>Constants and encodings\<close>

definition PRESENCE_STATE_TTL_MS :: u64 where "PRESENCE_STATE_TTL_MS = 600000"
definition PRESENCE_VERSION_MAX_LEAD_MS :: u64 where "PRESENCE_VERSION_MAX_LEAD_MS = 60000"
definition MAX_PRESENCE_CONSENT_ROWS :: nat where "MAX_PRESENCE_CONSENT_ROWS = 1000000"

definition be_u64 :: "bytes \<Rightarrow> nat \<Rightarrow> u64 option" where
  "be_u64 val off = map_option u64_of_be (slice val off 8)"

text \<open>The result of a store call: the store failed, or the call's own answer.\<close>

type_synonym 'a io_result = "unit + 'a"

text \<open>One keyspace and the maintenance state that its synced writes notify.\<close>

type_synonym rows = "keyspace \<times> maintenance_state"

text \<open>The two ways a versioned write ends once it is admitted.\<close>

definition stored_true :: "'s \<times> unit io_result \<Rightarrow> 's \<times> bool io_result" where
  "stored_true r = (fst r, map_sum id (\<lambda>_. True) (snd r))"

definition pair_key :: "bytes \<Rightarrow> bytes \<Rightarrow> bytes" where
  "pair_key a b = a @ b"

section \<open>Last seen\<close>

definition put_last_seen :: "fjall_io \<Rightarrow> bytes \<Rightarrow> u64 \<Rightarrow> keyspace \<Rightarrow> keyspace \<times> unit io_result" where
  "put_last_seen fj ipk ts_ms ks =
     (case io_insert fj ipk (u64_be ts_ms) ks of (ks', ok) \<Rightarrow> (ks', if ok then Inr () else Inl ()))"

definition get_last_seen :: "fjall_io \<Rightarrow> keyspace \<Rightarrow> bytes \<Rightarrow> u64 option" where
  "get_last_seen fj ks ipk =
     (case io_get fj ks ipk of
        Some (Some v) \<Rightarrow> if length v = 8 then Some (u64_of_be v) else None
      | _ \<Rightarrow> None)"

section \<open>Presence consents\<close>

definition consent_key :: "presence_consent \<Rightarrow> bytes" where
  "consent_key c = pair_key (pc_owner c) (pc_recipient c)"

definition consent_value :: "presence_consent \<Rightarrow> bytes" where
  "consent_value c = u64_be (pc_version c) @ u64_be (pc_issued_at_ms c) @ [bool_byte (pc_granted c)]"

definition put_presence_consent ::
  "fjall_io \<Rightarrow> (keyspace \<Rightarrow> nat) \<Rightarrow> presence_consent \<Rightarrow> rows \<Rightarrow> rows \<times> bool io_result" where
  "put_presence_consent fj approximate_len c s =
     (case io_get fj (fst s) (consent_key c) of
        None \<Rightarrow> (s, Inl ())
      | Some stored \<Rightarrow>
          if (case stored of None \<Rightarrow> False
              | Some v \<Rightarrow> (case be_u64 v 0 of None \<Rightarrow> False | Some old \<Rightarrow> old \<ge> pc_version c))
          then (s, Inr False)
          else if stored = None \<and> approximate_len (fst s) \<ge> MAX_PRESENCE_CONSENT_ROWS
          then (s, Inr False)
          else stored_true (put_sync fj (consent_key c) (consent_value c) s))"

definition has_presence_consent :: "fjall_io \<Rightarrow> keyspace \<Rightarrow> bytes \<Rightarrow> bytes \<Rightarrow> bool" where
  "has_presence_consent fj ks ipk contact =
     (case io_get fj ks (pair_key ipk contact) of
        Some (Some v) \<Rightarrow> 16 < length v \<and> v ! 16 = 1
      | _ \<Rightarrow> False)"

section \<open>Presence states\<close>

text \<open>\<^verbatim>\<open>presence_state_expired\<close>, which the write path uses as well as the sweep.\<close>

definition presence_state_expired :: "bytes \<Rightarrow> bytes \<Rightarrow> u64 \<Rightarrow> bool" where
  "presence_state_expired key val now_ms =
     (case (case be_u64 val 25 of
              Some dl \<Rightarrow> Some dl
            | None \<Rightarrow> map_option (\<lambda>at. sat_add at PRESENCE_STATE_TTL_MS) (be_u64 val 8)) of
        None \<Rightarrow> True
      | Some deadline \<Rightarrow> now_ms \<ge> deadline)"

definition presence_state_value :: "presence_state \<Rightarrow> u64 \<Rightarrow> u64 \<Rightarrow> u64 \<Rightarrow> bytes" where
  "presence_state_value st version observed_at_ms lease_expires_at_ms =
     u64_be version @ u64_be observed_at_ms @ [fst (state_tag st)] @ u64_be (snd (state_tag st))
     @ u64_be (min lease_expires_at_ms (sat_add observed_at_ms PRESENCE_STATE_TTL_MS))"

definition put_presence_state ::
  "fjall_io \<Rightarrow> bytes \<Rightarrow> bytes \<Rightarrow> presence_state \<Rightarrow> u64 \<Rightarrow> u64 \<Rightarrow> u64 \<Rightarrow> keyspace
   \<Rightarrow> keyspace \<times> bool io_result" where
  "put_presence_state fj recipient contact st version observed_at_ms lease_expires_at_ms ks =
     (if version > sat_add observed_at_ms PRESENCE_VERSION_MAX_LEAD_MS then (ks, Inr False)
      else case io_get fj ks (pair_key recipient contact) of
        None \<Rightarrow> (ks, Inl ())
      | Some stored \<Rightarrow>
          if (case stored of None \<Rightarrow> False
              | Some v \<Rightarrow> \<not> presence_state_expired [] v observed_at_ms
                  \<and> ((case be_u64 v 0 of None \<Rightarrow> False | Some old \<Rightarrow> old \<ge> version)
                     \<or> (case be_u64 v 8 of None \<Rightarrow> False | Some old \<Rightarrow> old \<ge> observed_at_ms)))
          then (ks, Inr False)
          else case io_insert fj (pair_key recipient contact)
                      (presence_state_value st version observed_at_ms lease_expires_at_ms) ks of
                 (ks', True) \<Rightarrow> (ks', Inr True)
               | (ks', False) \<Rightarrow> (ks', Inl ()))"

definition get_presence_state ::
  "fjall_io \<Rightarrow> keyspace \<Rightarrow> bytes \<Rightarrow> bytes \<Rightarrow> u64 \<Rightarrow> presence_state option" where
  "get_presence_state fj ks recipient contact now_ms =
     (case io_get fj ks (pair_key recipient contact) of
        Some (Some v) \<Rightarrow>
          if presence_state_expired [] v now_ms then None
          else (case be_u64 v 17 of
                  None \<Rightarrow> None
                | Some timestamp \<Rightarrow>
                    if v ! 16 = 0 then Some Online
                    else if v ! 16 = 1 then Some (Idle timestamp)
                    else if v ! 16 = 2 then Some (Offline timestamp)
                    else None)
      | _ \<Rightarrow> None)"

section \<open>Presence leases\<close>

text \<open>postcard for a lease is a parameter.\<close>

record lease_serde =
  ser_lease :: "presence_lease \<Rightarrow> bytes option"
  de_lease :: "bytes \<Rightarrow> presence_lease option"

definition lease_serde_ok :: "lease_serde \<Rightarrow> bool" where
  "lease_serde_ok sd \<longleftrightarrow> (\<forall>l b. ser_lease sd l = Some b \<longrightarrow> de_lease sd b = Some l)"

definition put_presence_lease ::
  "fjall_io \<Rightarrow> lease_serde \<Rightarrow> presence_lease \<Rightarrow> rows \<Rightarrow> rows \<times> bool io_result" where
  "put_presence_lease fj sd l s =
     (case io_get fj (fst s) (pl_user l) of
        None \<Rightarrow> (s, Inl ())
      | Some stored \<Rightarrow>
          if (case stored of None \<Rightarrow> False
              | Some v \<Rightarrow> (case de_lease sd v of None \<Rightarrow> False | Some old \<Rightarrow> pl_version old \<ge> pl_version l))
          then (s, Inr False)
          else case ser_lease sd l of
                 None \<Rightarrow> (s, Inr False)
               | Some val \<Rightarrow> stored_true (put_sync fj (pl_user l) val s))"

definition get_presence_lease :: "fjall_io \<Rightarrow> lease_serde \<Rightarrow> keyspace \<Rightarrow> bytes \<Rightarrow> presence_lease option" where
  "get_presence_lease fj sd ks user =
     (case io_get fj ks user of Some (Some v) \<Rightarrow> de_lease sd v | _ \<Rightarrow> None)"

section \<open>Push pseudonyms and pending publishes\<close>

definition put_push_pseudonym ::
  "fjall_io \<Rightarrow> bytes \<Rightarrow> bytes \<Rightarrow> u64 \<Rightarrow> rows \<Rightarrow> rows \<times> unit io_result" where
  "put_push_pseudonym fj ipk pseudonym now_ms s = put_sync fj ipk (pseudonym @ u64_be now_ms) s"

definition get_push_pseudonym :: "fjall_io \<Rightarrow> keyspace \<Rightarrow> bytes \<Rightarrow> bytes option" where
  "get_push_pseudonym fj ks ipk =
     (case io_get fj ks ipk of Some (Some v) \<Rightarrow> slice v 0 32 | _ \<Rightarrow> None)"

text \<open>postcard for a publish is a parameter.\<close>

definition put_pending_push ::
  "fjall_io \<Rightarrow> (push_publish \<Rightarrow> bytes option) \<Rightarrow> push_publish \<Rightarrow> rows \<Rightarrow> rows \<times> unit io_result" where
  "put_pending_push fj ser p s =
     (case ser p of
        None \<Rightarrow> (s, Inr ())
      | Some v \<Rightarrow> put_sync fj (pp_user_ipk p) v s)"

definition remove_pending_push :: "fjall_io \<Rightarrow> bytes \<Rightarrow> rows \<Rightarrow> rows \<times> unit io_result" where
  "remove_pending_push fj ipk s =
     (case io_remove fj ipk (fst s) of
        (ks', True) \<Rightarrow> ((ks', fst (request_persist (snd s))), Inr ())
      | (ks', False) \<Rightarrow> ((ks', snd s), Inl ()))"

definition pending_pushes :: "fjall_io \<Rightarrow> (bytes \<Rightarrow> push_publish option) \<Rightarrow> keyspace \<Rightarrow> push_publish list" where
  "pending_pushes fj de ks =
     List.map_filter (\<lambda>g. case g of Some (_, v) \<Rightarrow> de v | None \<Rightarrow> None) (fj_iter fj ks)"

section \<open>Clearing\<close>

text \<open>
  \<^verbatim>\<open>clear_all\<close>: every keyspace in turn is counted and emptied; a failing count or clear stops there.
  \<^verbatim>\<open>len_ok\<close>, \<^verbatim>\<open>clear_ok\<close> and \<^verbatim>\<open>persist_ok\<close> stand for the package's answers.
\<close>

fun clear_keyspaces ::
  "(keyspace \<Rightarrow> bool) \<Rightarrow> (keyspace \<Rightarrow> bool) \<Rightarrow> keyspace list \<Rightarrow> nat \<Rightarrow> keyspace list \<times> nat io_result" where
  "clear_keyspaces len_ok clear_ok [] n = ([], Inr n)"
| "clear_keyspaces len_ok clear_ok (ks # kss) n =
     (if \<not> len_ok ks \<or> \<not> clear_ok ks then (ks # kss, Inl ())
      else case clear_keyspaces len_ok clear_ok kss (n + length ks) of (kss', r) \<Rightarrow> ([] # kss', r))"

definition clear_all ::
  "(keyspace \<Rightarrow> bool) \<Rightarrow> (keyspace \<Rightarrow> bool) \<Rightarrow> bool \<Rightarrow> keyspace list \<Rightarrow> keyspace list \<times> nat io_result" where
  "clear_all len_ok clear_ok persist_ok kss =
     (case clear_keyspaces len_ok clear_ok kss 0 of
        (kss', Inr n) \<Rightarrow> (kss', if persist_ok then Inr n else Inl ())
      | (kss', Inl e) \<Rightarrow> (kss', Inl e))"

section \<open>Rows read back\<close>

lemma be_u64_append: "off = length a \<Longrightarrow> be_u64 (a @ u64_be w @ b) off = Some w"
  by (simp add: be_u64_def slice_def)

lemma consent_value_version: "be_u64 (consent_value c) 0 = Some (pc_version c)"
  using be_u64_append [of 0 "[]" "pc_version c"] by (simp add: consent_value_def)

lemma consent_value_granted: "consent_value c ! 16 = bool_byte (pc_granted c)" "length (consent_value c) = 17"
  by (simp_all add: consent_value_def nth_append)

lemma presence_state_value_fields:
  "be_u64 (presence_state_value st v ob ex) 0 = Some v"
  "be_u64 (presence_state_value st v ob ex) 8 = Some ob"
  "be_u64 (presence_state_value st v ob ex) 17 = Some (snd (state_tag st))"
  "be_u64 (presence_state_value st v ob ex) 25 = Some (min ex (sat_add ob PRESENCE_STATE_TTL_MS))"
  "presence_state_value st v ob ex ! 16 = fst (state_tag st)"
  by (simp_all add: presence_state_value_def be_u64_def slice_def nth_append)

section \<open>Consents and leases are versioned registers\<close>

definition consent_look :: "rows \<Rightarrow> bytes \<Rightarrow> (u64 \<times> bytes) option" where
  "consent_look s k =
     (case ks_get (fst s) k of None \<Rightarrow> None | Some v \<Rightarrow> map_option (\<lambda>ver. (ver, v)) (be_u64 v 0))"

definition consent_admit :: "fjall_io \<Rightarrow> (keyspace \<Rightarrow> nat) \<Rightarrow> presence_consent \<Rightarrow> rows \<Rightarrow> bool" where
  "consent_admit fj approximate_len c s \<longleftrightarrow>
     fj_get_ok fj (fst s) (consent_key c) \<and> fj_insert_ok fj (fst s) (consent_key c) (consent_value c)
     \<and> (ks_get (fst s) (consent_key c) \<noteq> None \<or> approximate_len (fst s) < MAX_PRESENCE_CONSENT_ROWS)"

lemma put_presence_consent_state:
  "fst (put_presence_consent fj al c s) =
     (if consent_admit fj al c s \<and> newer (consent_look s (consent_key c)) (pc_version c)
      then (ks_insert (consent_key c) (consent_value c) (fst s), fst (request_persist (snd s))) else s)"
  by (cases s) (auto simp: put_presence_consent_def consent_admit_def consent_look_def newer_def io_get_def
      stored_true_def put_sync_def io_insert_def not_le split: option.splits)

interpretation consent: versioned consent_look "\<lambda>c s. fst (put_presence_consent fj al c s)" consent_key
  pc_version consent_value "consent_admit fj al" "\<lambda>s. ks_wf (fst s)" for fj al
  by unfold_locales
    (auto simp: put_presence_consent_state ks_wf_insert consent_look_def ks_get_insert consent_value_version)

definition lease_look :: "lease_serde \<Rightarrow> rows \<Rightarrow> bytes \<Rightarrow> (u64 \<times> presence_lease) option" where
  "lease_look sd s k =
     (case ks_get (fst s) k of None \<Rightarrow> None | Some v \<Rightarrow> map_option (\<lambda>l. (pl_version l, l)) (de_lease sd v))"

definition lease_admit :: "fjall_io \<Rightarrow> lease_serde \<Rightarrow> presence_lease \<Rightarrow> rows \<Rightarrow> bool" where
  "lease_admit fj sd l s \<longleftrightarrow>
     fj_get_ok fj (fst s) (pl_user l)
     \<and> (case ser_lease sd l of None \<Rightarrow> False | Some v \<Rightarrow> fj_insert_ok fj (fst s) (pl_user l) v)"

lemma put_presence_lease_state:
  "fst (put_presence_lease fj sd l s) =
     (if lease_admit fj sd l s \<and> newer (lease_look sd s (pl_user l)) (pl_version l)
      then (ks_insert (pl_user l) (the (ser_lease sd l)) (fst s), fst (request_persist (snd s))) else s)"
  by (cases s) (auto simp: put_presence_lease_def lease_admit_def lease_look_def newer_def io_get_def
      stored_true_def put_sync_def io_insert_def not_le split: option.splits)

interpretation lease: versioned "lease_look sd" "\<lambda>l s. fst (put_presence_lease fj sd l s)" pl_user
  pl_version "\<lambda>l. l" "lease_admit fj sd" "\<lambda>s. lease_serde_ok sd \<and> ks_wf (fst s)" for fj sd
  by unfold_locales
    (auto simp: put_presence_lease_state ks_wf_insert lease_look_def ks_get_insert lease_admit_def
       lease_serde_ok_def split: option.splits)

section \<open>Properties\<close>

lemma has_presence_consent_look:
  "has_presence_consent healthy_io (fst s) a b \<longleftrightarrow>
     (\<exists>ver v. consent_look s (pair_key a b) = Some (ver, v) \<and> 16 < length v \<and> v ! 16 = 1)"
  by (auto simp: has_presence_consent_def consent_look_def io_get_def be_u64_def slice_def split: option.splits)

definition replay_consents :: "(keyspace \<Rightarrow> nat) \<Rightarrow> presence_consent list \<Rightarrow> rows" where
  "replay_consents approximate_len cs =
     fold (\<lambda>c s. fst (put_presence_consent healthy_io approximate_len c s)) cs ([], ms_default)"

lemma look_replay_consents:
  assumes "\<And>ks. al ks < MAX_PRESENCE_CONSENT_ROWS"
  shows "consent_look (replay_consents al cs) k =
         newest None (map (\<lambda>c. (pc_version c, consent_value c)) (filter (\<lambda>c. consent_key c = k) cs))"
proof -
  have "consent_look (fold (\<lambda>c s. fst (put_presence_consent healthy_io al c s)) cs ([], ms_default)) k
        = newest (consent_look ([], ms_default) k)
            (map (\<lambda>c. (pc_version c, consent_value c)) (filter (\<lambda>c. consent_key c = k) cs))"
    by (rule consent.look_puts) (simp_all add: consent_admit_def assms)
  then show ?thesis by (simp add: replay_consents_def consent_look_def ks_get_def)
qed


definition demo_consent :: "u64 \<Rightarrow> bool \<Rightarrow> presence_consent" where
  "demo_consent v g = \<lparr> pc_owner = replicate 32 1, pc_recipient = replicate 32 2, pc_version = v,
                       pc_issued_at_ms = v, pc_granted = g, pc_user_sig = [] \<rparr>"


text \<open>
  Property C28: presence states.  A state that is taken reads back exactly until the earlier of the
  lease's end and ten minutes after the observation, and from then on reads as absent; a refused
  write changes nothing; its version led its observation by at most a minute; and no signed state,
  whatever version it carries, can hold the slot: ten minutes after its observation any later
  well-timed observation is taken.
\<close>

theorem presence_state_bounded:
  assumes "ks_wf ks" and "put_presence_state fj r c st v ob ex ks = (ks', res)"
  shows "(res \<noteq> Inr True \<longrightarrow> ks' = ks)
       \<and> (res = Inr True \<longrightarrow>
            v \<le> sat_add ob PRESENCE_VERSION_MAX_LEAD_MS
            \<and> (\<forall>now. get_presence_state healthy_io ks' r c now =
                 (if now < min ex (sat_add ob PRESENCE_STATE_TTL_MS) then Some st else None))
            \<and> (\<forall>st' v' ob' ex'. sat_add ob PRESENCE_STATE_TTL_MS \<le> ob' \<and> v' \<le> sat_add ob' PRESENCE_VERSION_MAX_LEAD_MS
                 \<longrightarrow> snd (put_presence_state healthy_io r c st' v' ob' ex' ks') = Inr True))"
proof (cases "res = Inr True")
  case False
  then show ?thesis using assms(2)
    by (auto simp: put_presence_state_def io_insert_def split: if_splits option.splits)
next
  case True
  have ks': "ks' = ks_insert (pair_key r c) (presence_state_value st v ob ex) ks"
    and lead: "v \<le> sat_add ob PRESENCE_VERSION_MAX_LEAD_MS"
    using True assms(2) by (auto simp: put_presence_state_def io_insert_def split: if_splits option.splits)
  have row: "ks_get ks' (pair_key r c) = Some (presence_state_value st v ob ex)"
    using assms(1) by (simp add: ks' ks_get_insert)
  have expired: "presence_state_expired [] (presence_state_value st v ob ex) t
      \<longleftrightarrow> min ex (sat_add ob PRESENCE_STATE_TTL_MS) \<le> t" for t
    by (simp add: presence_state_expired_def presence_state_value_fields)
  have "get_presence_state healthy_io ks' r c now =
      (if now < min ex (sat_add ob PRESENCE_STATE_TTL_MS) then Some st else None)" for now
    by (simp add: get_presence_state_def io_get_def row expired presence_state_value_fields not_le not_less)
      (cases st; auto simp: min_def split: if_splits)
  moreover have "snd (put_presence_state healthy_io r c st' v' ob' ex' ks') = Inr True"
    if "sat_add ob PRESENCE_STATE_TTL_MS \<le> ob'" "v' \<le> sat_add ob' PRESENCE_VERSION_MAX_LEAD_MS" for st' v' ob' ex'
    using that by (auto simp: put_presence_state_def io_get_def io_insert_def row expired min_le_iff_disj not_less)
  ultimately show ?thesis using True lead by blast
qed

theorem presence_state_bounded_witness:
  "get_presence_state healthy_io
     (fst (put_presence_state healthy_io [1] [2] (Idle 7) 5000 5000 9000 [])) [1] [2] 8999 = Some (Idle 7)
   \<and> get_presence_state healthy_io
     (fst (put_presence_state healthy_io [1] [2] (Idle 7) 5000 5000 9000 [])) [1] [2] 9000 = None"
proof -
  have "snd (put_presence_state healthy_io [1] [2] (Idle 7) 5000 5000 9000 []) = Inr True"
    by (simp add: put_presence_state_def io_get_def io_insert_def ks_get_def sat_add_def
        PRESENCE_VERSION_MAX_LEAD_MS_def)
  then have "put_presence_state healthy_io [1] [2] (Idle 7) 5000 5000 9000 []
      = (fst (put_presence_state healthy_io [1] [2] (Idle 7) 5000 5000 9000 []), Inr True)"
    by (simp add: prod_eq_iff)
  from presence_state_bounded [OF ks_wf_Nil this] show ?thesis
    by (simp add: sat_add_def PRESENCE_STATE_TTL_MS_def)
qed

end
