(* ===== verification/Sweep.thy ===== *)
theory Sweep
  imports Store_Rows
begin

text \<open>
  The expiry sweep of the relay store (\<^verbatim>\<open>relay/src/storage/db.rs\<close>): which rows have expired, one
  bounded pass over a keyspace, and what repeated passes leave.
\<close>

section \<open>Expiry\<close>

definition IDLE_IDENTITY_TTL_MS :: u64 where "IDLE_IDENTITY_TTL_MS = 90 * 24 * 60 * 60 * 1000"
definition QUEUED_MESSAGE_TTL_MS :: u64 where "QUEUED_MESSAGE_TTL_MS = 30 * 24 * 60 * 60 * 1000"
definition MAX_SWEEP_SCAN :: nat where "MAX_SWEEP_SCAN = 65536"
definition MAX_SWEEP_REMOVALS :: nat where "MAX_SWEEP_REMOVALS = 4096"

type_synonym expiry_fn = "bytes \<Rightarrow> bytes \<Rightarrow> u64 \<Rightarrow> bool"

definition queued_message_expired :: expiry_fn where
  "queued_message_expired key val now_ms =
     (case be_u64 key 32 of None \<Rightarrow> True
      | Some accepted_at \<Rightarrow> sat_sub now_ms accepted_at > QUEUED_MESSAGE_TTL_MS)"

definition last_seen_expired :: expiry_fn where
  "last_seen_expired key val now_ms =
     (case be_u64 val 0 of None \<Rightarrow> True | Some ts \<Rightarrow> sat_sub now_ms ts > IDLE_IDENTITY_TTL_MS)"

definition presence_consent_expired :: expiry_fn where
  "presence_consent_expired key val now_ms =
     (case be_u64 val 8 of None \<Rightarrow> True
      | Some issued_at \<Rightarrow> sat_sub now_ms issued_at > IDLE_IDENTITY_TTL_MS)"

definition presence_lease_expired :: "lease_serde \<Rightarrow> expiry_fn" where
  "presence_lease_expired sd key val now_ms =
     (case de_lease sd val of None \<Rightarrow> True | Some lease \<Rightarrow> now_ms > pl_expires_at_ms lease)"

definition push_pseudonym_expired :: expiry_fn where
  "push_pseudonym_expired key val now_ms =
     (case be_u64 val 32 of None \<Rightarrow> False
      | Some refreshed_at \<Rightarrow> sat_sub now_ms refreshed_at > IDLE_IDENTITY_TTL_MS)"

section \<open>One pass\<close>

text \<open>
  The rows after the cursor.  The package's range scan is the parameter \<^verbatim>\<open>range\<close>, which yields those
  rows or errors in their place.
\<close>

definition ks_after :: "keyspace \<Rightarrow> bytes option \<Rightarrow> keyspace" where
  "ks_after ks start = (case start of None \<Rightarrow> ks | Some c \<Rightarrow> filter (\<lambda>(k, v). c < k) ks)"

type_synonym range_io = "keyspace \<Rightarrow> bytes option \<Rightarrow> (bytes \<times> bytes) option list"

definition range_sound :: "range_io \<Rightarrow> bool" where
  "range_sound rng \<longleftrightarrow> (\<forall>ks c. ks_wf ks \<longrightarrow> reads_rows (ks_after ks c) (rng ks c))"

definition healthy_range :: range_io where
  "healthy_range ks c = map Some (ks_after ks c)"

text \<open>The scan of \<^verbatim>\<open>sweep\<close>: a read error ends it without a place to resume.\<close>

fun sweep_scan ::
  "(bytes \<Rightarrow> bytes \<Rightarrow> bool) \<Rightarrow> (bytes \<times> bytes) option list \<Rightarrow> nat \<Rightarrow> bytes list \<Rightarrow> bytes list \<times> bytes option" where
  "sweep_scan expired [] scanned dead = (dead, None)"
| "sweep_scan expired (None # gs) scanned dead = (dead, None)"
| "sweep_scan expired (Some (key, val) # gs) scanned dead =
     (let dead' = (if expired key val then dead @ [key] else dead) in
      if scanned + 1 \<ge> MAX_SWEEP_SCAN \<or> length dead' \<ge> MAX_SWEEP_REMOVALS then (dead', Some key)
      else sweep_scan expired gs (scanned + 1) dead')"

definition sweep ::
  "fjall_io \<Rightarrow> range_io \<Rightarrow> expiry_fn \<Rightarrow> u64 \<Rightarrow> keyspace \<times> bytes option \<Rightarrow> keyspace \<times> bytes option" where
  "sweep fj rng expired now_ms target =
     (case target of (ks, cursor) \<Rightarrow>
        case sweep_scan (\<lambda>k v. expired k v now_ms) (rng ks cursor) 0 [] of
          (dead, resume) \<Rightarrow> (fst (io_removes fj dead ks), resume))"

section \<open>What a scan marks\<close>

lemma sweep_scan_dead:
  "reads_rows rows gs \<Longrightarrow> k \<in> set (fst (sweep_scan ex gs n dead)) \<Longrightarrow> k \<in> set dead \<or> (\<exists>v. (k, v) \<in> set rows \<and> ex k v)"
proof (induction ex gs n dead arbitrary: rows rule: sweep_scan.induct)
  case (3 ex key val gs n dead)
  obtain rs where rows: "rows = (key, val) # rs" "reads_rows rs gs" using 3 by auto
  define dead' where "dead' = (if ex key val then dead @ [key] else dead)"
  have "k \<in> set dead' \<or> (\<exists>v. (k, v) \<in> set rs \<and> ex k v)"
    using "3.IH" [OF dead'_def _ rows(2)] "3.prems"(2)
    by (cases "n + 1 \<ge> MAX_SWEEP_SCAN \<or> length dead' \<ge> MAX_SWEEP_REMOVALS") (auto simp: dead'_def [symmetric])
  then show ?case using rows(1) by (auto simp: dead'_def split: if_splits)
qed auto

text \<open>On a scan without errors: a prefix of the rows was looked at, long enough unless it is all.\<close>

definition scan_result ::
  "(bytes \<Rightarrow> bytes \<Rightarrow> bool) \<Rightarrow> keyspace \<Rightarrow> nat \<Rightarrow> bytes list \<Rightarrow> bytes list \<times> bytes option \<Rightarrow> keyspace \<Rightarrow> keyspace \<Rightarrow> bool" where
  "scan_result ex b n dead res t r \<longleftrightarrow>
     b = t @ r \<and> fst res = dead @ map fst (filter (\<lambda>(k, v). ex k v) t)
     \<and> (case snd res of
          None \<Rightarrow> r = []
        | Some k \<Rightarrow> t \<noteq> [] \<and> k = fst (last t)
            \<and> (MAX_SWEEP_SCAN \<le> n + length t \<or> MAX_SWEEP_REMOVALS \<le> length dead + length t))"

lemma scan_result_Cons:
  assumes "scan_result ex b (n + 1) (if ex key val then dead @ [key] else dead) res t r"
  shows "scan_result ex ((key, val) # b) n dead res ((key, val) # t) r"
  using assms by (auto simp: scan_result_def split: option.splits if_splits)

lemma sweep_scan_prefix: "\<exists>t r. scan_result ex b n dead (sweep_scan ex (map Some b) n dead) t r"
proof (induction b arbitrary: n dead)
  case Nil
  show ?case by (simp add: scan_result_def)
next
  case (Cons x b)
  obtain key val where x: "x = (key, val)" by (cases x)
  define dead' where "dead' = (if ex key val then dead @ [key] else dead)"
  show ?case
  proof (cases "n + 1 \<ge> MAX_SWEEP_SCAN \<or> length dead' \<ge> MAX_SWEEP_REMOVALS")
    case True
    then have step: "sweep_scan ex (map Some (x # b)) n dead = (dead', Some key)"
      by (simp add: x dead'_def [symmetric])
    have "scan_result ex (x # b) n dead (dead', Some key) [x] b"
      using True by (auto simp: scan_result_def x dead'_def split: if_splits)
    then show ?thesis unfolding step by blast
  next
    case False
    then have step: "sweep_scan ex (map Some (x # b)) n dead = sweep_scan ex (map Some b) (n + 1) dead'"
      by (simp add: x dead'_def [symmetric])
    then show ?thesis
      using Cons.IH [of "n + 1" dead'] scan_result_Cons [of ex b n key val dead, folded dead'_def x]
      unfolding step by blast
  qed
qed

section \<open>What repeated passes leave\<close>

text \<open>
  A pass in the middle of a cycle: \<^verbatim>\<open>a\<close> has been swept, \<^verbatim>\<open>b\<close> lies after the cursor.
\<close>

definition mid_cycle :: "keyspace \<Rightarrow> keyspace \<Rightarrow> bytes option \<Rightarrow> bool" where
  "mid_cycle a b cursor \<longleftrightarrow> ks_wf (a @ b) \<and>
     (case cursor of None \<Rightarrow> a = [] | Some c \<Rightarrow> (\<forall>x \<in> set a. fst x \<le> c) \<and> (\<forall>x \<in> set b. c < fst x))"

lemma ks_after_mid:
  assumes "mid_cycle a b cursor"
  shows "ks_after (a @ b) cursor = b"
proof (cases cursor)
  case None
  then show ?thesis using assms by (simp add: mid_cycle_def ks_after_def)
next
  case (Some c)
  then have "filter (\<lambda>(k, v). c < k) a = []" "filter (\<lambda>(k, v). c < k) b = b"
    using assms by (force simp: mid_cycle_def filter_empty_conv filter_id_conv not_less)+
  then show ?thesis by (simp add: Some ks_after_def)
qed

lemma ks_wf_append:
  "ks_wf (a @ b) \<longleftrightarrow> ks_wf a \<and> ks_wf b \<and> (\<forall>x \<in> set a. \<forall>y \<in> set b. fst x < fst y)"
  by (auto simp: ks_wf_def sorted_wrt_append)

lemma removes_expired:
  assumes "ks_wf (a @ t @ r)"
  shows "fold ks_remove (map fst (filter (\<lambda>(k, v). ex k v) t)) (a @ t @ r) = a @ filter (\<lambda>(k, v). \<not> ex k v) t @ r"
proof -
  let ?dead = "fst ` {x \<in> set t. case x of (k, v) \<Rightarrow> ex k v}"
  have dist: "distinct (map fst t)" using assms ks_wf_distinct by (auto simp: ks_wf_append)
  have "filter (\<lambda>x. fst x \<notin> ?dead) a = a" "filter (\<lambda>x. fst x \<notin> ?dead) r = r"
    using assms by (force simp: ks_wf_append filter_id_conv)+
  moreover have "filter (\<lambda>x. fst x \<notin> ?dead) t = filter (\<lambda>(k, v). \<not> ex k v) t"
    by (rule filter_cong [OF refl]) (use dist in \<open>auto simp: distinct_map inj_on_def\<close>)
  ultimately show ?thesis by (simp add: ks_removes_filter)
qed

lemma ks_wf_last: "ks_wf t \<Longrightarrow> x \<in> set t \<Longrightarrow> fst x \<le> fst (last t)"
  by (induction t rule: rev_induct) (auto simp: ks_wf_append intro: less_imp_le)

lemma sweep_mid:
  assumes "mid_cycle a b cursor" "(ks', resume) = sweep healthy_io healthy_range expired now (a @ b, cursor)"
  obtains t r where "b = t @ r" "ks' = (a @ filter (\<lambda>(k, v). \<not> expired k v now) t) @ r"
    "resume = None \<longrightarrow> r = []"
    "resume \<noteq> None \<longrightarrow> mid_cycle (a @ filter (\<lambda>(k, v). \<not> expired k v now) t) r resume
        \<and> MAX_SWEEP_REMOVALS \<le> length t"
proof -
  let ?ex = "\<lambda>k v. expired k v now" and ?live = "filter (\<lambda>(k, v). \<not> expired k v now)"
  obtain t r where tr: "scan_result ?ex b 0 [] (sweep_scan ?ex (map Some b) 0 []) t r"
    using sweep_scan_prefix by blast
  have b: "b = t @ r" and wf: "ks_wf (a @ t @ r)"
    using tr assms(1) by (auto simp: scan_result_def mid_cycle_def)
  have sw: "sweep healthy_io healthy_range expired now (a @ b, cursor) =
      (fold ks_remove (fst (sweep_scan ?ex (map Some b) 0 [])) (a @ b), snd (sweep_scan ?ex (map Some b) 0 []))"
    by (simp add: sweep_def healthy_range_def ks_after_mid [OF assms(1)] io_removes_healthy split_def)
  have dead: "fst (sweep_scan ?ex (map Some b) 0 []) = map fst (filter (\<lambda>(k, v). ?ex k v) t)"
    using tr unfolding scan_result_def append_Nil by blast
  have resume: "resume = snd (sweep_scan ?ex (map Some b) 0 [])" using assms(2) sw by simp
  have ks': "ks' = (a @ ?live t) @ r"
    using assms(2) removes_expired [OF wf, of ?ex] unfolding sw dead by (simp add: b)
  have "mid_cycle (a @ ?live t) r resume \<and> MAX_SWEEP_REMOVALS \<le> length t" if some: "resume \<noteq> None"
  proof -
    obtain c where c: "resume = Some c" using some by blast
    have t: "t \<noteq> []" "c = fst (last t)" "MAX_SWEEP_SCAN \<le> length t \<or> MAX_SWEEP_REMOVALS \<le> length t"
      using tr c resume by (auto simp: scan_result_def)
    have wt: "ks_wf t" and at: "\<forall>x \<in> set a. \<forall>y \<in> set t. fst x < fst y" and tr': "\<forall>x \<in> set t. \<forall>y \<in> set r. fst x < fst y"
      using wf by (auto simp: ks_wf_append)
    have "fst x \<le> c" if "x \<in> set a" for x
      using at that last_in_set [OF t(1)] t(2) by (simp add: less_imp_le)
    then have "\<forall>x \<in> set (a @ ?live t). fst x \<le> c" using ks_wf_last [OF wt] t(2) by auto
    moreover have "ks_wf ((a @ ?live t) @ r)" using wf by (auto simp: ks_wf_append ks_wf_filter)
    ultimately show ?thesis using c t tr' by (auto simp: mid_cycle_def MAX_SWEEP_SCAN_def MAX_SWEEP_REMOVALS_def)
  qed
  moreover have "resume = None \<longrightarrow> r = []"
    using tr unfolding scan_result_def resume [symmetric] by (cases resume) simp_all
  ultimately show thesis using that [OF b ks'] by blast
qed

lemma sweep_cycle:
  assumes "mid_cycle a b cursor"
  shows "\<exists>n \<le> length b div MAX_SWEEP_REMOVALS.
           (sweep healthy_io healthy_range expired now ^^ Suc n) (a @ b, cursor)
           = (a @ filter (\<lambda>(k, v). \<not> expired k v now) b, None)"
  using assms
proof (induction "length b" arbitrary: a b cursor rule: less_induct)
  case less
  let ?sweep = "sweep healthy_io healthy_range expired now" and ?live = "filter (\<lambda>(k, v). \<not> expired k v now)"
  obtain ks' resume where pass: "(ks', resume) = ?sweep (a @ b, cursor)" by (metis prod.exhaust)
  from sweep_mid [OF less.prems pass] obtain t r where tr: "b = t @ r" "ks' = (a @ ?live t) @ r"
    "resume = None \<longrightarrow> r = []"
    "resume \<noteq> None \<longrightarrow> mid_cycle (a @ ?live t) r resume \<and> MAX_SWEEP_REMOVALS \<le> length t" .
  show ?case
  proof (cases "resume = None")
    case True
    then have "(?sweep ^^ Suc 0) (a @ b, cursor) = (a @ ?live b, None)" using tr pass by simp
    then show ?thesis by blast
  next
    case False
    then have t: "MAX_SWEEP_REMOVALS \<le> length t" and mid: "mid_cycle (a @ ?live t) r resume" using tr(4) by simp_all
    have "0 < length t" using t unfolding MAX_SWEEP_REMOVALS_def by linarith
    then have "length r < length b" by (simp add: tr(1))
    from less.hyps [OF this mid] obtain n where n: "n \<le> length r div MAX_SWEEP_REMOVALS"
      "(?sweep ^^ Suc n) ((a @ ?live t) @ r, resume) = ((a @ ?live t) @ ?live r, None)" by blast
    have "(?sweep ^^ Suc (Suc n)) (a @ b, cursor) = (?sweep ^^ Suc n) (?sweep (a @ b, cursor))"
      by (simp add: funpow_swap1)
    then have "(?sweep ^^ Suc (Suc n)) (a @ b, cursor) = (a @ ?live b, None)"
      using n(2) pass tr(1,2) by (metis append.assoc filter_append)
    moreover
    have "Suc (length r div MAX_SWEEP_REMOVALS) \<le> length b div MAX_SWEEP_REMOVALS"
      using div_le_mono [of "MAX_SWEEP_REMOVALS + length r" "length b" MAX_SWEEP_REMOVALS] t
      by (simp add: tr(1) MAX_SWEEP_REMOVALS_def)
    then have "Suc n \<le> length b div MAX_SWEEP_REMOVALS" using n(1) by linarith
    ultimately show ?thesis by (intro exI [of _ "Suc n"] conjI)
  qed
qed

lemma sweep_sound: "ks_wf ks \<Longrightarrow> ks_wf (fst (sweep fj rng expired now (ks, cursor)))"
  "set (fst (sweep fj rng expired now (ks, cursor))) \<subseteq> set ks"
  using ks_wf_io_removes set_io_removes(1) by (auto simp: sweep_def split_def)

lemma sweep_removed:
  assumes "ks_wf ks" "range_sound rng" "(k, v) \<in> set ks"
    "(k, v) \<notin> set (fst (sweep fj rng expired now (ks, cursor)))"
  shows "expired k v now"
proof -
  have "k \<in> set (fst (sweep_scan (\<lambda>k v. expired k v now) (rng ks cursor) 0 []))"
    using assms(3,4) set_io_removes(2) [of ks _ fj] by (fastforce simp: sweep_def split_def)
  then obtain v' where v': "(k, v') \<in> set (ks_after ks cursor)" "expired k v' now"
    using assms(1,2) sweep_scan_dead [of "ks_after ks cursor" "rng ks cursor" k] by (force simp: range_sound_def)
  from v'(1) have "(k, v') \<in> set ks" by (auto simp: ks_after_def split: option.splits)
  then have "v' = v"
    using assms(3) ks_get_mem [OF assms(1), of k v] ks_get_mem [OF assms(1), of k v'] by simp
  then show ?thesis using v'(2) by simp
qed

section \<open>Properties\<close>

text \<open>
  Property C25: the sweep.  Whatever the store answers, a pass removes expired rows only and adds
  none.  On a store that works, a cycle of passes started at the first row ends: after at most one
  pass for every 4096 rows, and one more, the keyspace holds exactly the rows that had not expired,
  in their order, and the cursor is back at the start.
\<close>

theorem sweep_keeps_live_rows:
  assumes "ks_wf ks" "range_sound rng"
  shows "(\<forall>cursor. let ks' = fst (sweep fj rng expired now (ks, cursor)) in
            ks_wf ks' \<and> set ks' \<subseteq> set ks \<and> (\<forall>(k, v) \<in> set ks - set ks'. expired k v now))
       \<and> (\<exists>n \<le> length ks div MAX_SWEEP_REMOVALS.
            (sweep healthy_io healthy_range expired now ^^ Suc n) (ks, None)
            = (filter (\<lambda>(k, v). \<not> expired k v now) ks, None))"
  using sweep_sound(1) [OF assms(1), of fj rng expired now] sweep_sound(2) [of fj rng expired now ks] sweep_removed [OF assms, of _ _ fj expired now]
    sweep_cycle [of "[]" ks None expired now] assms(1)
  by (auto simp: Let_def mid_cycle_def)

definition demo_rows :: keyspace where
  "demo_rows = [([1], u64_be 100), ([2], u64_be 9000000000), ([3], [])]"

theorem sweep_keeps_live_rows_witness:
  "fst (sweep healthy_io healthy_range last_seen_expired 9000000001 (demo_rows, None)) = [([2], u64_be 9000000000)]
   \<and> (\<exists>n \<le> 0. (sweep healthy_io healthy_range last_seen_expired 9000000001 ^^ Suc n) (demo_rows, None)
        = ([([2], u64_be 9000000000)], None))"
proof -
  have wf: "ks_wf demo_rows" by (simp add: demo_rows_def ks_wf_def)
  have rng: "range_sound healthy_range" by (simp add: range_sound_def healthy_range_def)
  have live: "filter (\<lambda>(k, v). \<not> last_seen_expired k v 9000000001) demo_rows = [([2], u64_be 9000000000)]"
    using be_u64_append [of 0 "[]" 100 "[]"] be_u64_append [of 0 "[]" 9000000000 "[]"]
    by (simp add: demo_rows_def last_seen_expired_def sat_sub_def IDLE_IDENTITY_TTL_MS_def)
      (simp add: be_u64_def slice_def)
  have small: "length demo_rows div MAX_SWEEP_REMOVALS = 0"
    by (simp add: demo_rows_def MAX_SWEEP_REMOVALS_def)
  have ex: "\<exists>n \<le> 0. (sweep healthy_io healthy_range last_seen_expired 9000000001 ^^ Suc n) (demo_rows, None)
        = ([([2], u64_be 9000000000)], None)"
    using sweep_keeps_live_rows [OF wf rng, of healthy_io last_seen_expired 9000000001] unfolding live small by blast
  then show ?thesis by simp
qed

end
