(* ===== verification/KeyPackages.thy ===== *)
theory KeyPackages
  imports Homes Sweep Mls_Wire
begin

text \<open>
  KeyPackage custody at a home relay: the store of \<^verbatim>\<open>relay/src/storage/key_packages.rs\<close> and the two
  requests of \<^verbatim>\<open>relay/src/dht/mls/kp.rs\<close> with their shared admission (\<^verbatim>\<open>dht/mls/mod.rs\<close>).  A package
  is handed out once; what was handed out is remembered as a spent marker until it expires.
\<close>

section \<open>The store\<close>

datatype kp_error = Conflict | Full | Invalid | Storage

record kp_store =
  kp_records :: keyspace
  kp_spent :: keyspace

text \<open>
  The packages the store relies on: postcard for a record, fjall, and whether the commit that would
  produce a given store succeeds (a batch is atomic).
\<close>

record kp_env =
  ke_crypto :: crypto
  ke_ser :: "kp_record \<Rightarrow> bytes option"
  ke_de :: "bytes \<Rightarrow> kp_record option"
  ke_io :: fjall_io
  ke_range :: range_io
  ke_commit :: "kp_store \<Rightarrow> bool"

definition kp_key :: "kp_env \<Rightarrow> bytes \<Rightarrow> bytes \<Rightarrow> kp_error + bytes" where
  "kp_key e ipk reference =
     (if length reference = 32 then Inr (key_package_stash_prefix (ke_crypto e) ipk @ reference) else Inl Invalid)"

fun entries_scan ::
  "kp_env \<Rightarrow> bytes \<Rightarrow> (bytes \<times> bytes) option list \<Rightarrow> (bytes \<times> kp_record) list
   \<Rightarrow> kp_error + (bytes \<times> kp_record) list" where
  "entries_scan e ipk [] acc = Inr acc"
| "entries_scan e ipk (None # gs) acc = Inl Storage"
| "entries_scan e ipk (Some (key, val) # gs) acc =
     (if length key \<noteq> 64 then Inl Invalid
      else case ke_de e val of
        None \<Rightarrow> Inl Invalid
      | Some r \<Rightarrow>
          if kr_ipk r \<noteq> ipk then Inl Invalid
          else case kp_key e ipk (kr_kp_ref r) of
            Inl err \<Rightarrow> Inl err
          | Inr k \<Rightarrow>
              if k \<noteq> key then Inl Invalid
              else let acc' = ks_insert key r acc in
                   if length acc' > KP_STASH_TARGET then Inl Full else entries_scan e ipk gs acc')"

definition kp_entries :: "kp_env \<Rightarrow> kp_store \<Rightarrow> bytes \<Rightarrow> kp_error + (bytes \<times> kp_record) list" where
  "kp_entries e st ipk =
     entries_scan e ipk (fj_prefix (ke_io e) (kp_records st) (key_package_stash_prefix (ke_crypto e) ipk)) []"

fun publish_scan ::
  "kp_env \<Rightarrow> bytes \<Rightarrow> keyspace \<Rightarrow> (bytes \<times> kp_record) list \<Rightarrow> kp_record list \<Rightarrow> (bytes \<times> kp_record) list
   \<Rightarrow> kp_error + (bytes \<times> kp_record) list" where
  "publish_scan e ipk spent existing [] final = Inr final"
| "publish_scan e ipk spent existing (r # rs) final =
     (if kr_ipk r \<noteq> ipk then Inl Invalid
      else case kp_key e ipk (kr_kp_ref r) of
        Inl err \<Rightarrow> Inl err
      | Inr key \<Rightarrow>
          (case ke_ser e r of
             None \<Rightarrow> Inl Invalid
           | Some bs \<Rightarrow>
               (case io_get (ke_io e) spent key of
                  None \<Rightarrow> Inl Storage
                | Some (Some m) \<Rightarrow>
                    if length m \<noteq> 40 then Inl Invalid
                    else if drop 8 m \<noteq> node_id_new (ke_crypto e) bs then Inl Conflict
                    else publish_scan e ipk spent existing rs final
                | Some None \<Rightarrow>
                    if (case ks_get existing key of None \<Rightarrow> False | Some old \<Rightarrow> old \<noteq> r)
                       \<or> (case ks_get final key of None \<Rightarrow> False | Some old \<Rightarrow> old \<noteq> r)
                    then Inl Conflict
                    else publish_scan e ipk spent existing rs (ks_insert key r final))))"

fun ser_rows :: "kp_env \<Rightarrow> (bytes \<times> kp_record) list \<Rightarrow> (bytes \<times> bytes) list option" where
  "ser_rows e [] = Some []"
| "ser_rows e ((k, r) # rs) =
     (case ke_ser e r of None \<Rightarrow> None | Some v \<Rightarrow> map_option (\<lambda>rows. (k, v) # rows) (ser_rows e rs))"

definition kp_publish :: "kp_env \<Rightarrow> bytes \<Rightarrow> kp_record list \<Rightarrow> kp_store \<Rightarrow> kp_store \<times> (kp_error + unit)" where
  "kp_publish e ipk incoming st =
     (if length incoming > KP_STASH_TARGET then (st, Inl Full)
      else case kp_entries e st ipk of
        Inl err \<Rightarrow> (st, Inl err)
      | Inr existing \<Rightarrow>
          (case publish_scan e ipk (kp_spent st) existing incoming [] of
             Inl err \<Rightarrow> (st, Inl err)
           | Inr final \<Rightarrow>
               (case ser_rows e final of
                  None \<Rightarrow> (st, Inl Invalid)
                | Some rows \<Rightarrow>
                    let dead = filter (\<lambda>k. ks_get final k = None) (map fst existing);
                        st' = st\<lparr> kp_records := fold (\<lambda>(k, v). ks_insert k v) rows (fold ks_remove dead (kp_records st)) \<rparr>
                    in if ke_commit e st' then (st', Inr ()) else (st, Inl Storage))))"

text \<open>\<^verbatim>\<open>Iterator::min_by_key\<close>: the first of the least elements.\<close>

definition min_by_key :: "('a \<Rightarrow> 'b::linorder) \<Rightarrow> 'a list \<Rightarrow> 'a option" where
  "min_by_key f xs =
     (case xs of [] \<Rightarrow> None | x # ys \<Rightarrow> Some (fold (\<lambda>y best. if f y < f best then y else best) ys x))"

definition kp_take ::
  "kp_env \<Rightarrow> bytes \<Rightarrow> bytes \<Rightarrow> u64 \<Rightarrow> kp_store \<Rightarrow> kp_store \<times> (kp_error + (kp_record \<times> u32) option)" where
  "kp_take e ipk selector now st =
     (case kp_entries e st ipk of
        Inl err \<Rightarrow> (st, Inl err)
      | Inr entries \<Rightarrow>
          let expired = filter (\<lambda>(k, r). kr_expires_at_ms r \<le> now) entries;
              available = filter (\<lambda>(k, r). \<not> kr_expires_at_ms r \<le> now) entries;
              swept = fold ks_remove (map fst expired) (kp_records st)
          in case min_by_key (\<lambda>(k, r). xor32 (drop 32 k) selector) available of
               None \<Rightarrow>
                 (let st' = st\<lparr> kp_records := swept \<rparr>
                  in if ke_commit e st' then (st', Inr None) else (st, Inl Storage))
             | Some (key, r) \<Rightarrow>
                 (case ke_ser e r of
                    None \<Rightarrow> (st, Inl Invalid)
                  | Some bs \<Rightarrow>
                      let marker = u64_be (kr_expires_at_ms r) @ node_id_new (ke_crypto e) bs;
                          st' = st\<lparr> kp_records := ks_remove key swept, kp_spent := ks_insert key marker (kp_spent st) \<rparr>
                      in if ke_commit e st' then (st', Inr (Some (r, word_of_nat (length available - 1))))
                         else (st, Inl Storage)))"

definition kp_inventory :: "kp_env \<Rightarrow> kp_store \<Rightarrow> bytes \<Rightarrow> u64 \<Rightarrow> kp_error + bytes list" where
  "kp_inventory e st ipk now =
     (case kp_entries e st ipk of
        Inl err \<Rightarrow> Inl err
      | Inr entries \<Rightarrow>
          let refs = map (\<lambda>(k, r). kr_kp_ref r) (filter (\<lambda>(k, r). kr_expires_at_ms r > now) entries)
          in if list_all (\<lambda>x. length x = 32) refs then Inr refs else Inl Invalid)"

definition spent_expired :: expiry_fn where
  "spent_expired key val now = (case be_u64 val 0 of None \<Rightarrow> False | Some expires \<Rightarrow> expires \<le> now)"

section \<open>Admission shared by the stash requests\<close>

datatype reject = Binding | Skew | RateLimited | NotOwner

text \<open>
  \<^verbatim>\<open>stash_gate\<close>.  The rate limiter of the governor package is a state \<^verbatim>\<open>'l\<close> with a check that consumes
  from it; \<^verbatim>\<open>table\<close> is the routing table that decides ownership.
\<close>

definition stash_gate ::
  "routing_table \<Rightarrow> bytes \<Rightarrow> bytes option \<Rightarrow> u64 \<Rightarrow> u64 \<Rightarrow> bytes \<Rightarrow> ('l \<Rightarrow> 'l \<times> bool) \<Rightarrow> 'l \<Rightarrow> 'l \<times> (reject + unit)" where
  "stash_gate table peer requester timestamp now_ms stash admit l =
     (if (case requester of None \<Rightarrow> False | Some q \<Rightarrow> q \<noteq> peer) then (l, Inl Binding)
      else if abs_diff now_ms timestamp > MAX_KP_SKEW_MS then (l, Inl Skew)
      else case admit l of
        (l', False) \<Rightarrow> (l', Inl RateLimited)
      | (l', True) \<Rightarrow> if \<not> snd (homes table stash) then (l', Inl NotOwner) else (l', Inr ()))"

text \<open>\<^verbatim>\<open>KpFetchLimiters::check\<close>: the per-pair quota first, the per-target quota only if that admits.\<close>

record ('p, 't) kp_limiters =
  kl_per_pair :: 'p
  kl_per_target :: 't

definition kp_limiters_check ::
  "(bytes \<times> bytes \<Rightarrow> 'p \<Rightarrow> 'p \<times> bool) \<Rightarrow> (bytes \<Rightarrow> 't \<Rightarrow> 't \<times> bool) \<Rightarrow> bytes \<Rightarrow> bytes
   \<Rightarrow> ('p, 't) kp_limiters \<Rightarrow> ('p, 't) kp_limiters \<times> bool" where
  "kp_limiters_check check_pair check_target target requester l =
     (case check_pair (target, requester) (kl_per_pair l) of
        (p', False) \<Rightarrow> (l\<lparr> kl_per_pair := p' \<rparr>, False)
      | (p', True) \<Rightarrow>
          (case check_target target (kl_per_target l) of
             (t', ok) \<Rightarrow> (l\<lparr> kl_per_pair := p', kl_per_target := t' \<rparr>, ok)))"

section \<open>Publishing\<close>

definition KP_REF_LEN :: nat where "KP_REF_LEN = 32"

datatype kp_verify_error = Kv_Malformed | Kv_BadSig | Kv_Expired

definition kp_owner_signed :: "crypto \<Rightarrow> kp_record \<Rightarrow> bool" where
  "kp_owner_signed cr r \<longleftrightarrow>
     verify_ed25519 cr (kr_ipk r)
       (kp_record_signing_input cr MLS_WIRE_VERSION (kr_ipk r) (kr_kp_ref r) (kr_kp_bytes r) (kr_expires_at_ms r))
       (kr_owner_sig r)"

definition verify_record :: "crypto \<Rightarrow> kp_record \<Rightarrow> u64 \<Rightarrow> kp_verify_error + unit" where
  "verify_record cr r now_ms =
     (if length (kr_kp_ref r) \<noteq> KP_REF_LEN then Inl Kv_Malformed
      else if kr_kp_bytes r = [] then Inl Kv_Malformed
      else if \<not> kp_owner_signed cr r then Inl Kv_BadSig
      else if kr_expires_at_ms r \<le> now_ms then Inl Kv_Expired
      else if kr_expires_at_ms r > sat_add (sat_add now_ms KEYPACKAGE_LIFETIME_MS) MAX_KP_SKEW_MS
      then Inl Kv_Malformed
      else Inr ())"

definition verify_outer_sig :: "crypto \<Rightarrow> bytes \<Rightarrow> bytes \<Rightarrow> kp_record list \<Rightarrow> u64 \<Rightarrow> u64 \<Rightarrow> bool" where
  "verify_outer_sig cr publisher outer_sig records timestamp now_ms \<longleftrightarrow>
     \<not> abs_diff now_ms timestamp > MAX_KP_SKEW_MS
     \<and> verify_ed25519 cr publisher
          (kp_publish_signing_input MLS_WIRE_VERSION publisher (kp_publish_records_digest cr MLS_WIRE_VERSION records)
             (word_of_nat (length records)) timestamp) outer_sig"

fun verify_records :: "crypto \<Rightarrow> bytes \<Rightarrow> kp_record list \<Rightarrow> u64 \<Rightarrow> publish_outcome option" where
  "verify_records cr ipk [] now_ms = None"
| "verify_records cr ipk (r # rs) now_ms =
     (if kr_ipk r \<noteq> ipk then Some Kp_BadSig
      else case verify_record cr r now_ms of
        Inr () \<Rightarrow> verify_records cr ipk rs now_ms
      | Inl Kv_Expired \<Rightarrow> Some Kp_Expired
      | Inl _ \<Rightarrow> Some Kp_BadSig)"

text \<open>The handlers run against a store; \<^verbatim>\<open>barrier\<close> is the answer of the persist barrier they await.\<close>

definition handle_keypackage_publish ::
  "kp_env \<Rightarrow> routing_table \<Rightarrow> bytes \<Rightarrow> kp_record list \<Rightarrow> u64 \<Rightarrow> bytes \<Rightarrow> u64 \<Rightarrow> bool \<Rightarrow> kp_store
   \<Rightarrow> kp_store \<times> publish_outcome" where
  "handle_keypackage_publish e table ipk records timestamp sig now_ms barrier st =
     (if length records > KP_STASH_TARGET then (st, Kp_TooMany)
      else if \<not> verify_outer_sig (ke_crypto e) ipk sig records timestamp now_ms then (st, Kp_BadSig)
      else if \<not> snd (homes table (key_package_stash_prefix (ke_crypto e) ipk)) then (st, Kp_NotOwner)
      else case verify_records (ke_crypto e) ipk records now_ms of
        Some outcome \<Rightarrow> (st, outcome)
      | None \<Rightarrow>
          (case kp_publish e ipk records st of
             (st', Inr ()) \<Rightarrow> (st', if barrier then Kp_Stored else Kp_Unavailable)
           | (st', Inl Conflict) \<Rightarrow> (st', Kp_StaticFieldsConflict)
           | (st', Inl Full) \<Rightarrow> (st', Kp_TooMany)
           | (st', Inl _) \<Rightarrow> (st', Kp_Unavailable)))"

section \<open>Fetching\<close>

definition pop_selector :: "crypto \<Rightarrow> bytes \<Rightarrow> bytes \<Rightarrow> bytes" where
  "pop_selector cr requester target_ipk = node_id_new cr (requester @ target_ipk)"

definition compute_static_hash :: "crypto \<Rightarrow> kp_record \<Rightarrow> bytes" where
  "compute_static_hash cr r = node_id_new cr (kr_ipk r @ kr_kp_ref r @ node_id_new cr (kr_kp_bytes r))"

definition handle_keypackage_fetch ::
  "kp_env \<Rightarrow> routing_table \<Rightarrow> (bytes \<Rightarrow> bytes \<Rightarrow> 'l \<Rightarrow> 'l \<times> bool) \<Rightarrow> kp_fetch_req \<Rightarrow> bytes \<Rightarrow> u64 \<Rightarrow> bool
   \<Rightarrow> kp_store \<times> 'l \<Rightarrow> (kp_store \<times> 'l) \<times> kp_fetch_outcome" where
  "handle_keypackage_fetch e table check req peer now_ms barrier s =
     (case s of (st, l) \<Rightarrow>
      case stash_gate table peer (Some (kf_requester_relay_id req)) (kf_timestamp req) now_ms
             (key_package_stash_prefix (ke_crypto e) (kf_target_ipk req))
             (check (kf_target_ipk req) (kf_requester_relay_id req)) l of
        (l', Inl NotOwner) \<Rightarrow> ((st, l'), Kf_NotOwner)
      | (l', Inl _) \<Rightarrow> ((st, l'), Kf_RateLimited)
      | (l', Inr ()) \<Rightarrow>
          (case kp_take e (kf_target_ipk req)
                  (pop_selector (ke_crypto e) (kf_requester_relay_id req) (kf_target_ipk req)) now_ms st of
             (st', Inl err) \<Rightarrow> ((st', l'), Kf_Unavailable)
           | (st', Inr None) \<Rightarrow> ((st', l'), Kf_NoStash)
           | (st', Inr (Some (r, remaining))) \<Rightarrow>
               ((st', l'),
                if barrier
                then Kf_Found \<lparr> kff_record = r, kff_remaining = remaining,
                                kff_static_hash = compute_static_hash (ke_crypto e) r \<rparr>
                else Kf_Unavailable)))"

end
