(* ===== verification/KeyPackage_Custody.thy ===== *)
theory KeyPackage_Custody
  imports KeyPackages
begin

text \<open>
  What the KeyPackage store keeps: the stash of a user is exactly what they last published and has
  not been handed out, and a record that was handed out is never handed out again.
\<close>

section \<open>Reading a stash\<close>

definition kp_serde_ok :: "kp_env \<Rightarrow> bool" where
  "kp_serde_ok e \<longleftrightarrow> (\<forall>r b. ke_ser e r = Some b \<longrightarrow> ke_de e b = Some r)"

abbreviation kp_prefix :: "kp_env \<Rightarrow> bytes \<Rightarrow> bytes" where
  "kp_prefix e ipk \<equiv> key_package_stash_prefix (ke_crypto e) ipk"

abbreviation record_key :: "kp_env \<Rightarrow> kp_record \<Rightarrow> bytes" where
  "record_key e r \<equiv> kp_prefix e (kr_ipk r) @ kr_kp_ref r"

definition kp_row :: "kp_env \<Rightarrow> bytes \<Rightarrow> bytes \<Rightarrow> bytes \<Rightarrow> kp_record \<Rightarrow> bool" where
  "kp_row e ipk k v r \<longleftrightarrow> ke_de e v = Some r \<and> kr_ipk r = ipk \<and> length (kr_kp_ref r) = 32 \<and> k = record_key e r"

lemma entries_scan_step:
  assumes "entries_scan e ipk (Some (key, val) # gs) acc = Inr es"
  obtains r where "kp_row e ipk key val r" "entries_scan e ipk gs (ks_insert key r acc) = Inr es"
    "length (ks_insert key r acc) \<le> KP_STASH_TARGET"
  using assms
  by (auto simp: kp_row_def kp_key_def Let_def split: if_splits option.splits sum.splits)

lemma entries_scan_rows:
  assumes "entries_scan e ipk gs acc = Inr es" "reads_rows rows gs" "ks_wf rows" "ks_wf acc"
    "\<forall>x \<in> set rows. fst x \<notin> fst ` set acc" "length acc \<le> KP_STASH_TARGET"
  shows "ks_wf es \<and> length es \<le> KP_STASH_TARGET
       \<and> set es = set acc \<union> {(k, r). \<exists>v. (k, v) \<in> set rows \<and> ke_de e v = Some r}
       \<and> (\<forall>(k, v) \<in> set rows. \<exists>r. kp_row e ipk k v r)"
  using assms
proof (induction gs arbitrary: rows acc)
  case Nil
  then show ?case by simp
next
  case (Cons g gs)
  obtain key val rs where g: "g = Some (key, val)" and rows: "rows = (key, val) # rs" and rd: "reads_rows rs gs"
    using Cons.prems(1,2) by (cases g) auto
  obtain r where r: "kp_row e ipk key val r" and scan: "entries_scan e ipk gs (ks_insert key r acc) = Inr es"
    and len: "length (ks_insert key r acc) \<le> KP_STASH_TARGET"
    using entries_scan_step [OF Cons.prems(1) [unfolded g]] by blast
  have fresh: "key \<notin> fst ` set acc" using Cons.prems(5) rows by simp
  have set_acc: "set (ks_insert key r acc) = insert (key, r) (set acc)"
    using set_ks_insert [OF Cons.prems(4)] fresh by force
  have "\<forall>x \<in> set rs. fst x \<notin> fst ` set (ks_insert key r acc)"
    using Cons.prems(3,5) rows by (auto simp: set_acc ks_wf_Cons)
  moreover have "ks_wf rs" using Cons.prems(3) rows by (simp add: ks_wf_Cons)
  ultimately have "ks_wf es \<and> length es \<le> KP_STASH_TARGET
       \<and> set es = set (ks_insert key r acc) \<union> {(k, r). \<exists>v. (k, v) \<in> set rs \<and> ke_de e v = Some r}
       \<and> (\<forall>(k, v) \<in> set rs. \<exists>r. kp_row e ipk k v r)"
    using Cons.IH [OF scan rd _ ks_wf_insert [OF Cons.prems(4)] _ len] by blast
  moreover have "ke_de e val = Some r" using r by (simp add: kp_row_def)
  ultimately show ?case using r unfolding rows set_acc by auto
qed

lemma kp_entries_rows:
  assumes "kp_entries e st ipk = Inr es" "scan_sound (ke_io e)" "ks_wf (kp_records st)"
  shows "ks_wf es" "length es \<le> KP_STASH_TARGET"
    "\<And>k r. (k, r) \<in> set es \<longleftrightarrow> (\<exists>v. (k, v) \<in> set (kp_records st) \<and> starts_with (kp_prefix e ipk) k \<and> ke_de e v = Some r)"
    "\<And>k v. (k, v) \<in> set (kp_records st) \<Longrightarrow> starts_with (kp_prefix e ipk) k \<Longrightarrow> \<exists>r. kp_row e ipk k v r"
proof -
  have "ks_wf es \<and> length es \<le> KP_STASH_TARGET
       \<and> set es = set [] \<union> {(k, r). \<exists>v. (k, v) \<in> set (ks_prefix (kp_records st) (kp_prefix e ipk)) \<and> ke_de e v = Some r}
       \<and> (\<forall>(k, v) \<in> set (ks_prefix (kp_records st) (kp_prefix e ipk)). \<exists>r. kp_row e ipk k v r)"
    by (rule entries_scan_rows [OF assms(1) [unfolded kp_entries_def] scan_sound_prefix [OF assms(2,3)]])
      (simp_all add: ks_wf_prefix assms(3))
  then show "ks_wf es" "length es \<le> KP_STASH_TARGET"
    "\<And>k r. (k, r) \<in> set es \<longleftrightarrow> (\<exists>v. (k, v) \<in> set (kp_records st) \<and> starts_with (kp_prefix e ipk) k \<and> ke_de e v = Some r)"
    "\<And>k v. (k, v) \<in> set (kp_records st) \<Longrightarrow> starts_with (kp_prefix e ipk) k \<Longrightarrow> \<exists>r. kp_row e ipk k v r"
    by (auto simp: set_ks_prefix)
qed

lemma kp_entries_keys:
  assumes "kp_entries e st ipk = Inr es" "scan_sound (ke_io e)" "ks_wf (kp_records st)" "(k, r) \<in> set es"
  shows "kr_ipk r = ipk" "length (kr_kp_ref r) = 32" "k = record_key e r"
  using kp_entries_rows(3,4) [OF assms(1-3)] assms(4) by (force simp: kp_row_def)+

section \<open>Publishing\<close>

text \<open>What a publish may keep: records under their own key whose key is not spent.\<close>

definition final_ok :: "kp_env \<Rightarrow> bytes \<Rightarrow> keyspace \<Rightarrow> kp_record set \<Rightarrow> (bytes \<times> kp_record) list \<Rightarrow> bool" where
  "final_ok e ipk spent rs final \<longleftrightarrow>
     ks_wf final \<and> set final = {(k, r). r \<in> rs \<and> k = record_key e r \<and> ks_get spent k = None}
     \<and> (\<forall>r \<in> rs. kr_ipk r = ipk \<and> length (kr_kp_ref r) = 32 \<and> ke_ser e r \<noteq> None)"

lemma publish_scan_step:
  assumes "publish_scan e ipk spent existing (r # rs) final = Inr final'"
  shows "kr_ipk r = ipk \<and> length (kr_kp_ref r) = 32 \<and> ke_ser e r \<noteq> None
       \<and> (if ks_get spent (record_key e r) = None
          then (\<forall>old. ks_get final (record_key e r) = Some old \<longrightarrow> old = r)
               \<and> publish_scan e ipk spent existing rs (ks_insert (record_key e r) r final) = Inr final'
          else publish_scan e ipk spent existing rs final = Inr final')"
  using assms by (auto simp: kp_key_def io_get_def split: if_splits option.splits sum.splits)

lemma final_ok_insert:
  assumes "final_ok e ipk spent rs final" "kr_ipk r = ipk" "length (kr_kp_ref r) = 32" "ke_ser e r \<noteq> None"
    "ks_get spent (record_key e r) = None" "\<And>old. ks_get final (record_key e r) = Some old \<Longrightarrow> old = r"
  shows "final_ok e ipk spent (insert r rs) (ks_insert (record_key e r) r final)"
proof -
  have wf: "ks_wf final" using assms(1) by (simp add: final_ok_def)
  have "x = (record_key e r, r)" if "x \<in> set final" "fst x = record_key e r" for x
    using assms(6) [of "snd x"] that ks_get_mem [OF wf, of "fst x" "snd x"] by (cases x) simp
  then have "insert (record_key e r, r) {x \<in> set final. fst x \<noteq> record_key e r} = insert (record_key e r, r) (set final)"
    by blast
  then show ?thesis using assms(1-5) by (auto simp: final_ok_def ks_wf_insert set_ks_insert)
qed

lemma publish_scan_final:
  "publish_scan e ipk spent existing incoming final = Inr final' \<Longrightarrow> final_ok e ipk spent rs final
   \<Longrightarrow> final_ok e ipk spent (rs \<union> set incoming) final'"
proof (induction incoming arbitrary: final rs)
  case (Cons r incoming)
  note step = publish_scan_step [OF Cons.prems(1)]
  show ?case
  proof (cases "ks_get spent (record_key e r) = None")
    case True
    then have "final_ok e ipk spent (insert r rs) (ks_insert (record_key e r) r final)"
      using step final_ok_insert [OF Cons.prems(2)] by simp
    moreover have "publish_scan e ipk spent existing incoming (ks_insert (record_key e r) r final) = Inr final'"
      using step unfolding if_P [OF True] by blast
    ultimately show ?thesis using Cons.IH by fastforce
  next
    case False
    then have "final_ok e ipk spent (insert r rs) final"
      using step Cons.prems(2) by (auto simp: final_ok_def)
    moreover have "publish_scan e ipk spent existing incoming final = Inr final'"
      using step unfolding if_not_P [OF False] by blast
    ultimately show ?thesis using Cons.IH by fastforce
  qed
qed simp

lemma ser_rows_map:
  "ser_rows e final = Some rows \<Longrightarrow> rows = map (\<lambda>(k, r). (k, the (ke_ser e r))) final \<and> (\<forall>(k, r) \<in> set final. ke_ser e r \<noteq> None)"
proof (induction e final arbitrary: rows rule: ser_rows.induct)
  case (2 e k r rs)
  then obtain v rows' where "ke_ser e r = Some v" "ser_rows e rs = Some rows'" "rows = (k, v) # rows'"
    by (auto split: option.splits)
  then show ?case using "2.IH" [of v rows'] by simp
qed simp

lemma ks_get_batch:
  assumes "ks_wf ks" "distinct (map fst rows)"
  shows "ks_get (fold (\<lambda>(k, v). ks_insert k v) rows (fold ks_remove dead ks)) k =
     (case map_of rows k of Some v \<Rightarrow> Some v | None \<Rightarrow> if k \<in> set dead then None else ks_get ks k)"
proof (cases "map_of rows k")
  case None
  then have "k \<notin> fst ` set rows" by (simp add: map_of_eq_None_iff)
  then show ?thesis
    using ks.get_inss_other [OF ks.wf_dels [OF assms(1)]] None by (simp add: ks.get_dels [OF assms(1)])
next
  case (Some v)
  then show ?thesis
    using ks.get_inss [OF ks.wf_dels [OF assms(1)] assms(2)] map_of_SomeD by fastforce
qed

text \<open>The rows of a successful publish, by key.\<close>

lemma kp_publish_rows:
  assumes "kp_publish e ipk incoming st = (st', Inr ())" "scan_sound (ke_io e)" "ks_wf (kp_records st)"
  obtains final where "final_ok e ipk (kp_spent st) (set incoming) final" "ks_wf (kp_records st')"
    "kp_spent st' = kp_spent st"
    "\<And>k. ks_get (kp_records st') k =
       (case ks_get final k of Some r \<Rightarrow> ke_ser e r
        | None \<Rightarrow> if starts_with (kp_prefix e ipk) k then None else ks_get (kp_records st) k)"
proof -
  obtain existing final rows where ex: "kp_entries e st ipk = Inr existing"
    and fin: "publish_scan e ipk (kp_spent st) existing incoming [] = Inr final"
    and rows: "ser_rows e final = Some rows"
    and st': "st' = st\<lparr> kp_records := fold (\<lambda>(k, v). ks_insert k v) rows
        (fold ks_remove (filter (\<lambda>k. ks_get final k = None) (map fst existing)) (kp_records st)) \<rparr>"
    using assms(1) by (auto simp: kp_publish_def Let_def split: if_splits sum.splits option.splits)
  have fo: "final_ok e ipk (kp_spent st) (set incoming) final"
    using publish_scan_final [OF fin, of "{}"] by (simp add: final_ok_def)
  have ser: "rows = map (\<lambda>(k, r). (k, the (ke_ser e r))) final" "\<forall>(k, r) \<in> set final. ke_ser e r \<noteq> None"
    using ser_rows_map [OF rows] by blast+
  have dist: "distinct (map fst rows)"
    using fo ks_wf_distinct by (auto simp: ser final_ok_def comp_def split_def)
  have mo: "map_of rows k = (case ks_get final k of None \<Rightarrow> None | Some r \<Rightarrow> ke_ser e r)" for k
    using ser by (simp add: ks_get_def map_of_map split: option.split) (auto dest!: map_of_SomeD)
  have own: "k \<in> fst ` set existing" if "starts_with (kp_prefix e ipk) k" "ks_get (kp_records st) k \<noteq> None" for k
    using kp_entries_rows(3,4) [OF ex assms(2,3)] that by (force simp: ks_get_mem [OF assms(3)] kp_row_def)
  have pre: "starts_with (kp_prefix e ipk) k" if "k \<in> fst ` set existing" for k
    using kp_entries_rows(3) [OF ex assms(2,3)] that by force
  have "ks_get (kp_records st') k = (case ks_get final k of Some r \<Rightarrow> ke_ser e r
        | None \<Rightarrow> if starts_with (kp_prefix e ipk) k then None else ks_get (kp_records st) k)" for k
  proof (cases "ks_get final k")
    case None
    have absent: "ks_get (kp_records st) k = None" if "starts_with (kp_prefix e ipk) k" "k \<notin> fst ` set existing"
      using own [OF that(1)] that(2) by blast
    show ?thesis using None pre [of k] absent by (auto simp: st' ks_get_batch [OF assms(3) dist] mo)
  next
    case (Some r)
    then have "ke_ser e r \<noteq> None" using ser(2) by (auto simp: ks_get_def dest!: map_of_SomeD)
    then show ?thesis using Some by (auto simp: st' ks_get_batch [OF assms(3) dist] mo)
  qed
  then show thesis
    using that [OF fo] by (simp add: st' ks.wf_inss [OF ks.wf_dels [OF assms(3)]])
qed

text \<open>The abstract stash: what a publish that succeeds leaves of a user's records.\<close>

lemma final_ok_get:
  "final_ok e ipk spent rs final \<Longrightarrow>
   ks_get final k = Some r \<longleftrightarrow> r \<in> rs \<and> k = record_key e r \<and> ks_get spent k = None"
  by (auto simp: final_ok_def ks_get_mem)

lemma kp_publish_Ok:
  assumes "kp_publish e ipk incoming st = (st', Inr ())" "scan_sound (ke_io e)" "ks_wf (kp_records st)"
  shows "ks_wf (kp_records st')" "kp_spent st' = kp_spent st"
    "\<And>k. \<not> starts_with (kp_prefix e ipk) k \<Longrightarrow> ks_get (kp_records st') k = ks_get (kp_records st) k"
    "\<And>k v. starts_with (kp_prefix e ipk) k \<Longrightarrow> ks_get (kp_records st') k = Some v \<longleftrightarrow>
       (\<exists>r \<in> set incoming. k = record_key e r \<and> ks_get (kp_spent st) k = None \<and> ke_ser e r = Some v)"
    "\<And>r. r \<in> set incoming \<Longrightarrow> kr_ipk r = ipk \<and> length (kr_kp_ref r) = 32 \<and> ke_ser e r \<noteq> None"
proof -
  obtain final where fo: "final_ok e ipk (kp_spent st) (set incoming) final"
    and facts: "ks_wf (kp_records st')" "kp_spent st' = kp_spent st"
    and get: "\<And>k. ks_get (kp_records st') k =
       (case ks_get final k of Some r \<Rightarrow> ke_ser e r
        | None \<Rightarrow> if starts_with (kp_prefix e ipk) k then None else ks_get (kp_records st) k)"
    using kp_publish_rows [OF assms] by blast
  show "ks_wf (kp_records st')" "kp_spent st' = kp_spent st" by (fact facts)+
  show "\<And>r. r \<in> set incoming \<Longrightarrow> kr_ipk r = ipk \<and> length (kr_kp_ref r) = 32 \<and> ke_ser e r \<noteq> None"
    using fo by (simp add: final_ok_def)
  show "ks_get (kp_records st') k = ks_get (kp_records st) k" if "\<not> starts_with (kp_prefix e ipk) k" for k
  proof -
    have "ks_get final k \<noteq> Some r" for r
    proof
      assume "ks_get final k = Some r"
      then have "r \<in> set incoming" "k = record_key e r" using final_ok_get [OF fo] by blast+
      then show False using that fo by (simp add: final_ok_def)
    qed
    then have "ks_get final k = None" by (cases "ks_get final k") auto
    then show ?thesis using that by (simp add: get)
  qed
  show "ks_get (kp_records st') k = Some v \<longleftrightarrow>
       (\<exists>r \<in> set incoming. k = record_key e r \<and> ks_get (kp_spent st) k = None \<and> ke_ser e r = Some v)"
    if "starts_with (kp_prefix e ipk) k" for k v
  proof -
    have "ks_get (kp_records st') k = Some v \<longleftrightarrow> (\<exists>r. ks_get final k = Some r \<and> ke_ser e r = Some v)"
      using that by (simp add: get split: option.split)
    then show ?thesis unfolding final_ok_get [OF fo] by blast
  qed
qed

lemma kp_publish_Err: "kp_publish e ipk incoming st = (st', Inl err) \<Longrightarrow> st' = st"
  by (auto simp: kp_publish_def Let_def split: if_splits sum.splits option.splits)

section \<open>Taking\<close>

lemma fold_min:
  "fold (\<lambda>y best. if f y < f best then y else best) ys x \<in> insert x (set ys)
   \<and> (\<forall>z \<in> insert x (set ys). f (fold (\<lambda>y best. if f y < (f best :: 'b::linorder) then y else best) ys x) \<le> f z)"
proof (induction ys arbitrary: x)
  case (Cons y ys)
  define b where "b = (if f y < f x then y else x)"
  have le: "f b \<le> f x" "f b \<le> f y" by (auto simp: b_def)
  have "fold (\<lambda>y best. if f y < f best then y else best) (y # ys) x = fold (\<lambda>y best. if f y < f best then y else best) ys b"
    by (simp add: b_def)
  then show ?case using Cons.IH [of b] le by (auto simp: b_def intro: order_trans)
qed simp

lemma min_by_key_Some: "min_by_key f xs = Some x \<Longrightarrow> x \<in> set xs \<and> (\<forall>y \<in> set xs. f x \<le> f y)"
  using fold_min by (fastforce simp: min_by_key_def split: list.splits)

lemma min_by_key_None: "min_by_key f xs = None \<longleftrightarrow> xs = []"
  by (simp add: min_by_key_def split: list.splits)

definition kp_marker :: "kp_env \<Rightarrow> kp_record \<Rightarrow> bytes \<Rightarrow> bytes" where
  "kp_marker e r bs = u64_be (kr_expires_at_ms r) @ node_id_new (ke_crypto e) bs"

lemma kp_marker_expiry: "be_u64 (kp_marker e r bs) 0 = Some (kr_expires_at_ms r)"
  using be_u64_append [of 0 "[]"] by (simp add: kp_marker_def)

text \<open>A take hands out a live record of the stash, the nearest to the selector, and marks it spent.\<close>

lemma kp_take_Some:
  assumes "kp_take e ipk sel now st = (st', Inr (Some (r, n)))" "scan_sound (ke_io e)" "ks_wf (kp_records st)"
  obtains v bs where "ks_get (kp_records st) (record_key e r) = Some v" "ke_de e v = Some r" "ke_ser e r = Some bs"
    "kr_ipk r = ipk" "length (kr_kp_ref r) = 32" "now < kr_expires_at_ms r"
    "kp_spent st' = ks_insert (record_key e r) (kp_marker e r bs) (kp_spent st)"
    "ks_get (kp_records st') (record_key e r) = None"
proof -
  obtain entries k bs where en: "kp_entries e st ipk = Inr entries"
    and mn: "min_by_key (\<lambda>(k, r). xor32 (drop 32 k) sel) (filter (\<lambda>(k, r). \<not> kr_expires_at_ms r \<le> now) entries) = Some (k, r)"
    and ser: "ke_ser e r = Some bs"
    and st': "st' = st\<lparr> kp_records := ks_remove k (fold ks_remove (map fst (filter (\<lambda>(k, r). kr_expires_at_ms r \<le> now) entries)) (kp_records st)),
                        kp_spent := ks_insert k (u64_be (kr_expires_at_ms r) @ node_id_new (ke_crypto e) bs) (kp_spent st) \<rparr>"
    using assms(1) by (auto simp: kp_take_def Let_def split: if_splits sum.splits option.splits)
  have mem: "(k, r) \<in> set entries" "now < kr_expires_at_ms r" using min_by_key_Some [OF mn] by auto
  note keys = kp_entries_keys [OF en assms(2,3) mem(1)]
  obtain v where "(k, v) \<in> set (kp_records st)" "ke_de e v = Some r"
    using kp_entries_rows(3) [OF en assms(2,3)] mem(1) by blast
  then show thesis
    using that [of v bs] mem(2) keys ser
    by (simp add: st' kp_marker_def ks_get_remove ks_get_mem [OF assms(3)])
qed

lemma kp_take_other:
  assumes "kp_take e ipk sel now st = (st', res)" "ks_wf (kp_records st)"
  shows "ks_wf (kp_records st') \<and> set (kp_records st') \<subseteq> set (kp_records st)
         \<and> ((\<forall>r n. res \<noteq> Inr (Some (r, n))) \<longrightarrow> kp_spent st' = kp_spent st)"
proof (cases "kp_entries e st ipk")
  case (Inl err)
  then show ?thesis using assms by (simp add: kp_take_def)
next
  case (Inr entries)
  show ?thesis using assms Inr
    by (auto simp: kp_take_def Let_def set_ks_remove set_ks_removes ks_wf_remove ks.wf_dels
        split: if_splits option.splits)
qed

section \<open>A home over time\<close>

text \<open>
  What reaches a home: publishes, fetches and the sweep of the spent markers, each with the time it
  runs at and with the answers of the packages it depends on.
\<close>

datatype kp_op =
    KPublish bytes "kp_record list" u64 bytes u64 bool
  | KFetch kp_fetch_req bytes u64 bool
  | KSweep u64

fun kp_time :: "kp_op \<Rightarrow> u64" where
  "kp_time (KPublish ipk records timestamp sig now barrier) = now"
| "kp_time (KFetch req peer now barrier) = now"
| "kp_time (KSweep now) = now"

record 'l kp_home =
  kh_store :: kp_store
  kh_limits :: 'l
  kh_cursor :: "bytes option"

type_synonym 'l kp_check = "bytes \<Rightarrow> bytes \<Rightarrow> 'l \<Rightarrow> 'l \<times> bool"

fun kp_step ::
  "kp_env \<Rightarrow> routing_table \<Rightarrow> 'l kp_check \<Rightarrow> kp_op \<Rightarrow> 'l kp_home \<Rightarrow> 'l kp_home \<times> kp_fetch_outcome option" where
  "kp_step e table check (KPublish ipk records timestamp sig now barrier) s =
     (s\<lparr> kh_store := fst (handle_keypackage_publish e table ipk records timestamp sig now barrier (kh_store s)) \<rparr>, None)"
| "kp_step e table check (KFetch req peer now barrier) s =
     (case handle_keypackage_fetch e table check req peer now barrier (kh_store s, kh_limits s) of
        ((st', l'), outcome) \<Rightarrow> (s\<lparr> kh_store := st', kh_limits := l' \<rparr>, Some outcome))"
| "kp_step e table check (KSweep now) s =
     (case sweep (ke_io e) (ke_range e) spent_expired now (kp_spent (kh_store s), kh_cursor s) of
        (spent', cursor') \<Rightarrow> (s\<lparr> kh_store := (kh_store s)\<lparr> kp_spent := spent' \<rparr>, kh_cursor := cursor' \<rparr>, None))"

text \<open>A run, and the records it hands out with the request and the time, in order.\<close>

fun kp_run ::
  "kp_env \<Rightarrow> routing_table \<Rightarrow> 'l kp_check \<Rightarrow> kp_op list \<Rightarrow> 'l kp_home \<Rightarrow> (kp_fetch_req \<times> u64 \<times> kp_record) list" where
  "kp_run e table check [] s = []"
| "kp_run e table check (x # xs) s =
     (case kp_step e table check x s of
        (s', Some (Kf_Found f)) \<Rightarrow>
          (case x of KFetch req peer now barrier \<Rightarrow> [(req, now, kff_record f)] | _ \<Rightarrow> []) @ kp_run e table check xs s'
      | (s', _) \<Rightarrow> kp_run e table check xs s')"

text \<open>
  The invariant, with the records handed out so far and the time of the last operation: spent and
  stored keys are apart, what is stored was signed by its owner, and what was handed out has
  expired or is still marked.
\<close>

definition kp_inv :: "kp_env \<Rightarrow> kp_record set \<Rightarrow> u64 \<Rightarrow> kp_store \<Rightarrow> bool" where
  "kp_inv e taken t st \<longleftrightarrow>
     ks_wf (kp_records st) \<and> ks_wf (kp_spent st)
     \<and> (\<forall>(k, v) \<in> set (kp_records st). ks_get (kp_spent st) k = None)
     \<and> (\<forall>(k, v) \<in> set (kp_records st). \<forall>r. ke_de e v = Some r \<longrightarrow> kp_owner_signed (ke_crypto e) r)
     \<and> (\<forall>r \<in> taken. kr_expires_at_ms r \<le> t
          \<or> (\<exists>m. ks_get (kp_spent st) (record_key e r) = Some m \<and> be_u64 m 0 = Some (kr_expires_at_ms r)))"

lemma kp_invD:
  assumes "kp_inv e taken t st"
  shows "ks_wf (kp_records st)" "ks_wf (kp_spent st)"
    "(k, v) \<in> set (kp_records st) \<Longrightarrow> ks_get (kp_spent st) k = None"
    "(k, v) \<in> set (kp_records st) \<Longrightarrow> ke_de e v = Some r \<Longrightarrow> kp_owner_signed (ke_crypto e) r"
    "r \<in> taken \<Longrightarrow> \<not> kr_expires_at_ms r \<le> t
     \<Longrightarrow> \<exists>m. ks_get (kp_spent st) (record_key e r) = Some m \<and> be_u64 m 0 = Some (kr_expires_at_ms r)"
  using assms by (auto simp: kp_inv_def)

lemma kp_invI:
  assumes "ks_wf (kp_records st)" "ks_wf (kp_spent st)"
    "\<And>k v. (k, v) \<in> set (kp_records st) \<Longrightarrow> ks_get (kp_spent st) k = None"
    "\<And>k v r. (k, v) \<in> set (kp_records st) \<Longrightarrow> ke_de e v = Some r \<Longrightarrow> kp_owner_signed (ke_crypto e) r"
    "\<And>r. r \<in> taken \<Longrightarrow> \<not> kr_expires_at_ms r \<le> t
     \<Longrightarrow> \<exists>m. ks_get (kp_spent st) (record_key e r) = Some m \<and> be_u64 m 0 = Some (kr_expires_at_ms r)"
  shows "kp_inv e taken t st"
proof -
  have "kr_expires_at_ms r \<le> t
      \<or> (\<exists>m. ks_get (kp_spent st) (record_key e r) = Some m \<and> be_u64 m 0 = Some (kr_expires_at_ms r))"
    if "r \<in> taken" for r
    using assms(5) [OF that] by blast
  then show ?thesis using assms(1-4) by (auto simp: kp_inv_def)
qed

lemma kp_inv_later: "kp_inv e taken t st \<Longrightarrow> t \<le> t' \<Longrightarrow> kp_inv e taken t' st"
  unfolding kp_inv_def by (meson order_trans)

lemma verify_records_signed:
  "verify_records cr ipk records now = None \<Longrightarrow> r \<in> set records \<Longrightarrow> kp_owner_signed cr r"
  by (induction records) (auto simp: verify_record_def split: if_splits sum.splits kp_verify_error.splits unit.splits)

lemma kp_inv_publish:
  assumes "kp_inv e taken t st" "kp_serde_ok e" "scan_sound (ke_io e)"
    "verify_records (ke_crypto e) ipk records now = None" "kp_publish e ipk records st = (st', res)"
  shows "kp_inv e taken t st'"
proof (cases res)
  case (Inl err)
  then show ?thesis using kp_publish_Err assms(1,5) by blast
next
  case (Inr u)
  have wf: "ks_wf (kp_records st)" using assms(1) by (simp add: kp_inv_def)
  note ok = kp_publish_Ok [OF assms(5) [unfolded Inr, simplified] assms(3) wf]
  have row: "ks_get (kp_spent st) k = None \<and> (\<forall>r. ke_de e v = Some r \<longrightarrow> kp_owner_signed (ke_crypto e) r)"
    if "(k, v) \<in> set (kp_records st')" for k v
  proof (cases "starts_with (kp_prefix e ipk) k")
    case True
    have "ks_get (kp_records st') k = Some v" using that ks_get_mem [OF ok(1), of k v] by simp
    then obtain r where "r \<in> set records" "ks_get (kp_spent st) k = None" "ke_ser e r = Some v"
      using ok(4) [OF True, of v] by blast
    then show ?thesis using verify_records_signed [OF assms(4)] assms(2) by (auto simp: kp_serde_ok_def)
  next
    case False
    then have "(k, v) \<in> set (kp_records st)"
      using ok(3) [OF False] that ks_get_mem [OF ok(1), of k v] ks_get_mem [OF wf, of k v] by simp
    then show ?thesis using kp_invD(3,4) [OF assms(1)] by blast
  qed
  show ?thesis
    by (rule kp_invI) (use row ok(1,2) kp_invD(2,5) [OF assms(1)] in simp_all)
qed

lemma kp_inv_subset:
  assumes "kp_inv e taken t st" "ks_wf (kp_records st')" "set (kp_records st') \<subseteq> set (kp_records st)"
    "kp_spent st' = kp_spent st"
  shows "kp_inv e taken t st'"
proof (rule kp_invI)
  show "ks_get (kp_spent st') k = None" if "(k, v) \<in> set (kp_records st')" for k v
    using kp_invD(3) [OF assms(1), of k v] that assms(3,4) by auto
  show "kp_owner_signed (ke_crypto e) r" if "(k, v) \<in> set (kp_records st')" "ke_de e v = Some r" for k v r
    using kp_invD(4) [OF assms(1), of k v r] that assms(3) by blast
qed (use assms(2,4) kp_invD(2,5) [OF assms(1)] in simp_all)

lemma kp_inv_take:
  assumes "kp_inv e taken t st" "t \<le> now" "scan_sound (ke_io e)"
    "kp_take e ipk sel now st = (st', Inr (Some (r, n)))"
  shows "kp_inv e (insert r taken) now st' \<and> r \<notin> taken \<and> kp_owner_signed (ke_crypto e) r \<and> kr_ipk r = ipk
         \<and> now < kr_expires_at_ms r"
proof -
  have wf: "ks_wf (kp_records st)" "ks_wf (kp_spent st)" using assms(1) by (auto simp: kp_inv_def)
  obtain v bs where v: "ks_get (kp_records st) (record_key e r) = Some v" "ke_de e v = Some r" "kr_ipk r = ipk"
    "now < kr_expires_at_ms r" "kp_spent st' = ks_insert (record_key e r) (kp_marker e r bs) (kp_spent st)"
    "ks_get (kp_records st') (record_key e r) = None"
    using kp_take_Some [OF assms(4,3) wf(1)] by metis
  have sub: "ks_wf (kp_records st')" "set (kp_records st') \<subseteq> set (kp_records st)"
    using kp_take_other [OF assms(4) wf(1)] by auto
  have vrow: "(record_key e r, v) \<in> set (kp_records st)" using v(1) ks_get_mem [OF wf(1), of "record_key e r" v] by simp
  note free = kp_invD(3) [OF assms(1) vrow] and signed = kp_invD(4) [OF assms(1) vrow v(2)]
  have live: "\<not> kr_expires_at_ms r \<le> t" using le_less_trans [OF assms(2) v(4)] by simp
  have new: "r \<notin> taken" using kp_invD(5) [OF assms(1) _ live] free by auto
  have get: "ks_get (kp_spent st') k = (if k = record_key e r then Some (kp_marker e r bs) else ks_get (kp_spent st) k)" for k
    by (simp only: v(5) ks_get_insert [OF wf(2)])
  have apart: "ks_get (kp_spent st') k = None" if kw: "(k, w) \<in> set (kp_records st')" for k w
  proof -
    have "k \<noteq> record_key e r" using kw v(6) ks_get_mem [OF sub(1), of k w] by auto
    moreover have "ks_get (kp_spent st) k = None" using kp_invD(3) [OF assms(1), of k w] kw sub(2) by blast
    ultimately show ?thesis by (simp add: get)
  qed
  have marked: "\<exists>m. ks_get (kp_spent st') (record_key e q) = Some m \<and> be_u64 m 0 = Some (kr_expires_at_ms q)"
    if q: "q \<in> insert r taken" "\<not> kr_expires_at_ms q \<le> now" for q
  proof (cases "q = r")
    case True
    then show ?thesis by (simp add: get kp_marker_expiry)
  next
    case False
    have "\<not> kr_expires_at_ms q \<le> t" using q(2) order_trans [OF _ assms(2)] by blast
    then obtain m where m: "ks_get (kp_spent st) (record_key e q) = Some m" "be_u64 m 0 = Some (kr_expires_at_ms q)"
      using kp_invD(5) [OF assms(1), of q] q(1) False by blast
    moreover have "record_key e q \<noteq> record_key e r" using m(1) free by auto
    ultimately show ?thesis by (simp add: get)
  qed
  have "kp_inv e (insert r taken) now st'"
  proof (rule kp_invI)
    show "ks_wf (kp_spent st')" by (simp only: v(5) ks_wf_insert [OF wf(2)])
    show "kp_owner_signed (ke_crypto e) q" if "(k, w) \<in> set (kp_records st')" "ke_de e w = Some q" for k w q
      using kp_invD(4) [OF assms(1), of k w q] that sub(2) by blast
  qed (fact sub(1) apart marked)+
  then show ?thesis using new signed v(3,4) by blast
qed

lemma kp_inv_sweep:
  assumes "kp_inv e taken t st" "t \<le> now" "range_sound rng"
  shows "kp_inv e taken now (st\<lparr> kp_spent := fst (sweep fj rng spent_expired now (kp_spent st, cursor)) \<rparr>)"
proof -
  let ?spent = "fst (sweep fj rng spent_expired now (kp_spent st, cursor))"
  have wf: "ks_wf (kp_spent st)" using assms(1) by (simp add: kp_inv_def)
  have wf': "ks_wf ?spent" by (rule sweep_sound(1) [OF wf])
  have sub: "ks_get ?spent k = None" if "ks_get (kp_spent st) k = None" for k
  proof (rule ccontr)
    assume "ks_get ?spent k \<noteq> None"
    then obtain m where m: "ks_get ?spent k = Some m" by blast
    then have "(k, m) \<in> set ?spent" using ks_get_mem [OF wf', of k m] by simp
    then have "(k, m) \<in> set (kp_spent st)" using sweep_sound(2) [of fj rng spent_expired now "kp_spent st" cursor] by blast
    then show False using that ks_get_mem [OF wf, of k m] by simp
  qed
  have kept: "ks_get ?spent k = Some m \<or> spent_expired k m now" if "ks_get (kp_spent st) k = Some m" for k m
    using sweep_removed [OF wf assms(3), of k m fj spent_expired now cursor] that
    by (auto simp: ks_get_mem [OF wf] ks_get_mem [OF wf'])
  have "kr_expires_at_ms r \<le> now \<or> (\<exists>m. ks_get ?spent (record_key e r) = Some m \<and> be_u64 m 0 = Some (kr_expires_at_ms r))"
    if "r \<in> taken" for r
  proof (cases "kr_expires_at_ms r \<le> t")
    case True
    then show ?thesis using assms(2) by (auto intro: order_trans)
  next
    case False
    then obtain m where m: "ks_get (kp_spent st) (record_key e r) = Some m" "be_u64 m 0 = Some (kr_expires_at_ms r)"
      using kp_invD(5) [OF assms(1) \<open>r \<in> taken\<close>] by blast
    show ?thesis using kept [OF m(1)] m(2) by (auto simp: spent_expired_def)
  qed
  then show ?thesis
    by (intro kp_invI) (use kp_invD(1,3,4) [OF assms(1)] wf' sub in auto)
qed

section \<open>Steps and runs\<close>

lemma publish_step_inv:
  assumes "kp_inv e taken t st" "kp_serde_ok e" "scan_sound (ke_io e)"
  shows "kp_inv e taken t (fst (handle_keypackage_publish e table ipk records timestamp sig now barrier st))"
  using assms kp_inv_publish [OF assms, of ipk records now]
  by (cases "kp_publish e ipk records st")
    (auto simp: handle_keypackage_publish_def split: option.split sum.split kp_error.split unit.split)

text \<open>What one step may do to the invariant: hand out a new record, or nothing.\<close>

definition step_result ::
  "kp_env \<Rightarrow> kp_record set \<Rightarrow> kp_op \<Rightarrow> kp_store \<Rightarrow> kp_fetch_outcome option \<Rightarrow> bool" where
  "step_result e taken x st out \<longleftrightarrow>
     (case out of
        Some (Kf_Found f) \<Rightarrow>
          (\<exists>req peer now barrier. x = KFetch req peer now barrier \<and> kff_record f \<notin> taken
             \<and> kp_owner_signed (ke_crypto e) (kff_record f) \<and> kr_ipk (kff_record f) = kf_target_ipk req
             \<and> now < kr_expires_at_ms (kff_record f)
             \<and> kp_inv e (insert (kff_record f) taken) (kp_time x) st)
      | _ \<Rightarrow> \<exists>taken'. taken \<subseteq> taken' \<and> kp_inv e taken' (kp_time x) st)"

lemma fetch_step_result:
  assumes "kp_inv e taken t st" "t \<le> now" "scan_sound (ke_io e)"
    "handle_keypackage_fetch e table check req peer now barrier (st, l) = ((st', l'), out)"
  shows "step_result e taken (KFetch req peer now barrier) st' (Some out)"
proof -
  let ?gate = "stash_gate table peer (Some (kf_requester_relay_id req)) (kf_timestamp req) now
     (kp_prefix e (kf_target_ipk req)) (check (kf_target_ipk req) (kf_requester_relay_id req)) l"
  let ?take = "kp_take e (kf_target_ipk req)
     (pop_selector (ke_crypto e) (kf_requester_relay_id req) (kf_target_ipk req)) now st"
  have same: "kp_inv e taken now st" by (rule kp_inv_later [OF assms(1,2)])
  obtain l1 g where gate: "?gate = (l1, g)" by fastforce
  obtain st1 res where tk: "?take = (st1, res)" by fastforce
  note other = kp_take_other [OF tk kp_invD(1) [OF assms(1)]]
  show ?thesis
  proof (cases g)
    case (Inl rej)
    then have "st' = st" "\<forall>f. out \<noteq> Kf_Found f"
      using assms(4) gate by (auto simp: handle_keypackage_fetch_def split: reject.splits)
    then show ?thesis using same by (cases out) (auto simp: step_result_def)
  next
    case (Inr u)
    show ?thesis
    proof (cases "\<exists>r n. res = Inr (Some (r, n))")
      case True
      then obtain r n where res: "res = Inr (Some (r, n))" by blast
      note took = kp_inv_take [OF assms(1-3) tk [unfolded res]]
      have "st' = st1" "out = (if barrier then Kf_Found \<lparr> kff_record = r, kff_remaining = n,
          kff_static_hash = compute_static_hash (ke_crypto e) r \<rparr> else Kf_Unavailable)"
        using assms(4) gate tk by (auto simp: handle_keypackage_fetch_def Inr res split: unit.splits)
      then show ?thesis using took by (auto simp: step_result_def)
    next
      case False
      then have "kp_inv e taken now st1" using kp_inv_subset [OF same] other by blast
      moreover have "st' = st1" "\<forall>f. out \<noteq> Kf_Found f"
        using assms(4) gate tk False
        by (auto simp: handle_keypackage_fetch_def Inr split: sum.splits option.splits unit.splits)
      ultimately show ?thesis by (cases out) (auto simp: step_result_def)
    qed
  qed
qed

lemma kp_step_result:
  assumes "kp_inv e taken t (kh_store s)" "t \<le> kp_time x" "kp_serde_ok e" "scan_sound (ke_io e)"
    "range_sound (ke_range e)" "kp_step e table check x s = (s', out)"
  shows "step_result e taken x (kh_store s') out"
proof (cases x)
  case (KPublish ipk records timestamp sig now barrier)
  then have "kp_inv e taken (kp_time x) (kh_store s')"
    using assms(6) kp_inv_later [OF publish_step_inv [OF assms(1,3,4)] assms(2)] by auto
  then show ?thesis using KPublish assms(6) by (auto simp: step_result_def)
next
  case (KFetch req peer now barrier)
  obtain st' l' o' where f: "handle_keypackage_fetch e table check req peer now barrier (kh_store s, kh_limits s) = ((st', l'), o')"
    by (metis prod.exhaust)
  then have "kh_store s' = st'" "out = Some o'" using assms(6) KFetch by auto
  then show ?thesis using fetch_step_result [OF assms(1) _ assms(4) f] assms(2) KFetch by simp
next
  case (KSweep now)
  have "kp_inv e taken now (kh_store s\<lparr> kp_spent := fst (sweep (ke_io e) (ke_range e) spent_expired now (kp_spent (kh_store s), kh_cursor s)) \<rparr>)"
    by (rule kp_inv_sweep [OF assms(1) _ assms(5)]) (use assms(2) KSweep in simp)
  then show ?thesis using assms(6) KSweep by (auto simp: step_result_def split_def)
qed

lemma kp_run_fresh:
  assumes "kp_inv e taken t (kh_store s)" "sorted (map kp_time ops)" "\<forall>x \<in> set ops. t \<le> kp_time x" "kp_serde_ok e"
    "scan_sound (ke_io e)" "range_sound (ke_range e)"
  shows "distinct (map (snd \<circ> snd) (kp_run e table check ops s))
       \<and> (\<forall>(req, now, r) \<in> set (kp_run e table check ops s). r \<notin> taken \<and> kp_owner_signed (ke_crypto e) r
             \<and> kr_ipk r = kf_target_ipk req \<and> now < kr_expires_at_ms r)"
  using assms(1-3)
proof (induction ops arbitrary: s taken t)
  case (Cons x ops)
  obtain s' out where step: "kp_step e table check x s = (s', out)" by fastforce
  have later: "sorted (map kp_time ops)" "\<forall>y \<in> set ops. kp_time x \<le> kp_time y" using Cons.prems(2) by auto
  have res: "step_result e taken x (kh_store s') out"
    using kp_step_result [OF Cons.prems(1) _ assms(4-6) step] Cons.prems(3) by simp
  show ?case
  proof (cases "\<exists>f. out = Some (Kf_Found f)")
    case True
    then obtain f req peer now barrier where out: "out = Some (Kf_Found f)" and x: "x = KFetch req peer now barrier"
      and f: "kff_record f \<notin> taken" "kp_owner_signed (ke_crypto e) (kff_record f)"
        "kr_ipk (kff_record f) = kf_target_ipk req" "now < kr_expires_at_ms (kff_record f)"
        "kp_inv e (insert (kff_record f) taken) (kp_time x) (kh_store s')"
      using res by (auto simp: step_result_def)
    have run: "kp_run e table check (x # ops) s = (req, now, kff_record f) # kp_run e table check ops s'"
      using step out x by simp
    show ?thesis using Cons.IH [OF f(5) later] f(1-4) unfolding run by fastforce
  next
    case False
    then obtain taken' where t': "taken \<subseteq> taken'" "kp_inv e taken' (kp_time x) (kh_store s')"
      using res by (auto simp: step_result_def split: option.splits kp_fetch_outcome.splits)
    have run: "kp_run e table check (x # ops) s = kp_run e table check ops s'"
      using step False by (auto split: option.splits kp_fetch_outcome.splits)
    show ?thesis using Cons.IH [OF t'(2) later] t'(1) unfolding run by blast
  qed
qed simp

section \<open>Properties\<close>

definition kp_start :: "'l \<Rightarrow> 'l kp_home" where
  "kp_start l = \<lparr> kh_store = \<lparr> kp_records = [], kp_spent = [] \<rparr>, kh_limits = l, kh_cursor = None \<rparr>"

text \<open>
  Property C8: KeyPackages are one-shot at a home and authentic.  Whatever sequence of publishes,
  fetches and sweeps of spent markers a home sees, with a clock that does not run backwards and
  with any failures of scans, commits and fsyncs: no record is handed out twice, and every record
  handed out belongs to the requested user, carries their valid signature and has not expired.
\<close>

theorem key_package_one_shot:
  assumes "kp_serde_ok e" "scan_sound (ke_io e)" "range_sound (ke_range e)" "sorted (map kp_time ops)"
  shows "distinct (map (snd \<circ> snd) (kp_run e table check ops (kp_start l)))
       \<and> (\<forall>(req, now, r) \<in> set (kp_run e table check ops (kp_start l)).
            kr_ipk r = kf_target_ipk req \<and> kp_owner_signed (ke_crypto e) r \<and> now < kr_expires_at_ms r)"
proof -
  have "kp_inv e {} 0 (kh_store (kp_start l))" by (simp add: kp_inv_def kp_start_def)
  from kp_run_fresh [OF this assms(4) _ assms(1-3), of table check] show ?thesis by fastforce
qed

text \<open>A concrete environment: fixed-width rows, a store that works, signatures that always verify.\<close>

definition flat_kp_ser :: "kp_record \<Rightarrow> bytes option" where
  "flat_kp_ser r =
     (if length (kr_ipk r) = 32 \<and> length (kr_kp_ref r) = 32 \<and> length (kr_owner_sig r) = 64
      then Some (kr_ipk r @ kr_kp_ref r @ kr_owner_sig r @ u64_be (kr_expires_at_ms r) @ kr_kp_bytes r) else None)"

definition flat_kp_de :: "bytes \<Rightarrow> kp_record option" where
  "flat_kp_de b =
     (if length b < 136 then None
      else Some \<lparr> kr_ipk = take 32 b, kr_kp_ref = take 32 (drop 32 b), kr_kp_bytes = drop 136 b,
                  kr_expires_at_ms = u64_of_be (take 8 (drop 128 b)), kr_owner_sig = take 64 (drop 64 b) \<rparr>)"

definition flat_kp_env :: kp_env where
  "flat_kp_env = \<lparr> ke_crypto = \<lparr> blake3 = pad_to 32, key_ok = (\<lambda>_. True), verify_strict = (\<lambda>_ _ _. True) \<rparr>,
                   ke_ser = flat_kp_ser, ke_de = flat_kp_de, ke_io = healthy_io,
                   ke_range = healthy_range, ke_commit = (\<lambda>_. True) \<rparr>"

lemma flat_kp_roundtrip: "flat_kp_ser r = Some b \<Longrightarrow> flat_kp_de b = Some r"
  by (auto simp: flat_kp_ser_def flat_kp_de_def split: if_splits)

lemma flat_kp_sound: "kp_serde_ok flat_kp_env" "scan_sound (ke_io flat_kp_env)" "range_sound (ke_range flat_kp_env)"
  by (simp_all add: flat_kp_env_def kp_serde_ok_def flat_kp_roundtrip scan_sound_healthy range_sound_def healthy_range_def)

definition demo_kp :: kp_record where
  "demo_kp = \<lparr> kr_ipk = replicate 32 7, kr_kp_ref = replicate 32 1, kr_kp_bytes = [1, 2, 3],
               kr_expires_at_ms = 5000, kr_owner_sig = replicate 64 0 \<rparr>"

definition demo_kp_key :: bytes where
  "demo_kp_key = record_key flat_kp_env demo_kp"

definition demo_kp_bytes :: bytes where
  "demo_kp_bytes = the (flat_kp_ser demo_kp)"

lemma demo_kp_facts:
  "kr_ipk demo_kp = replicate 32 7" "length (kr_kp_ref demo_kp) = 32" "kr_expires_at_ms demo_kp = 5000"
  "flat_kp_ser demo_kp = Some demo_kp_bytes" "flat_kp_de demo_kp_bytes = Some demo_kp"
  "length demo_kp_key = 64" "record_key flat_kp_env demo_kp = demo_kp_key"
  "starts_with (kp_prefix flat_kp_env (replicate 32 7)) demo_kp_key"
proof -
  show ser: "flat_kp_ser demo_kp = Some demo_kp_bytes" by (simp add: demo_kp_bytes_def demo_kp_def flat_kp_ser_def)
  show "flat_kp_de demo_kp_bytes = Some demo_kp" by (rule flat_kp_roundtrip [OF ser])
qed (simp_all add: demo_kp_def demo_kp_key_def flat_kp_env_def key_package_stash_prefix_def)

lemmas demo_kp_env = flat_kp_env_def [THEN arg_cong, of ke_ser, simplified]
  flat_kp_env_def [THEN arg_cong, of ke_de, simplified] flat_kp_env_def [THEN arg_cong, of ke_io, simplified]
  flat_kp_env_def [THEN arg_cong, of ke_commit, simplified]

lemma demo_kp_key_eq: "kp_key flat_kp_env (replicate 32 7) (kr_kp_ref demo_kp) = Inr demo_kp_key"
  using demo_kp_facts(1,2,7) by (simp add: kp_key_def)

lemma demo_publish:
  "kp_publish flat_kp_env (replicate 32 7) [demo_kp] \<lparr> kp_records = [], kp_spent = [] \<rparr>
   = (\<lparr> kp_records = [(demo_kp_key, demo_kp_bytes)], kp_spent = [] \<rparr>, Inr ())"
  by (simp add: kp_publish_def KP_STASH_TARGET_def kp_entries_def demo_kp_env ks_prefix_def demo_kp_key_eq
      demo_kp_facts io_get_def ks_get_def)

lemma demo_take:
  "kp_take flat_kp_env (replicate 32 7) sel 1001 \<lparr> kp_records = [(demo_kp_key, demo_kp_bytes)], kp_spent = [] \<rparr>
   = (\<lparr> kp_records = [], kp_spent = [(demo_kp_key, kp_marker flat_kp_env demo_kp demo_kp_bytes)] \<rparr>,
      Inr (Some (demo_kp, 0)))"
  by (simp add: kp_take_def KP_STASH_TARGET_def kp_entries_def demo_kp_env ks_prefix_def demo_kp_key_eq
      demo_kp_facts kp_marker_def min_by_key_def ks_remove_def)

lemma demo_republish:
  "kp_publish flat_kp_env (replicate 32 7) [demo_kp]
     \<lparr> kp_records = [], kp_spent = [(demo_kp_key, kp_marker flat_kp_env demo_kp demo_kp_bytes)] \<rparr>
   = (\<lparr> kp_records = [], kp_spent = [(demo_kp_key, kp_marker flat_kp_env demo_kp demo_kp_bytes)] \<rparr>, Inr ())"
  by (simp add: kp_publish_def KP_STASH_TARGET_def kp_entries_def demo_kp_env ks_prefix_def demo_kp_key_eq
      demo_kp_facts io_get_def ks_get_def kp_marker_def)
    (simp add: flat_kp_env_def node_id_new_def)

lemma demo_take_none:
  "kp_take flat_kp_env (replicate 32 7) sel now \<lparr> kp_records = [], kp_spent = spent \<rparr>
   = (\<lparr> kp_records = [], kp_spent = spent \<rparr>, Inr None)"
  by (simp add: kp_take_def kp_entries_def demo_kp_env ks_prefix_def min_by_key_def)

definition demo_kp_req :: kp_fetch_req where
  "demo_kp_req = \<lparr> kf_target_ipk = replicate 32 7, kf_requester_relay_id = replicate 32 9, kf_timestamp = 1000 \<rparr>"

definition demo_kp_ops :: "kp_op list" where
  "demo_kp_ops =
     [KPublish (replicate 32 7) [demo_kp] 1000 [] 1000 True, KFetch demo_kp_req (replicate 32 9) 1001 True,
      KPublish (replicate 32 7) [demo_kp] 1000 [] 1002 True, KFetch demo_kp_req (replicate 32 9) 1003 True]"

definition demo_kp_table :: routing_table where
  "demo_kp_table = \<lparr> rt_self_id = replicate 32 0, rt_buckets = [] \<rparr>"

lemma demo_kp_home: "snd (homes demo_kp_table target)"
  by (simp add: homes_def find_closest_def rt_closest_def all_entries_def demo_kp_table_def K_def Let_def)

lemma demo_kp_verified:
  "verify_records (ke_crypto flat_kp_env) (replicate 32 7) [demo_kp] 1000 = None"
  "verify_records (ke_crypto flat_kp_env) (replicate 32 7) [demo_kp] 1002 = None"
  "verify_outer_sig (ke_crypto flat_kp_env) (replicate 32 7) [] [demo_kp] 1000 1000"
  "verify_outer_sig (ke_crypto flat_kp_env) (replicate 32 7) [] [demo_kp] 1000 1002"
  by (simp_all add: verify_record_def demo_kp_def KP_REF_LEN_def kp_owner_signed_def verify_ed25519_def
      flat_kp_env_def sat_add_def KEYPACKAGE_LIFETIME_MS_def MAX_KP_SKEW_MS_def verify_outer_sig_def abs_diff_def
      split: unit.split)

definition demo_kp_spent :: keyspace where
  "demo_kp_spent = [(demo_kp_key, kp_marker flat_kp_env demo_kp demo_kp_bytes)]"

lemma demo_handle_publish:
  "handle_keypackage_publish flat_kp_env demo_kp_table (replicate 32 7) [demo_kp] 1000 [] 1000 True \<lparr> kp_records = [], kp_spent = [] \<rparr>
   = (\<lparr> kp_records = [(demo_kp_key, demo_kp_bytes)], kp_spent = [] \<rparr>, Kp_Stored)"
  "handle_keypackage_publish flat_kp_env demo_kp_table (replicate 32 7) [demo_kp] 1000 [] 1002 True
     \<lparr> kp_records = [], kp_spent = demo_kp_spent \<rparr>
   = (\<lparr> kp_records = [], kp_spent = demo_kp_spent \<rparr>, Kp_Stored)"
  by (simp_all add: handle_keypackage_publish_def KP_STASH_TARGET_def demo_kp_verified demo_kp_home demo_publish
      demo_kp_spent_def demo_republish del: verify_records.simps split: unit.split)

lemma demo_gate: "now \<in> {1001, 1003} \<Longrightarrow>
   stash_gate demo_kp_table (replicate 32 9) (Some (replicate 32 9)) 1000 now stash (\<lambda>l. (l, True)) l = (l, Inr ())"
  by (auto simp: stash_gate_def demo_kp_home abs_diff_def MAX_KP_SKEW_MS_def)

lemma demo_handle_fetch:
  "\<exists>f. handle_keypackage_fetch flat_kp_env demo_kp_table (\<lambda>_ _ l. (l, True)) demo_kp_req (replicate 32 9) 1001 True
     (\<lparr> kp_records = [(demo_kp_key, demo_kp_bytes)], kp_spent = [] \<rparr>, 0::nat)
   = ((\<lparr> kp_records = [], kp_spent = demo_kp_spent \<rparr>, 0), Kf_Found f) \<and> kff_record f = demo_kp"
  "handle_keypackage_fetch flat_kp_env demo_kp_table (\<lambda>_ _ l. (l, True)) demo_kp_req (replicate 32 9) 1003 True
     (\<lparr> kp_records = [], kp_spent = demo_kp_spent \<rparr>, 0::nat)
   = ((\<lparr> kp_records = [], kp_spent = demo_kp_spent \<rparr>, 0), Kf_NoStash)"
  by (simp_all add: handle_keypackage_fetch_def demo_kp_req_def demo_gate demo_take demo_take_none demo_kp_spent_def
      split: unit.split)

lemma demo_kp_run:
  "map (snd \<circ> snd) (kp_run flat_kp_env demo_kp_table (\<lambda>_ _ l. (l, True)) demo_kp_ops (kp_start (0::nat))) = [demo_kp]"
proof -
  obtain f where f: "handle_keypackage_fetch flat_kp_env demo_kp_table (\<lambda>_ _ l. (l, True)) demo_kp_req (replicate 32 9) 1001 True
     (\<lparr> kp_records = [(demo_kp_key, demo_kp_bytes)], kp_spent = [] \<rparr>, 0::nat)
   = ((\<lparr> kp_records = [], kp_spent = demo_kp_spent \<rparr>, 0), Kf_Found f)" "kff_record f = demo_kp"
    using demo_handle_fetch(1) by blast
  show ?thesis
    by (simp add: demo_kp_ops_def kp_start_def demo_handle_publish f demo_handle_fetch(2))
qed

theorem key_package_one_shot_witness:
  "map (snd \<circ> snd) (kp_run flat_kp_env demo_kp_table (\<lambda>_ _ l. (l, True)) demo_kp_ops (kp_start (0::nat))) = [demo_kp]
   \<and> distinct (map (snd \<circ> snd) (kp_run flat_kp_env demo_kp_table (\<lambda>_ _ l. (l, True)) demo_kp_ops (kp_start (0::nat))))"
proof -
  have "sorted (map kp_time demo_kp_ops)" by (simp add: demo_kp_ops_def Let_def)
  note one_shot = key_package_one_shot [OF flat_kp_sound this, of demo_kp_table "\<lambda>_ _ l. (l, True)" "0::nat", THEN conjunct1]
  show ?thesis by (rule conjI [OF demo_kp_run one_shot])
qed

text \<open>
  Property C22: publishing replaces the stash.  An error, a failed commit included, leaves the store
  as it was.  Success leaves the spent markers and the stashes of others alone and makes the user's
  stash exactly the incoming records whose key has not been spent, each under its own key.
\<close>

theorem publish_replaces_stash:
  assumes "kp_publish e ipk incoming st = (st', res)" "scan_sound (ke_io e)" "ks_wf (kp_records st)"
  shows "(res \<noteq> Inr () \<longrightarrow> st' = st)
       \<and> (res = Inr () \<longrightarrow> kp_spent st' = kp_spent st
            \<and> (\<forall>k. \<not> starts_with (kp_prefix e ipk) k \<longrightarrow> ks_get (kp_records st') k = ks_get (kp_records st) k)
            \<and> (\<forall>k v. starts_with (kp_prefix e ipk) k \<longrightarrow>
                 (ks_get (kp_records st') k = Some v \<longleftrightarrow>
                  (\<exists>r \<in> set incoming. k = record_key e r \<and> ks_get (kp_spent st) k = None \<and> ke_ser e r = Some v)))
            \<and> length incoming \<le> KP_STASH_TARGET)"
proof (cases res)
  case (Inl err)
  then show ?thesis using kp_publish_Err [of e ipk incoming st st' err] assms(1) by simp
next
  case (Inr u)
  have ok: "kp_publish e ipk incoming st = (st', Inr ())" using assms(1) Inr by simp
  then have "length incoming \<le> KP_STASH_TARGET" by (auto simp: kp_publish_def split: if_splits)
  then show ?thesis using kp_publish_Ok(2-4) [OF ok assms(2,3)] Inr by simp
qed

theorem publish_replaces_stash_witness:
  "ks_get (kp_records (fst (kp_publish flat_kp_env (replicate 32 7) [demo_kp] \<lparr> kp_records = [], kp_spent = [] \<rparr>)))
     demo_kp_key = Some demo_kp_bytes"
  using publish_replaces_stash [OF demo_publish flat_kp_sound(2)] demo_kp_facts
  by (simp add: demo_publish demo_kp_env ks_get_def)

end
