(* ===== verification/Welcome.thy ===== *)
theory Welcome
  imports KeyPackages
begin

text \<open>
  The Welcome queue at a home relay (\<^verbatim>\<open>relay/src/dht/mls/welcome.rs\<close>): invitations wait under the
  recipient's stash prefix until the recipient fetches and acknowledges them.
\<close>

section \<open>Keys and identifiers\<close>

definition STASH_PREFIX_LEN :: nat where "STASH_PREFIX_LEN = 32"
definition STORAGE_KEY_LEN :: nat where "STORAGE_KEY_LEN = STASH_PREFIX_LEN + WELCOME_ID_LEN"
definition MAX_WELCOMES_PER_SENDER :: nat where "MAX_WELCOMES_PER_SENDER = 4"
definition WELCOME_FETCH_MAX_BYTES :: nat where "WELCOME_FETCH_MAX_BYTES = MAX_FRAME_BYTES - 64 * 1024"

definition stash_prefix :: "crypto \<Rightarrow> bytes \<Rightarrow> bytes" where
  "stash_prefix cr ipk = node_id_new cr (ascii ''welcome:'' @ ipk)"

definition storage_key :: "crypto \<Rightarrow> bytes \<Rightarrow> bytes \<Rightarrow> bytes" where
  "storage_key cr ipk wid = stash_prefix cr ipk @ wid"

definition welcome_id :: "crypto \<Rightarrow> welcome_envelope \<Rightarrow> bytes" where
  "welcome_id cr env =
     take WELCOME_ID_LEN
       (node_id_new cr (we_recipient_ipk env @ we_group_id env @ we_kp_ref_used env
                        @ node_id_new cr (we_welcome_blob env)))"

datatype welcome_verify_error = Wv_Malformed | Wv_BadSig

definition verify_welcome_envelope :: "crypto \<Rightarrow> welcome_envelope \<Rightarrow> welcome_verify_error + unit" where
  "verify_welcome_envelope cr env =
     (if we_welcome_blob env = [] then Inl Wv_Malformed
      else if length (we_welcome_blob env) > MAX_WELCOME_BYTES then Inl Wv_Malformed
      else if verify_ed25519 cr (we_sender_ipk env)
                (welcome_envelope_signing_input cr MLS_WIRE_VERSION (we_group_id env) (we_sender_ipk env)
                   (we_recipient_ipk env) (we_kp_ref_used env) (we_welcome_blob env)) (we_sender_sig env)
      then Inr () else Inl Wv_BadSig)"

section \<open>Reading the queue\<close>

text \<open>The packages: crypto, postcard for an envelope, fjall.\<close>

record welcome_env =
  wv_crypto :: crypto
  wv_ser :: "welcome_envelope \<Rightarrow> bytes option"
  wv_de :: "bytes \<Rightarrow> welcome_envelope option"
  wv_io :: fjall_io

type_synonym welcome_row = "bytes \<times> welcome_envelope \<times> u64 \<times> nat"

definition welcome_row_of :: "welcome_env \<Rightarrow> bytes \<times> bytes \<Rightarrow> welcome_row option" where
  "welcome_row_of e kv =
     (case kv of (key, val) \<Rightarrow>
        if length key \<noteq> STORAGE_KEY_LEN then None
        else if length val < 8 then None
        else map_option (\<lambda>env. (key, env, u64_of_be (take 8 val), length val)) (wv_de e (drop 8 val)))"

fun welcome_scan :: "welcome_env \<Rightarrow> (bytes \<times> bytes) option list \<Rightarrow> welcome_row list" where
  "welcome_scan e [] = []"
| "welcome_scan e (None # gs) = []"
| "welcome_scan e (Some kv # gs) =
     (case welcome_row_of e kv of None \<Rightarrow> welcome_scan e gs | Some row \<Rightarrow> row # welcome_scan e gs)"

definition iterate_welcomes :: "welcome_env \<Rightarrow> keyspace \<Rightarrow> bytes \<Rightarrow> welcome_row list" where
  "iterate_welcomes e ks ipk = welcome_scan e (fj_prefix (wv_io e) ks (stash_prefix (wv_crypto e) ipk))"

fun queue_full_scan :: "bytes \<Rightarrow> bytes \<Rightarrow> welcome_row list \<Rightarrow> nat \<Rightarrow> nat \<Rightarrow> bool" where
  "queue_full_scan sender key [] tot from_sender \<longleftrightarrow>
     tot \<ge> MAX_WELCOMES_PER_RECIPIENT \<or> from_sender \<ge> MAX_WELCOMES_PER_SENDER"
| "queue_full_scan sender key ((k, env, ex, len) # rows) tot from_sender \<longleftrightarrow>
     (if k = key then False
      else queue_full_scan sender key rows (tot + 1)
             (if we_sender_ipk env = sender then from_sender + 1 else from_sender))"

definition welcome_queue_full :: "welcome_env \<Rightarrow> keyspace \<Rightarrow> bytes \<Rightarrow> bytes \<Rightarrow> bytes \<Rightarrow> bool" where
  "welcome_queue_full e ks ipk sender key = queue_full_scan sender key (iterate_welcomes e ks ipk) 0 0"

section \<open>Requests\<close>

text \<open>
  The state: the Welcome keyspace, the maintenance state its writes notify, and the limiter.  In the
  publish, \<^verbatim>\<open>barrier\<close> is the answer of the persist barrier.
\<close>

definition handle_welcome_publish ::
  "welcome_env \<Rightarrow> routing_table \<Rightarrow> (bytes \<Rightarrow> 'l \<Rightarrow> 'l \<times> bool) \<Rightarrow> welcome_publish_req \<Rightarrow> bytes \<Rightarrow> u64 \<Rightarrow> bool
   \<Rightarrow> rows \<times> 'l \<Rightarrow> (rows \<times> 'l) \<times> welcome_publish_outcome" where
  "handle_welcome_publish e table check req peer now_ms barrier s =
     (let env = wp_envelope req; recipient = we_recipient_ipk env; cr = wv_crypto e in
      case stash_gate table peer None (wp_timestamp req) now_ms (stash_prefix cr recipient) (check peer) (snd s) of
        (l', Inl Skew) \<Rightarrow> ((fst s, l'), Wp_StaleTimestamp)
      | (l', Inl RateLimited) \<Rightarrow> ((fst s, l'), Wp_RateLimited)
      | (l', Inl _) \<Rightarrow> ((fst s, l'), Wp_NotOwner)
      | (l', Inr ()) \<Rightarrow>
          (case verify_welcome_envelope cr env of
             Inl _ \<Rightarrow> ((fst s, l'), Wp_BadSig)
           | Inr () \<Rightarrow>
               (case wv_ser e env of
                  None \<Rightarrow> ((fst s, l'), Wp_BadSig)
                | Some bs \<Rightarrow>
                    let val = u64_be (sat_add now_ms WELCOME_LIFETIME_MS) @ bs;
                        key = storage_key cr recipient (welcome_id cr env)
                    in if welcome_queue_full e (fst (fst s)) recipient (we_sender_ipk env) key
                       then ((fst s, l'), Wp_QueueFull)
                       else (case put_sync (wv_io e) key val (fst s) of
                               (r', Inl _) \<Rightarrow> ((r', l'), Wp_BadSig)
                             | (r', Inr ()) \<Rightarrow> ((r', l'), if barrier then Wp_Stored else Wp_BadSig)))))"

fun fetch_scan ::
  "u64 \<Rightarrow> welcome_row list \<Rightarrow> bytes list \<Rightarrow> welcome_entry list \<Rightarrow> nat \<Rightarrow> bytes list \<times> welcome_entry list" where
  "fetch_scan now_ms [] evict welcomes used = (evict, welcomes)"
| "fetch_scan now_ms ((key, env, expires_at_ms, stored_len) # rows) evict welcomes used =
     (if expires_at_ms \<le> now_ms then fetch_scan now_ms rows (evict @ [key]) welcomes used
      else if length welcomes \<ge> MAX_WELCOMES_PER_RECIPIENT \<or> used + stored_len > WELCOME_FETCH_MAX_BYTES
      then (evict, welcomes)
      else fetch_scan now_ms rows evict
             (welcomes @ [\<lparr> wn_welcome_id = drop STASH_PREFIX_LEN key, wn_envelope = env \<rparr>]) (used + stored_len))"

definition handle_welcome_fetch ::
  "welcome_env \<Rightarrow> routing_table \<Rightarrow> (bytes \<Rightarrow> 'l \<Rightarrow> 'l \<times> bool) \<Rightarrow> welcome_fetch_req \<Rightarrow> bytes \<Rightarrow> u64
   \<Rightarrow> keyspace \<times> 'l \<Rightarrow> (keyspace \<times> 'l) \<times> welcome_fetch_outcome" where
  "handle_welcome_fetch e table check req peer now_ms s =
     (case stash_gate table peer (Some (wf_requester_relay_id req)) (wf_timestamp req) now_ms
             (stash_prefix (wv_crypto e) (wf_user_ipk req)) (check peer) (snd s) of
        (l', Inl RateLimited) \<Rightarrow> ((fst s, l'), Wf_RateLimited)
      | (l', Inl NotOwner) \<Rightarrow> ((fst s, l'), Wf_NotOwner)
      | (l', Inl _) \<Rightarrow> ((fst s, l'), Wf_BadSig)
      | (l', Inr ()) \<Rightarrow>
          if \<not> verify_ed25519 (wv_crypto e) (wf_user_ipk req)
                 (welcome_fetch_signing_input MLS_WIRE_VERSION (wf_user_ipk req) (wf_requester_relay_id req)
                    (wf_timestamp req)) (wf_user_sig req)
          then ((fst s, l'), Wf_BadSig)
          else (case fetch_scan now_ms (iterate_welcomes e (fst s) (wf_user_ipk req)) [] [] 0 of
                  (evict, welcomes) \<Rightarrow> ((fst (io_removes (wv_io e) evict (fst s)), l'), Wf_Found welcomes)))"

definition handle_welcome_ack ::
  "welcome_env \<Rightarrow> routing_table \<Rightarrow> (bytes \<Rightarrow> 'l \<Rightarrow> 'l \<times> bool) \<Rightarrow> welcome_ack_req \<Rightarrow> bytes \<Rightarrow> u64
   \<Rightarrow> keyspace \<times> 'l \<Rightarrow> (keyspace \<times> 'l) \<times> bool" where
  "handle_welcome_ack e table check req peer now_ms s =
     (if length (wa_welcome_ids req) > MAX_WELCOME_ACK_IDS then (s, False)
      else case stash_gate table peer (Some (wa_requester_relay_id req)) (wa_timestamp req) now_ms
                  (stash_prefix (wv_crypto e) (wa_user_ipk req)) (check peer) (snd s) of
        (l', Inl _) \<Rightarrow> ((fst s, l'), False)
      | (l', Inr ()) \<Rightarrow>
          if \<not> verify_ed25519 (wv_crypto e) (wa_user_ipk req)
                 (welcome_ack_signing_input (wv_crypto e) MLS_WIRE_VERSION (wa_user_ipk req)
                    (wa_requester_relay_id req) (wa_welcome_ids req) (wa_timestamp req)) (wa_user_sig req)
          then ((fst s, l'), False)
          else (let keys = map (storage_key (wv_crypto e) (wa_user_ipk req)) (wa_welcome_ids req)
                in case io_removes (wv_io e) keys (fst s) of
                     (ks', removed) \<Rightarrow> ((ks', l'), removed = length keys)))"

section \<open>What a fetch returns\<close>

definition row_entry :: "welcome_row \<Rightarrow> welcome_entry" where
  "row_entry row = (case row of (key, env, ex, len) \<Rightarrow>
     \<lparr> wn_welcome_id = drop STASH_PREFIX_LEN key, wn_envelope = env \<rparr>)"

definition row_live :: "u64 \<Rightarrow> welcome_row \<Rightarrow> bool" where
  "row_live now_ms row = (case row of (key, env, ex, len) \<Rightarrow> \<not> ex \<le> now_ms)"

definition row_len :: "welcome_row \<Rightarrow> nat" where
  "row_len row = (case row of (key, env, ex, len) \<Rightarrow> len)"

text \<open>
  A fetch with the given slots and bytes already used takes the first live rows that fit, and stops
  only at one that does not.
\<close>

definition fetch_ok :: "u64 \<Rightarrow> welcome_row list \<Rightarrow> nat \<Rightarrow> nat \<Rightarrow> bytes list \<Rightarrow> welcome_row list \<Rightarrow> bool" where
  "fetch_ok now_ms rows slots used evict got \<longleftrightarrow>
     (\<exists>n. got = take n (filter (row_live now_ms) rows)
        \<and> slots + length got \<le> max slots MAX_WELCOMES_PER_RECIPIENT
        \<and> used + sum_list (map row_len got) \<le> max used WELCOME_FETCH_MAX_BYTES
        \<and> (\<forall>m < length (filter (row_live now_ms) rows). m = length got \<longrightarrow>
             slots + m \<ge> MAX_WELCOMES_PER_RECIPIENT
             \<or> used + sum_list (map row_len got) + row_len (filter (row_live now_ms) rows ! m) > WELCOME_FETCH_MAX_BYTES))
     \<and> set evict \<subseteq> fst ` {row \<in> set rows. \<not> row_live now_ms row}"

lemma fetch_scan_ok:
  "\<exists>evict' got. fetch_scan now_ms rows evict welcomes used = (evict @ evict', welcomes @ map row_entry got)
     \<and> fetch_ok now_ms rows (length welcomes) used evict' got"
proof (induction rows arbitrary: evict welcomes used)
  case Nil
  show ?case by (intro exI [of _ "[]"]) (simp add: fetch_ok_def)
next
  case (Cons row rows)
  obtain key env ex len where row: "row = (key, env, ex, len)" by (cases row)
  let ?P = "row_live now_ms"
  consider (dead) "ex \<le> now_ms"
    | (stop) "\<not> ex \<le> now_ms" "length welcomes \<ge> MAX_WELCOMES_PER_RECIPIENT \<or> used + len > WELCOME_FETCH_MAX_BYTES"
    | (go) "\<not> ex \<le> now_ms" "\<not> (length welcomes \<ge> MAX_WELCOMES_PER_RECIPIENT \<or> used + len > WELCOME_FETCH_MAX_BYTES)"
    by blast
  then show ?case
  proof cases
    case dead
    then have step: "fetch_scan now_ms (row # rows) evict welcomes used = fetch_scan now_ms rows (evict @ [key]) welcomes used"
      by (simp add: row)
    obtain ev got where "fetch_scan now_ms rows (evict @ [key]) welcomes used = ((evict @ [key]) @ ev, welcomes @ map row_entry got)"
      and ok: "fetch_ok now_ms rows (length welcomes) used ev got" using Cons.IH by blast
    moreover have "fetch_ok now_ms (row # rows) (length welcomes) used (key # ev) got"
    proof -
      have dead_row: "\<not> ?P row" "fst row = key" using dead by (simp_all add: row row_live_def)
      then have live: "filter ?P (row # rows) = filter ?P rows" by simp
      have "set (key # ev) \<subseteq> fst ` {row' \<in> set (row # rows). \<not> ?P row'}"
        using ok dead_row unfolding fetch_ok_def by auto
      then show ?thesis using ok unfolding fetch_ok_def live by blast
    qed
    ultimately show ?thesis by (intro exI [of _ "key # ev"] exI [of _ got]) (simp add: step)
  next
    case stop
    then have step: "fetch_scan now_ms (row # rows) evict welcomes used = (evict, welcomes)" by (simp add: row)
    have live: "filter ?P (row # rows) = row # filter ?P rows" using stop(1) by (simp add: row row_live_def)
    have "fetch_ok now_ms (row # rows) (length welcomes) used [] []"
      unfolding fetch_ok_def live using stop(2) by (intro conjI exI [of _ 0]) (auto simp: row row_len_def)
    then show ?thesis unfolding step by (intro exI [of _ "[]"]) simp
  next
    case go
    let ?w = "welcomes @ [row_entry row]"
    have step: "fetch_scan now_ms (row # rows) evict welcomes used = fetch_scan now_ms rows evict ?w (used + len)"
      using go by (simp add: row row_entry_def)
    obtain ev got where scan: "fetch_scan now_ms rows evict ?w (used + len) = (evict @ ev, ?w @ map row_entry got)"
      and ok: "fetch_ok now_ms rows (length ?w) (used + len) ev got" using Cons.IH by blast
    have live: "filter ?P (row # rows) = row # filter ?P rows" using go(1) by (simp add: row row_live_def)
    obtain n where n: "got = take n (filter ?P rows)" using ok by (auto simp: fetch_ok_def)
    have "fetch_ok now_ms (row # rows) (length welcomes) used ev (row # got)"
      unfolding fetch_ok_def live
    proof (intro conjI exI [of _ "Suc n"])
      show "\<forall>m < length (row # filter ?P rows). m = length (row # got) \<longrightarrow>
          length welcomes + m \<ge> MAX_WELCOMES_PER_RECIPIENT
          \<or> used + sum_list (map row_len (row # got)) + row_len ((row # filter ?P rows) ! m) > WELCOME_FETCH_MAX_BYTES"
        using ok by (auto simp: fetch_ok_def row row_len_def)
    qed (use ok go(2) n in \<open>auto simp: fetch_ok_def row row_len_def\<close>)
    then show ?thesis unfolding step scan by (intro exI [of _ ev] exI [of _ "row # got"]) simp
  qed
qed

end
