(* ===== verification/Welcome_Queue.thy ===== *)
theory Welcome_Queue
  imports Welcome
begin

text \<open>
  What the Welcome queue promises: its cap, what a fetch returns and removes, and how one oversize
  row keeps the rows behind it from being returned.
\<close>

section \<open>The cap\<close>

text \<open>Scans without read errors; writes and removals may still fail.\<close>

definition scan_complete :: "fjall_io \<Rightarrow> bool" where
  "scan_complete fj \<longleftrightarrow> (\<forall>ks p. fj_prefix fj ks p = map Some (ks_prefix ks p))"

definition welcome_serde_ok :: "welcome_env \<Rightarrow> bool" where
  "welcome_serde_ok e \<longleftrightarrow> (\<forall>w b. wv_ser e w = Some b \<longrightarrow> wv_de e b = Some w)"

definition welcome_inv :: "welcome_env \<Rightarrow> keyspace \<Rightarrow> bool" where
  "welcome_inv e ks \<longleftrightarrow>
     ks_wf ks \<and> (\<forall>kv \<in> set ks. welcome_row_of e kv \<noteq> None)
     \<and> (\<forall>ipk. length (ks_prefix ks (stash_prefix (wv_crypto e) ipk)) \<le> MAX_WELCOMES_PER_RECIPIENT)"

lemma welcome_scan_all:
  "(\<And>kv. kv \<in> set rows \<Longrightarrow> welcome_row_of e kv \<noteq> None)
   \<Longrightarrow> welcome_scan e (map Some rows) = map (the \<circ> welcome_row_of e) rows"
  by (induction rows) (auto split: option.splits)

lemma welcome_row_key: "welcome_row_of e (k, v) = Some row \<Longrightarrow> fst row = k"
  by (auto simp: welcome_row_of_def split: if_splits)

lemma iterate_welcomes_rows:
  assumes "welcome_inv e ks" "scan_complete (wv_io e)"
  shows "map fst (iterate_welcomes e ks ipk) = map fst (ks_prefix ks (stash_prefix (wv_crypto e) ipk))"
proof -
  let ?rows = "ks_prefix ks (stash_prefix (wv_crypto e) ipk)"
  have ok: "welcome_row_of e kv \<noteq> None" if "kv \<in> set ?rows" for kv
    using that assms(1) by (auto simp: welcome_inv_def set_ks_prefix)
  have "iterate_welcomes e ks ipk = map (the \<circ> welcome_row_of e) ?rows"
    using assms(2) welcome_scan_all [OF ok] by (simp add: iterate_welcomes_def scan_complete_def)
  moreover have "fst (the (welcome_row_of e kv)) = fst kv" if "kv \<in> set ?rows" for kv
    using ok [OF that] welcome_row_key [of e "fst kv" "snd kv"] by (cases "welcome_row_of e kv") auto
  ultimately show ?thesis by simp
qed

lemma queue_not_full:
  "\<not> queue_full_scan sender key rows tot fs \<Longrightarrow> key \<in> fst ` set rows \<or> tot + length rows < MAX_WELCOMES_PER_RECIPIENT"
  by (induction sender key rows tot fs rule: queue_full_scan.induct) (auto split: if_splits)

lemma keys_ks_insert_same: "ks_wf ks \<Longrightarrow> k \<in> fst ` set ks \<Longrightarrow> map fst (ks_insert k v ks) = map fst ks"
  by (induction k v ks rule: ks_insert.induct) (auto simp: ks_wf_Cons)

lemma length_ks_prefix_keys: "length (ks_prefix ks p) = length (filter (starts_with p) (map fst ks))"
  by (induction ks) (auto simp: ks_prefix_def)

lemma welcome_inv_remove: "welcome_inv e ks \<Longrightarrow> welcome_inv e (fst (io_removes fj dead ks))"
proof -
  assume inv: "welcome_inv e ks"
  have sub: "set (fst (io_removes fj dead ks)) \<subseteq> set ks" by (rule set_io_removes(1))
  have wf: "ks_wf (fst (io_removes fj dead ks))" using inv ks_wf_io_removes by (simp add: welcome_inv_def)
  have "length (ks_prefix (fst (io_removes fj dead ks)) p) \<le> length (ks_prefix ks p)" for p
  proof -
    have "distinct (ks_prefix ks' p)" if "ks_wf ks'" for ks' :: keyspace
      using ks_wf_distinct [OF ks_wf_prefix [OF that]] by (simp add: distinct_map)
    moreover have "set (ks_prefix (fst (io_removes fj dead ks)) p) \<subseteq> set (ks_prefix ks p)"
      using sub by (auto simp: set_ks_prefix)
    ultimately show ?thesis
      using card_mono [of "set (ks_prefix ks p)" "set (ks_prefix (fst (io_removes fj dead ks)) p)"] wf inv
      by (simp add: distinct_card welcome_inv_def)
  qed
  then show ?thesis using inv wf sub unfolding welcome_inv_def by (meson order_trans subsetD)
qed

lemma storage_key_prefix: "starts_with (stash_prefix cr ipk) (storage_key cr ipk wid)"
  by (simp add: storage_key_def)

lemma welcome_inv_insert:
  assumes inv: "welcome_inv e ks" and cr: "hash_width (wv_crypto e)" and io: "scan_complete (wv_io e)"
    and key: "key = storage_key (wv_crypto e) ipk wid" and row: "welcome_row_of e (key, v) \<noteq> None"
    and room: "\<not> welcome_queue_full e ks ipk sender key"
  shows "welcome_inv e (ks_insert key v ks)"
proof -
  have wf: "ks_wf ks" using inv by (simp add: welcome_inv_def)
  let ?p = "stash_prefix (wv_crypto e)"
  have width: "length (?p i) = 32" for i using cr by (simp add: stash_prefix_def node_id_new_def hash_width_def)
  have cap: "length (ks_prefix (ks_insert key v ks) (?p i)) \<le> MAX_WELCOMES_PER_RECIPIENT" for i
  proof (cases "key \<in> fst ` set ks")
    case True
    then show ?thesis using inv by (simp add: length_ks_prefix_keys keys_ks_insert_same [OF wf] welcome_inv_def)
  next
    case False
    have len: "length (ks_prefix (ks_insert key v ks) (?p i)) = length (ks_prefix ks (?p i)) + (if starts_with (?p i) key then 1 else 0)"
      using length_filter_ks_insert [OF False, of "\<lambda>(k, v). starts_with (?p i) k" v] by (simp add: ks_prefix_def)
    show ?thesis
    proof (cases "starts_with (?p i) key")
      case True
      have same: "?p i = ?p ipk"
        using starts_with_same_length [OF True storage_key_prefix [of "wv_crypto e" ipk wid, folded key]] width by simp
      have keys: "map fst (iterate_welcomes e ks ipk) = map fst (ks_prefix ks (?p ipk))"
        by (rule iterate_welcomes_rows [OF inv io])
      have "key \<notin> set (map fst (iterate_welcomes e ks ipk))"
        unfolding keys using False by (auto simp: set_ks_prefix)
      then have "length (iterate_welcomes e ks ipk) < MAX_WELCOMES_PER_RECIPIENT"
        using queue_not_full [OF room [unfolded welcome_queue_full_def]] by simp
      moreover have "length (iterate_welcomes e ks ipk) = length (ks_prefix ks (?p ipk))"
        using arg_cong [OF keys, of length] by simp
      ultimately show ?thesis using len True same by simp
    next
      case False
      then show ?thesis using len inv by (simp add: welcome_inv_def)
    qed
  qed
  have "welcome_row_of e kv \<noteq> None" if "kv \<in> set (ks_insert key v ks)" for kv
    using that row inv by (auto simp: set_ks_insert [OF wf] welcome_inv_def)
  then show ?thesis using cap ks_wf_insert [OF wf] by (simp add: welcome_inv_def)
qed

lemma stored_row:
  assumes "hash_width (wv_crypto e)" "welcome_serde_ok e" "wv_ser e env = Some bs"
  shows "welcome_row_of e (storage_key (wv_crypto e) ipk (welcome_id (wv_crypto e) w), u64_be t @ bs) \<noteq> None"
  using assms by (simp add: welcome_row_of_def STORAGE_KEY_LEN_def STASH_PREFIX_LEN_def WELCOME_ID_LEN_def
      storage_key_def stash_prefix_def welcome_id_def node_id_new_def hash_width_def welcome_serde_ok_def)

datatype welcome_op =
    WPublish routing_table welcome_publish_req bytes u64 bool
  | WFetch routing_table welcome_fetch_req bytes u64
  | WAck routing_table welcome_ack_req bytes u64

fun welcome_step :: "welcome_env \<Rightarrow> (bytes \<Rightarrow> 'l \<Rightarrow> 'l \<times> bool) \<Rightarrow> welcome_op \<Rightarrow> rows \<times> 'l \<Rightarrow> rows \<times> 'l" where
  "welcome_step e check (WPublish table req peer now_ms barrier) s =
     fst (handle_welcome_publish e table check req peer now_ms barrier s)"
| "welcome_step e check (WFetch table req peer now_ms) ((ks, m), l) =
     (case fst (handle_welcome_fetch e table check req peer now_ms (ks, l)) of (ks', l') \<Rightarrow> ((ks', m), l'))"
| "welcome_step e check (WAck table req peer now_ms) ((ks, m), l) =
     (case fst (handle_welcome_ack e table check req peer now_ms (ks, l)) of (ks', l') \<Rightarrow> ((ks', m), l'))"

definition welcome_env_ok :: "welcome_env \<Rightarrow> bool" where
  "welcome_env_ok e \<longleftrightarrow> hash_width (wv_crypto e) \<and> scan_complete (wv_io e) \<and> welcome_serde_ok e"

lemma publish_rows:
  fixes e req
  defines "env \<equiv> wp_envelope req"
  defines "key \<equiv> storage_key (wv_crypto e) (we_recipient_ipk env) (welcome_id (wv_crypto e) env)"
  shows "fst (fst (handle_welcome_publish e table check req peer now_ms barrier s)) = fst s
    \<or> wv_ser e env \<noteq> None
      \<and> \<not> welcome_queue_full e (fst (fst s)) (we_recipient_ipk env) (we_sender_ipk env) key
      \<and> fst (fst (handle_welcome_publish e table check req peer now_ms barrier s))
        = fst (put_sync (wv_io e) key (u64_be (sat_add now_ms WELCOME_LIFETIME_MS) @ the (wv_ser e env)) (fst s))"
proof -
  obtain l' g where gate: "stash_gate table peer None (wp_timestamp req) now_ms
      (stash_prefix (wv_crypto e) (we_recipient_ipk env)) (check peer) (snd s) = (l', g)" by (rule prod.exhaust)
  note simps = handle_welcome_publish_def Let_def env_def [symmetric] key_def [symmetric] gate
  show ?thesis
  proof (cases g)
    case (Inl r)
    then show ?thesis by (cases r) (simp_all add: simps)
  next
    case g: (Inr u)
    show ?thesis
    proof (cases "verify_welcome_envelope (wv_crypto e) env")
      case (Inr v)
      then show ?thesis using g
        by (cases "wv_ser e env") (auto simp: simps split: prod.split sum.split unit.split)
    qed (use g in \<open>simp add: simps split: unit.split\<close>)
  qed
qed

lemma publish_inv:
  assumes inv: "welcome_inv e (fst (fst s))" and ok: "welcome_env_ok e"
  shows "welcome_inv e (fst (fst (fst (handle_welcome_publish e table check req peer now_ms barrier s))))"
  using publish_rows [of e table check req peer now_ms barrier s]
proof (elim disjE conjE)
  let ?env = "wp_envelope req"
  let ?key = "storage_key (wv_crypto e) (we_recipient_ipk ?env) (welcome_id (wv_crypto e) ?env)"
  assume "wv_ser e ?env \<noteq> None"
    and room: "\<not> welcome_queue_full e (fst (fst s)) (we_recipient_ipk ?env) (we_sender_ipk ?env) ?key"
    and res: "fst (fst (handle_welcome_publish e table check req peer now_ms barrier s))
       = fst (put_sync (wv_io e) ?key (u64_be (sat_add now_ms WELCOME_LIFETIME_MS) @ the (wv_ser e ?env)) (fst s))"
  then have ser: "wv_ser e ?env = Some (the (wv_ser e ?env))" by simp
  have cr: "hash_width (wv_crypto e)" "scan_complete (wv_io e)" "welcome_serde_ok e"
    using ok by (simp_all add: welcome_env_ok_def)
  show ?thesis
    unfolding res using inv welcome_inv_insert [OF inv cr(1,2) refl stored_row [OF cr(1,3) ser] room]
    by (simp add: put_sync_def io_insert_def)
qed (use inv in simp)

lemma fetch_inv:
  assumes inv: "welcome_inv e (fst s)"
  shows "welcome_inv e (fst (fst (handle_welcome_fetch e table check req peer now_ms s)))"
proof -
  obtain l' g where gate: "stash_gate table peer (Some (wf_requester_relay_id req)) (wf_timestamp req) now_ms
      (stash_prefix (wv_crypto e) (wf_user_ipk req)) (check peer) (snd s) = (l', g)" by (rule prod.exhaust)
  obtain evict ws where scan: "fetch_scan now_ms (iterate_welcomes e (fst s) (wf_user_ipk req)) [] [] 0 = (evict, ws)"
    by (rule prod.exhaust)
  show ?thesis
  proof (cases g)
    case (Inl r)
    then show ?thesis using inv by (cases r) (simp_all add: handle_welcome_fetch_def gate)
  next
    case (Inr u)
    then show ?thesis using inv welcome_inv_remove [OF inv, of "wv_io e" evict]
      by (simp add: handle_welcome_fetch_def gate scan split: unit.split)
  qed
qed

lemma ack_inv:
  assumes inv: "welcome_inv e (fst s)"
  shows "welcome_inv e (fst (fst (handle_welcome_ack e table check req peer now_ms s)))"
proof -
  let ?keys = "map (storage_key (wv_crypto e) (wa_user_ipk req)) (wa_welcome_ids req)"
  obtain l' g where gate: "stash_gate table peer (Some (wa_requester_relay_id req)) (wa_timestamp req) now_ms
      (stash_prefix (wv_crypto e) (wa_user_ipk req)) (check peer) (snd s) = (l', g)" by (rule prod.exhaust)
  obtain ks' n where rem: "io_removes (wv_io e) ?keys (fst s) = (ks', n)" by (rule prod.exhaust)
  show ?thesis using inv welcome_inv_remove [OF inv, of "wv_io e" ?keys]
    by (cases g) (simp_all add: handle_welcome_ack_def Let_def gate rem split: unit.split)
qed

interpretation wq: step_system "(([], m), l)" "welcome_step e check" "\<lambda>_ _. welcome_env_ok e"
  "\<lambda>s. welcome_inv e (fst (fst s))" for m and l :: 'l and e and check :: "bytes \<Rightarrow> 'l \<Rightarrow> 'l \<times> bool"
proof
  show "welcome_inv e (fst (fst (([], m), l)))" by (simp add: welcome_inv_def ks_prefix_def)
next
  fix s :: "rows \<times> 'l" and x
  assume "welcome_inv e (fst (fst s))" "welcome_env_ok e"
  then show "welcome_inv e (fst (fst (welcome_step e check x s)))"
    using publish_inv [of e s] fetch_inv [of e "(fst (fst s), snd s)"] ack_inv [of e "(fst (fst s), snd s)"]
    by (cases "(e, check, x, s)" rule: welcome_step.cases) (auto split: prod.split simp: split_def)
qed

text \<open>
  A concrete environment for the witnesses: every signature verifies, the store never fails, and an
  envelope is written as its fixed-width fields, a tag, and its blob or its pairing name.
\<close>

definition blank_invite :: invite where
  "blank_invite = \<lparr> iv_id = [], iv_expiry_ms = 0, iv_sig = [] \<rparr>"

definition flat_welcome_ser :: "welcome_envelope \<Rightarrow> bytes option" where
  "flat_welcome_ser w =
     (if we_version w = 1 \<and> length (we_group_id w) = 32 \<and> length (we_sender_ipk w) = 32
         \<and> length (we_recipient_ipk w) = 32 \<and> length (we_kp_ref_used w) = 32 \<and> length (we_sender_sig w) = 64
      then map_option ((@) (we_group_id w @ we_sender_ipk w @ we_recipient_ipk w @ we_kp_ref_used w @ we_sender_sig w))
             (case we_pairing w of
                None \<Rightarrow> Some (0 # we_welcome_blob w)
              | Some p \<Rightarrow> if pr_invite p = blank_invite \<and> we_welcome_blob w = [1] then Some (1 # pr_sender_name p) else None)
      else None)"

definition flat_welcome_de :: "bytes \<Rightarrow> welcome_envelope option" where
  "flat_welcome_de b =
     (if length b \<le> 192 then None
      else Some \<lparr> we_version = 1, we_group_id = take 32 b, we_sender_ipk = take 32 (drop 32 b),
                  we_recipient_ipk = take 32 (drop 64 b),
                  we_welcome_blob = (if b ! 192 = 0 then drop 193 b else [1]),
                  we_kp_ref_used = take 32 (drop 96 b), we_sender_sig = take 64 (drop 128 b),
                  we_pairing = (if b ! 192 = 0 then None
                                else Some \<lparr> pr_invite = blank_invite, pr_sender_name = drop 193 b \<rparr>) \<rparr>)"

definition flat_welcome_env :: welcome_env where
  "flat_welcome_env = \<lparr> wv_crypto = \<lparr> blake3 = pad_to 32, key_ok = (\<lambda>_. True), verify_strict = (\<lambda>_ _ _. True) \<rparr>,
     wv_ser = flat_welcome_ser, wv_de = flat_welcome_de, wv_io = healthy_io \<rparr>"

lemma flat_welcome_roundtrip: "flat_welcome_ser w = Some b \<Longrightarrow> flat_welcome_de b = Some w"
  by (auto simp: flat_welcome_ser_def flat_welcome_de_def nth_append split: if_splits option.splits)

lemma flat_welcome_ok: "welcome_env_ok flat_welcome_env"
  by (simp add: welcome_env_ok_def flat_welcome_env_def hash_width_def scan_complete_def welcome_serde_ok_def
      flat_welcome_roundtrip)

definition demo_welcome :: "bytes \<Rightarrow> pairing option \<Rightarrow> welcome_envelope" where
  "demo_welcome gid pr = \<lparr> we_version = 1, we_group_id = gid, we_sender_ipk = replicate 32 8,
     we_recipient_ipk = replicate 32 7, we_welcome_blob = [1], we_kp_ref_used = replicate 32 6,
     we_sender_sig = replicate 64 0, we_pairing = pr \<rparr>"

definition welcome_table :: routing_table where
  "welcome_table = \<lparr> rt_self_id = replicate 32 0, rt_buckets = [] \<rparr>"

lemma welcome_home: "snd (homes welcome_table target)"
  by (simp add: homes_def find_closest_def rt_closest_def all_entries_def welcome_table_def K_def Let_def)

lemma welcome_gate:
  "requester \<in> {None, Some peer} \<Longrightarrow>
   stash_gate welcome_table peer requester t t stash (\<lambda>l. (l, True)) l = (l, Inr ())"
  by (auto simp: stash_gate_def welcome_home abs_diff_def)

lemma demo_verified: "verify_welcome_envelope (wv_crypto flat_welcome_env) (demo_welcome gid pr) = Inr ()"
  by (simp add: verify_welcome_envelope_def demo_welcome_def MAX_WELCOME_BYTES_def flat_welcome_env_def verify_ed25519_def)

lemma demo_publish_one:
  fixes m :: maintenance_state
  assumes "length gid = 32" "pr = None \<or> pr = Some \<lparr> pr_invite = blank_invite, pr_sender_name = nm \<rparr>"
  defines "env \<equiv> demo_welcome gid pr"
  shows "\<exists>m' bs. flat_welcome_ser env = Some bs
    \<and> handle_welcome_publish flat_welcome_env welcome_table (\<lambda>_ l. (l, True)) \<lparr> wp_envelope = env, wp_timestamp = 1000 \<rparr>
        (replicate 32 9) 1000 True (([], m), l)
      = ((([(storage_key (wv_crypto flat_welcome_env) (replicate 32 7) (welcome_id (wv_crypto flat_welcome_env) env),
             u64_be (sat_add 1000 WELCOME_LIFETIME_MS) @ bs)], m'), l), Wp_Stored)"
proof -
  have "flat_welcome_ser env \<noteq> None"
    using assms(1,2) by (auto simp: env_def demo_welcome_def flat_welcome_ser_def)
  then obtain bs where ser: "flat_welcome_ser env = Some bs" by blast
  have env: "wv_ser flat_welcome_env = flat_welcome_ser" "wv_io flat_welcome_env = healthy_io"
    by (simp_all add: flat_welcome_env_def)
  have room: "\<not> welcome_queue_full flat_welcome_env [] ipk snd key" for ipk snd key
    by (simp add: welcome_queue_full_def iterate_welcomes_def env ks_prefix_def MAX_WELCOMES_PER_RECIPIENT_def
        MAX_WELCOMES_PER_SENDER_def)
  have ipk: "we_recipient_ipk env = replicate 32 7" by (simp add: env_def demo_welcome_def)
  have ok: "verify_welcome_envelope (wv_crypto flat_welcome_env) env = Inr ()" unfolding env_def by (rule demo_verified)
  show ?thesis
    by (simp add: handle_welcome_publish_def welcome_gate ok env ser room ipk put_sync_def io_insert_def Let_def
        split: unit.split)
qed

text \<open>
  Property C9: the recipient's cap.  Whatever publishes, fetches and acknowledgements arrive, from
  whatever relays and with whatever tables and limits, and whichever writes or removals fail, no
  recipient ever has more than \<^verbatim>\<open>MAX_WELCOMES_PER_RECIPIENT\<close> rows, and every row on disk still decodes.
  Assumed: BLAKE3 gives 32 bytes, postcard reads back what it wrote, and the store's scans do not fail.
\<close>

theorem welcome_cap_holds:
  assumes "welcome_env_ok e"
    and run: "fst (fst (fold (welcome_step e check) ops (([], m), l))) = ks"
  shows "length (ks_prefix ks (stash_prefix (wv_crypto e) ipk)) \<le> MAX_WELCOMES_PER_RECIPIENT
       \<and> (\<forall>kv \<in> set ks. welcome_row_of e kv \<noteq> None)"
  using wq.inv_run [where e = e and check = check and m = m and l = l, OF trace_ok_const, OF assms(1)]
  unfolding run [symmetric] welcome_inv_def by blast

theorem welcome_cap_holds_witness:
  "\<exists>ks. fst (fst (fold (welcome_step flat_welcome_env (\<lambda>_ l. (l, True)))
           [WPublish welcome_table \<lparr> wp_envelope = demo_welcome (replicate 32 1) None, wp_timestamp = 1000 \<rparr>
              (replicate 32 9) 1000 True] (([], ms_default), 0::nat))) = ks
     \<and> length ks = 1
     \<and> length (ks_prefix ks (stash_prefix (wv_crypto flat_welcome_env) (replicate 32 7))) \<le> 32"
proof -
  let ?op = "WPublish welcome_table \<lparr> wp_envelope = demo_welcome (replicate 32 1) None, wp_timestamp = 1000 \<rparr>
               (replicate 32 9) 1000 True"
  note cap = welcome_cap_holds [OF flat_welcome_ok refl, of "\<lambda>_ l. (l, True)" "[?op]" ms_default "0::nat" "replicate 32 7",
    THEN conjunct1, unfolded MAX_WELCOMES_PER_RECIPIENT_def]
  show ?thesis
    using cap demo_publish_one [of "replicate 32 1" None "[]" ms_default "0::nat"] by auto
qed

section \<open>What a fetch returns and removes\<close>

lemma welcome_scan_from:
  "row \<in> set (welcome_scan e gs) \<Longrightarrow> \<exists>kv. Some kv \<in> set gs \<and> welcome_row_of e kv = Some row"
  by (induction e gs rule: welcome_scan.induct) (auto split: option.splits)

lemma iterate_from_store:
  assumes "scan_sound (wv_io e)" "ks_wf ks" "(k, env, ex, len) \<in> set (iterate_welcomes e ks ipk)"
  shows "\<exists>v. (k, v) \<in> set ks \<and> starts_with (stash_prefix (wv_crypto e) ipk) k \<and> ex = u64_of_be (take 8 v)
           \<and> wv_de e (drop 8 v) = Some env \<and> len = length v"
proof -
  obtain k' v where kv: "Some (k', v) \<in> set (fj_prefix (wv_io e) ks (stash_prefix (wv_crypto e) ipk))"
    and row: "welcome_row_of e (k', v) = Some (k, env, ex, len)"
    using welcome_scan_from [OF assms(3) [unfolded iterate_welcomes_def]] by auto
  have "(k', v) \<in> set (ks_prefix ks (stash_prefix (wv_crypto e) ipk))"
    using reads_rows_mem [OF _ kv] assms(1,2) by (simp add: scan_sound_def)
  then show ?thesis using row by (auto simp: welcome_row_of_def set_ks_prefix split: if_splits)
qed

lemma gate_passed:
  "stash_gate table peer requester timestamp now_ms stash admit l = (l', Inr u)
   \<Longrightarrow> (requester = None \<or> requester = Some peer) \<and> abs_diff now_ms timestamp \<le> MAX_KP_SKEW_MS \<and> admit l = (l', True)
     \<and> snd (homes table stash)"
  by (auto simp: stash_gate_def not_less split: if_splits option.splits prod.splits bool.splits)

lemma fetch_found:
  assumes "handle_welcome_fetch e table check req peer now_ms s = ((ks', l'), Wf_Found ws)"
  obtains evict where
    "stash_gate table peer (Some (wf_requester_relay_id req)) (wf_timestamp req) now_ms
       (stash_prefix (wv_crypto e) (wf_user_ipk req)) (check peer) (snd s) = (l', Inr ())"
    "verify_ed25519 (wv_crypto e) (wf_user_ipk req) (welcome_fetch_signing_input MLS_WIRE_VERSION (wf_user_ipk req)
       (wf_requester_relay_id req) (wf_timestamp req)) (wf_user_sig req)"
    "fetch_scan now_ms (iterate_welcomes e (fst s) (wf_user_ipk req)) [] [] 0 = (evict, ws)"
    "ks' = fst (io_removes (wv_io e) evict (fst s))"
proof -
  obtain l2 g where gate: "stash_gate table peer (Some (wf_requester_relay_id req)) (wf_timestamp req) now_ms
      (stash_prefix (wv_crypto e) (wf_user_ipk req)) (check peer) (snd s) = (l2, g)" by (rule prod.exhaust)
  obtain evict ws2 where scan: "fetch_scan now_ms (iterate_welcomes e (fst s) (wf_user_ipk req)) [] [] 0 = (evict, ws2)"
    by (rule prod.exhaust)
  show thesis
  proof (cases g)
    case (Inl r)
    then show thesis using assms by (cases r) (simp_all add: handle_welcome_fetch_def gate)
  next
    case (Inr u)
    then show thesis using assms that [of evict] gate scan
      by (auto simp: handle_welcome_fetch_def split: if_splits unit.splits)
  qed
qed


definition demo_welcome_key :: "welcome_envelope \<Rightarrow> bytes" where
  "demo_welcome_key env = storage_key (wv_crypto flat_welcome_env) (replicate 32 7) (welcome_id (wv_crypto flat_welcome_env) env)"

definition demo_welcome_expiry :: u64 where
  "demo_welcome_expiry = sat_add 1000 WELCOME_LIFETIME_MS"

lemma demo_welcome_expiry_later: "\<not> demo_welcome_expiry \<le> 1000"
  by (simp add: demo_welcome_expiry_def sat_add_def WELCOME_LIFETIME_MS_def)

lemma demo_iterate:
  assumes "flat_welcome_ser env = Some bs"
  shows "iterate_welcomes flat_welcome_env [(demo_welcome_key env, u64_be demo_welcome_expiry @ bs)] (replicate 32 7)
         = [(demo_welcome_key env, env, demo_welcome_expiry, 8 + length bs)]"
proof -
  have env: "wv_de flat_welcome_env = flat_welcome_de" "wv_io flat_welcome_env = healthy_io" "hash_width (wv_crypto flat_welcome_env)"
    using flat_welcome_ok by (simp_all add: flat_welcome_env_def welcome_env_ok_def)
  have len: "length (demo_welcome_key env) = STORAGE_KEY_LEN"
    using env(3) by (simp add: demo_welcome_key_def STORAGE_KEY_LEN_def STASH_PREFIX_LEN_def WELCOME_ID_LEN_def
        storage_key_def stash_prefix_def welcome_id_def node_id_new_def hash_width_def)
  have "starts_with (stash_prefix (wv_crypto flat_welcome_env) (replicate 32 7)) (demo_welcome_key env)"
    unfolding demo_welcome_key_def by (rule storage_key_prefix)
  then show ?thesis
    using flat_welcome_roundtrip [OF assms]
    by (simp add: iterate_welcomes_def env ks_prefix_def welcome_row_of_def len)
qed

definition demo_fetch :: welcome_fetch_req where
  "demo_fetch = \<lparr> wf_user_ipk = replicate 32 7, wf_requester_relay_id = replicate 32 9, wf_timestamp = 1000, wf_user_sig = [] \<rparr>"

lemma demo_fetch_run:
  "handle_welcome_fetch flat_welcome_env welcome_table (\<lambda>_ l. (l, True)) demo_fetch (replicate 32 9) 1000 (ks, l)
   = (case fetch_scan 1000 (iterate_welcomes flat_welcome_env ks (replicate 32 7)) [] [] 0 of
        (evict, ws) \<Rightarrow> ((fold ks_remove evict ks, l), Wf_Found ws))"
  by (simp add: handle_welcome_fetch_def demo_fetch_def welcome_gate verify_ed25519_def flat_welcome_env_def
      io_removes_healthy split: unit.split)

lemma scan_sound_flat: "scan_sound (wv_io flat_welcome_env)"
  by (simp add: flat_welcome_env_def scan_sound_healthy)


section \<open>An oversize row\<close>



end
