(* ===== verification/Policy.thy ===== *)
theory Policy
  imports Mls_Wire
begin

text \<open>
  Who may change a group, and what each change leaves it as (\<^verbatim>\<open>libcore/src/mls/policy.rs\<close>).  The
  committer that builds a change and every member that checks it run the same function, so the
  roles of a group are safe when that function is.
\<close>

section \<open>Roles\<close>

definition ROLE_MEMBER :: u8 where "ROLE_MEMBER = 0"
definition ROLE_ADMIN :: u8 where "ROLE_ADMIN = 1"
definition ROLE_OWNER :: u8 where "ROLE_OWNER = 2"

record group_state =
  gs_owners :: "bytes list"
  gs_admins :: "bytes list"
  gs_committer :: bytes
  gs_rules :: group_rules
  gs_last :: "signed_change option"

definition founded :: "bytes \<Rightarrow> group_state" where
  "founded by_ipk = \<lparr> gs_owners = [by_ipk], gs_admins = [], gs_committer = by_ipk,
                      gs_rules = group_rules_default, gs_last = None \<rparr>"

definition role_of :: "group_state \<Rightarrow> bytes \<Rightarrow> u8" where
  "role_of s who = (if who \<in> set (gs_owners s) then ROLE_OWNER
                    else if who \<in> set (gs_admins s) then ROLE_ADMIN else ROLE_MEMBER)"

definition may_add :: "group_state \<Rightarrow> bytes \<Rightarrow> bool" where
  "may_add s who \<longleftrightarrow> gr_members_add (gs_rules s) \<or> role_of s who \<ge> ROLE_ADMIN"

definition may_edit :: "group_state \<Rightarrow> bytes \<Rightarrow> bool" where
  "may_edit s who \<longleftrightarrow> gr_members_edit (gs_rules s) \<or> role_of s who \<ge> ROLE_ADMIN"

definition may_send :: "group_state \<Rightarrow> bytes \<Rightarrow> bool" where
  "may_send s who \<longleftrightarrow> gr_members_send (gs_rules s) \<or> role_of s who \<ge> ROLE_ADMIN"

definition drop_role :: "bytes \<Rightarrow> group_state \<Rightarrow> group_state" where
  "drop_role who s = s\<lparr> gs_owners := filter (\<lambda>p. p \<noteq> who) (gs_owners s),
                        gs_admins := filter (\<lambda>a. a \<noteq> who) (gs_admins s) \<rparr>"

text \<open>The reasons of the source's error strings.\<close>

datatype policy_error =
    Needs_Owner | Role_Outside | Two_Roles | Committer_Not_Admin
  | Asked_Outside | Only_Committer | Only_Admins_Add | Adds_Nobody | Adds_Present
  | Removes_Nobody | May_Not_Remove | No_Successor | Successor_Outside | No_Role_Change
  | May_Not_Change_Role | May_Not_Change_Rules | Only_Owners_Decide | No_Handover
  | Hand_To_Admin | Only_Admin_Takes_Over | Already_Signed_Rules | Only_Another_Member

definition policy_check :: "group_state \<Rightarrow> bytes list \<Rightarrow> policy_error + unit" where
  "policy_check s roster =
     (let ranked = gs_owners s @ gs_admins s in
      if gs_owners s = [] then Inl Needs_Owner
      else if \<exists>m \<in> set ranked. m \<notin> set roster then Inl Role_Outside
      else if \<not> distinct ranked then Inl Two_Roles
      else if gs_committer s \<notin> set ranked then Inl Committer_Not_Admin
      else Inr ())"

section \<open>Applying a change\<close>

definition carries_committer_request :: "group_state \<Rightarrow> bytes \<Rightarrow> signed_change \<Rightarrow> bool" where
  "carries_committer_request s author chg \<longleftrightarrow>
     (case sc_change chg of
        MemberRequest r \<Rightarrow> gq_who r = gs_committer s \<and> author = sc_by chg
          \<and> (role_of s author \<ge> ROLE_ADMIN \<or> length (gs_owners s) + length (gs_admins s) = 1)
      | _ \<Rightarrow> False)"

fun add_all :: "bytes list \<Rightarrow> bytes list \<Rightarrow> policy_error + bytes list" where
  "add_all [] after = Inr after"
| "add_all (w # ws) after = (if w \<in> set after then Inl Adds_Present else add_all ws (after @ [w]))"

text \<open>
  The arms of the \<^verbatim>\<open>match\<close>: the new state, still without \<^verbatim>\<open>last\<close>, and the roster after the change.
\<close>

fun change_arm ::
  "group_state \<Rightarrow> bytes list \<Rightarrow> bytes \<Rightarrow> bytes \<Rightarrow> group_change \<Rightarrow> policy_error + group_state \<times> bytes list" where
  "change_arm s roster author by_ipk (Add who) =
     (if \<not> may_add s by_ipk then Inl Only_Admins_Add
      else if who = [] then Inl Adds_Nobody
      else case add_all who roster of Inl err \<Rightarrow> Inl err | Inr after \<Rightarrow> Inr (s, after))"
| "change_arm s roster author by_ipk (Remove who) =
     (if who = by_ipk \<or> who \<notin> set roster then Inl Removes_Nobody
      else if role_of s by_ipk < ROLE_ADMIN \<or> (role_of s who = ROLE_OWNER \<and> role_of s by_ipk < ROLE_OWNER)
      then Inl May_Not_Remove
      else Inr (drop_role who s, filter (\<lambda>m. m \<noteq> who) roster))"
| "change_arm s roster author by_ipk (Leave successor) =
     (let next = drop_role by_ipk s; after = filter (\<lambda>m. m \<noteq> by_ipk) roster in
      if gs_owners next = [] then
        (case successor of
           None \<Rightarrow> Inl No_Successor
         | Some p \<Rightarrow> if p \<notin> set after then Inl Successor_Outside
                      else let next' = drop_role p next in
                           Inr (next'\<lparr> gs_owners := gs_owners next' @ [p] \<rparr>, after))
      else Inr (next, after))"
| "change_arm s roster author by_ipk (Role who to) =
     (let from = role_of s who; rank = role_of s by_ipk;
          owners_only = (from = ROLE_OWNER \<or> to = ROLE_OWNER);
          appoints = (rank = ROLE_ADMIN \<and> gr_admins_appoint (gs_rules s) \<and> \<not> owners_only)
      in if who = by_ipk \<or> who \<notin> set roster \<or> to > ROLE_OWNER \<or> from = to then Inl No_Role_Change
         else if rank \<noteq> ROLE_OWNER \<and> \<not> appoints then Inl May_Not_Change_Role
         else let dropped = drop_role who s;
                  next = (if to = ROLE_OWNER then dropped\<lparr> gs_owners := gs_owners dropped @ [who] \<rparr>
                          else if to = ROLE_ADMIN then dropped\<lparr> gs_admins := gs_admins dropped @ [who] \<rparr>
                          else dropped)
              in Inr (if who = gs_committer s \<and> to = ROLE_MEMBER then next\<lparr> gs_committer := by_ipk \<rparr> else next, roster))"
| "change_arm s roster author by_ipk (Rules rules) =
     (if role_of s by_ipk < ROLE_ADMIN \<or> rules = gs_rules s then Inl May_Not_Change_Rules
      else if gr_admins_appoint rules \<noteq> gr_admins_appoint (gs_rules s) \<and> role_of s by_ipk < ROLE_OWNER
      then Inl Only_Owners_Decide
      else Inr (s\<lparr> gs_rules := rules \<rparr>, roster))"
| "change_arm s roster author by_ipk (Handover to) =
     (if by_ipk \<noteq> gs_committer s \<or> to = by_ipk \<or> to \<notin> set roster then Inl No_Handover
      else if role_of s to = ROLE_MEMBER then
        (if length (gs_owners s) + length (gs_admins s) > 1 then Inl Hand_To_Admin
         else Inr (s\<lparr> gs_admins := gs_admins s @ [to], gs_committer := to \<rparr>, roster))
      else Inr (s\<lparr> gs_committer := to \<rparr>, roster))"
| "change_arm s roster author by_ipk Takeover =
     (if by_ipk \<noteq> author \<or> by_ipk = gs_committer s \<or> role_of s by_ipk < ROLE_ADMIN then Inl Only_Admin_Takes_Over
      else Inr (s\<lparr> gs_committer := by_ipk \<rparr>, roster))"
| "change_arm s roster author by_ipk Upgrade = Inl Already_Signed_Rules"
| "change_arm s roster author by_ipk (MemberRequest r) =
     (if gq_who r \<notin> set roster \<or> gq_who r = author then Inl Only_Another_Member
      else let left = (if gq_action r = Leave_Group then drop_role (gq_who r) s else s);
               after = (if gq_action r = Leave_Group then filter (\<lambda>m. m \<noteq> gq_who r) roster else roster);
               owned = (if gq_action r = Leave_Group \<and> gs_owners left = []
                        then let d = drop_role author left in d\<lparr> gs_owners := gs_owners d @ [author] \<rparr> else left);
               next = (if gs_committer s = gq_who r
                       then let c = owned\<lparr> gs_committer := author \<rparr> in
                            if role_of c author = ROLE_MEMBER then c\<lparr> gs_admins := gs_admins c @ [author] \<rparr> else c
                       else owned)
           in Inr (next, after))"

definition policy_step :: "group_state \<Rightarrow> bytes list \<Rightarrow> bytes \<Rightarrow> signed_change \<Rightarrow> policy_error + group_state \<times> bytes list" where
  "policy_step s roster author chg =
     (if sc_by chg \<notin> set roster then Inl Asked_Outside
      else if author \<noteq> gs_committer s \<and> sc_change chg \<noteq> Takeover \<and> \<not> carries_committer_request s author chg
      then Inl Only_Committer
      else case change_arm s roster author (sc_by chg) (sc_change chg) of
        Inl err \<Rightarrow> Inl err
      | Inr (next, after) \<Rightarrow>
          (case policy_check (next\<lparr> gs_last := Some chg \<rparr>) after of
             Inl err \<Rightarrow> Inl err
           | Inr () \<Rightarrow> Inr (next\<lparr> gs_last := Some chg \<rparr>, after)))"

text \<open>\<^verbatim>\<open>apply\<close> returns the state; the roster is what the commit's proposals make it.\<close>

definition policy_apply :: "group_state \<Rightarrow> bytes list \<Rightarrow> bytes \<Rightarrow> signed_change \<Rightarrow> policy_error + group_state" where
  "policy_apply s roster author chg = map_sum id fst (policy_step s roster author chg)"

section \<open>Well-formed groups\<close>

definition group_ok :: "group_state \<Rightarrow> bytes list \<Rightarrow> bool" where
  "group_ok s roster \<longleftrightarrow>
     gs_owners s \<noteq> [] \<and> distinct (gs_owners s @ gs_admins s) \<and> distinct roster
     \<and> set (gs_owners s @ gs_admins s) \<subseteq> set roster \<and> gs_committer s \<in> set (gs_owners s @ gs_admins s)"

lemma policy_check_ok:
  "policy_check s roster = Inr () \<longleftrightarrow>
     gs_owners s \<noteq> [] \<and> distinct (gs_owners s @ gs_admins s)
     \<and> set (gs_owners s @ gs_admins s) \<subseteq> set roster \<and> gs_committer s \<in> set (gs_owners s @ gs_admins s)"
  by (auto simp: policy_check_def Let_def)

lemma add_all_roster:
  "add_all ws after = Inr after' \<Longrightarrow> distinct after \<Longrightarrow> distinct after' \<and> set after' = set after \<union> set ws"
  by (induction ws arbitrary: after) (auto split: if_splits)

lemma policy_step_parts:
  assumes "policy_step s roster author chg = Inr (s', after)"
  obtains nxt where "change_arm s roster author (sc_by chg) (sc_change chg) = Inr (nxt, after)"
    "s' = nxt\<lparr> gs_last := Some chg \<rparr>" "policy_check s' after = Inr ()" "sc_by chg \<in> set roster"
    "author = gs_committer s \<or> sc_change chg = Takeover \<or> carries_committer_request s author chg"
proof -
  have by_in: "sc_by chg \<in> set roster" using assms by (simp add: policy_step_def split: if_splits)
  have auth: "author = gs_committer s \<or> sc_change chg = Takeover \<or> carries_committer_request s author chg"
    using assms by_in by (simp add: policy_step_def split: if_splits)
  then have arm: "(case change_arm s roster author (sc_by chg) (sc_change chg) of Inl err \<Rightarrow> Inl err
      | Inr (nxt, aft) \<Rightarrow> (case policy_check (nxt\<lparr> gs_last := Some chg \<rparr>) aft of
          Inl err \<Rightarrow> Inl err | Inr () \<Rightarrow> Inr (nxt\<lparr> gs_last := Some chg \<rparr>, aft))) = Inr (s', after)"
    using assms by_in unfolding policy_step_def by (simp split: if_splits)
  obtain nxt aft where "change_arm s roster author (sc_by chg) (sc_change chg) = Inr (nxt, aft)"
    using arm by (cases "change_arm s roster author (sc_by chg) (sc_change chg)") auto
  moreover have "policy_check (nxt\<lparr> gs_last := Some chg \<rparr>) aft = Inr ()"
    using arm calculation by (cases "policy_check (nxt\<lparr> gs_last := Some chg \<rparr>) aft") auto
  ultimately show thesis using arm that [of nxt] by_in auth by (auto split: unit.splits)
qed

lemma change_arm_roster:
  assumes "change_arm s roster author by_ipk c = Inr (nxt, after)" "distinct roster"
  shows "distinct after"
proof (cases c)
  case (Add who)
  then show ?thesis using assms add_all_roster [of who roster] by (auto split: if_splits sum.splits)
next
  case (Leave successor)
  then show ?thesis using assms by (auto simp: Let_def split: if_splits option.splits)
next
  case (Role who to)
  then show ?thesis using assms by (simp add: Let_def split: if_splits)
next
  case (MemberRequest r)
  then show ?thesis using assms by (auto simp: Let_def split: if_splits)
qed (use assms in \<open>auto split: if_splits\<close>)

lemma group_ok_founded: "group_ok (founded p) [p]"
  by (simp add: group_ok_def founded_def)

lemma group_ok_step:
  assumes "policy_step s roster author chg = Inr (s', after)" "distinct roster"
  shows "group_ok s' after"
proof -
  obtain nxt where "change_arm s roster author (sc_by chg) (sc_change chg) = Inr (nxt, after)"
    "policy_check s' after = Inr ()" by (rule policy_step_parts [OF assms(1)])
  then show ?thesis using change_arm_roster [OF _ assms(2)] by (simp add: group_ok_def policy_check_ok)
qed

section \<open>Roles after a change\<close>

lemmas role_defs = ROLE_MEMBER_def ROLE_ADMIN_def ROLE_OWNER_def

lemma role_order [simp]: "\<not> (2::u8) \<le> 1" "(1::u8) < 2"
  by (simp_all add: word_le_nat_alt word_less_nat_alt)

lemma role_of_cases: "role_of s p = ROLE_MEMBER \<or> role_of s p = ROLE_ADMIN \<or> role_of s p = ROLE_OWNER"
  by (simp add: role_of_def)

lemma role_of_update [simp]:
  "role_of (s\<lparr> gs_last := x \<rparr>) p = role_of s p" "role_of (s\<lparr> gs_committer := c \<rparr>) p = role_of s p"
  "role_of (s\<lparr> gs_rules := r \<rparr>) p = role_of s p"
  by (simp_all add: role_of_def)

lemma role_of_drop [simp]: "role_of (drop_role w s) p = (if p = w then ROLE_MEMBER else role_of s p)"
  by (simp add: role_of_def drop_role_def)

lemma role_of_owner [simp]:
  "role_of (s\<lparr> gs_owners := gs_owners s @ [w] \<rparr>) p = (if p = w then ROLE_OWNER else role_of s p)"
  by (simp add: role_of_def)

lemma role_of_admin [simp]:
  "role_of (s\<lparr> gs_admins := gs_admins s @ [w] \<rparr>) p = (if p = w \<and> role_of s p \<noteq> ROLE_OWNER then ROLE_ADMIN else role_of s p)"
  "role_of (s\<lparr> gs_admins := gs_admins s @ [w], gs_committer := c \<rparr>) p
   = (if p = w \<and> role_of s p \<noteq> ROLE_OWNER then ROLE_ADMIN else role_of s p)"
  "role_of (s\<lparr> gs_committer := c, gs_admins := gs_admins s @ [w] \<rparr>) p
   = (if p = w \<and> role_of s p \<noteq> ROLE_OWNER then ROLE_ADMIN else role_of s p)"
  by (simp_all add: role_of_def role_defs)

lemma drop_role_ownerless:
  "gs_owners (drop_role w s) = [] \<longleftrightarrow> set (gs_owners s) \<subseteq> {w}"
  by (auto simp: drop_role_def filter_empty_conv)

text \<open>The abstract view of a change: a new role for each person, without lists.\<close>

fun role_after :: "group_state \<Rightarrow> bytes \<Rightarrow> bytes \<Rightarrow> group_change \<Rightarrow> bytes \<Rightarrow> u8" where
  "role_after s author by_ipk (Remove who) p = (if p = who then ROLE_MEMBER else role_of s p)"
| "role_after s author by_ipk (Leave successor) p =
     (if set (gs_owners s) \<subseteq> {by_ipk} \<and> successor = Some p then ROLE_OWNER
      else if p = by_ipk then ROLE_MEMBER else role_of s p)"
| "role_after s author by_ipk (Role who to) p = (if p = who then to else role_of s p)"
| "role_after s author by_ipk (Handover to) p = (if p = to \<and> role_of s p = ROLE_MEMBER then ROLE_ADMIN else role_of s p)"
| "role_after s author by_ipk (MemberRequest r) p =
     (if gq_action r = Leave_Group \<and> p = gq_who r then ROLE_MEMBER
      else if gq_action r = Leave_Group \<and> set (gs_owners s) \<subseteq> {gq_who r} \<and> p = author then ROLE_OWNER
      else if gs_committer s = gq_who r \<and> p = author \<and> role_of s p = ROLE_MEMBER then ROLE_ADMIN
      else role_of s p)"
| "role_after s author by_ipk _ p = role_of s p"

lemma role_after_leave:
  assumes "change_arm s roster author by_ipk (Leave successor) = Inr (nxt, after)"
  shows "role_of nxt p = role_after s author by_ipk (Leave successor) p"
proof (cases "gs_owners (drop_role by_ipk s) = []")
  case True
  then obtain q where q: "successor = Some q" "q \<noteq> by_ipk"
    "nxt = (let d = drop_role q (drop_role by_ipk s) in d\<lparr> gs_owners := gs_owners d @ [q] \<rparr>)"
    using assms by (auto simp: Let_def split: option.splits if_splits)
  then show ?thesis using True [unfolded drop_role_ownerless] by (simp add: Let_def)
next
  case False
  then show ?thesis using assms False [unfolded drop_role_ownerless] by (auto simp: Let_def)
qed

lemma role_cases: "to \<le> ROLE_OWNER \<Longrightarrow> to = ROLE_MEMBER \<or> to = ROLE_ADMIN \<or> to = ROLE_OWNER"
proof -
  assume "to \<le> ROLE_OWNER"
  then have "unat to \<le> 2" by (simp add: role_defs word_le_nat_alt)
  then have "unat to = 0 \<or> unat to = 1 \<or> unat to = 2" by linarith
  moreover have "to = word_of_nat (unat to)" by simp
  ultimately have "to = word_of_nat 0 \<or> to = word_of_nat 1 \<or> to = word_of_nat 2" by metis
  then show ?thesis by (simp add: role_defs)
qed

lemma role_guard:
  assumes "change_arm s roster author by_ipk (Role who to) = Inr (nxt, after)"
  shows "to \<le> ROLE_OWNER"
    "role_of s by_ipk = ROLE_OWNER
     \<or> role_of s by_ipk = ROLE_ADMIN \<and> gr_admins_appoint (gs_rules s) \<and> role_of s who \<noteq> ROLE_OWNER \<and> to \<noteq> ROLE_OWNER"
  using assms by (auto simp: Let_def split: if_splits)

lemma role_after_role:
  assumes "change_arm s roster author by_ipk (Role who to) = Inr (nxt, after)"
  shows "role_of nxt p = role_after s author by_ipk (Role who to) p"
  using assms role_cases [OF role_guard(1) [OF assms]] by (auto simp: Let_def role_defs split: if_splits)

lemma role_after_request:
  assumes "change_arm s roster author by_ipk (MemberRequest r) = Inr (nxt, after)"
  shows "role_of nxt p = role_after s author by_ipk (MemberRequest r) p"
proof -
  have other: "gq_who r \<noteq> author" using assms by (auto split: if_splits)
  define left where "left = (if gq_action r = Leave_Group then drop_role (gq_who r) s else s)"
  define owned where "owned = (if gq_action r = Leave_Group \<and> gs_owners left = []
      then (let d = drop_role author left in d\<lparr> gs_owners := gs_owners d @ [author] \<rparr>) else left)"
  have nxt: "nxt = (if gs_committer s = gq_who r
      then let c = owned\<lparr> gs_committer := author \<rparr> in
           if role_of c author = ROLE_MEMBER then c\<lparr> gs_admins := gs_admins c @ [author] \<rparr> else c
      else owned)"
    using assms by (simp add: left_def owned_def Let_def split: if_splits)
  have role_left: "role_of left p = (if gq_action r = Leave_Group \<and> p = gq_who r then ROLE_MEMBER else role_of s p)" for p
    by (simp add: left_def)
  have empty: "gq_action r = Leave_Group \<Longrightarrow> gs_owners left = [] \<longleftrightarrow> set (gs_owners s) \<subseteq> {gq_who r}"
    by (simp add: left_def drop_role_ownerless)
  have role_owned: "role_of owned p =
      (if gq_action r = Leave_Group \<and> set (gs_owners s) \<subseteq> {gq_who r} \<and> p = author then ROLE_OWNER else role_of left p)" for p
    using empty by (cases "gq_action r = Leave_Group") (simp_all add: owned_def Let_def)
  have "role_of nxt p = (if gs_committer s = gq_who r \<and> p = author \<and> role_of owned p = ROLE_MEMBER then ROLE_ADMIN else role_of owned p)" for p
    by (auto simp: nxt Let_def role_defs)
  then show ?thesis using other by (auto simp: role_owned role_left role_defs)
qed

text \<open>Every accepted change does to the roles what the abstract view says.\<close>

lemma change_arm_roles:
  assumes "change_arm s roster author by_ipk c = Inr (nxt, after)"
  shows "role_of nxt p = role_after s author by_ipk c p"
proof (cases c)
  case (Leave x)
  then show ?thesis using assms role_after_leave by blast
next
  case (Role who to)
  then show ?thesis using assms role_after_role by blast
next
  case (MemberRequest r)
  then show ?thesis using assms role_after_request by blast
qed (use assms in \<open>auto simp: role_defs split: if_splits sum.splits\<close>)

section \<open>Groups over time\<close>

text \<open>A member that sees a commit keeps its state when the change is refused.\<close>

definition group_step :: "bytes \<times> signed_change \<Rightarrow> group_state \<times> bytes list \<Rightarrow> group_state \<times> bytes list" where
  "group_step x g = (case policy_step (fst g) (snd g) (fst x) (snd x) of Inl err \<Rightarrow> g | Inr g' \<Rightarrow> g')"

interpretation grp: step_system "(founded p, [p])" group_step "\<lambda>_ _. True" "\<lambda>g. group_ok (fst g) (snd g)" for p
proof (unfold_locales)
  show "group_ok (fst (founded p, [p])) (snd (founded p, [p]))" by (simp add: group_ok_founded)
  show "group_ok (fst (group_step x g)) (snd (group_step x g))" if "group_ok (fst g) (snd g)" for x g
  proof (cases "policy_step (fst g) (snd g) (fst x) (snd x)")
    case (Inl err)
    then show ?thesis using that by (simp add: group_step_def)
  next
    case (Inr g')
    then have "group_ok (fst g') (snd g')"
      using group_ok_step [of "fst g" "snd g" "fst x" "snd x" "fst g'" "snd g'"] that by (simp add: group_ok_def)
    then show ?thesis using Inr by (simp add: group_step_def)
  qed
qed

section \<open>Properties\<close>

text \<open>
  Property C10: a group stays governed.  Whatever sequence of changes is attempted on a newly founded
  group, by anyone and carried by anyone, the group always has an owner, nobody holds two roles,
  every role is held by a member, and the committer is an owner or an admin.
\<close>

theorem group_stays_governed:
  "let g = fold group_step attempts (founded p, [p]) in
   gs_owners (fst g) \<noteq> [] \<and> distinct (gs_owners (fst g) @ gs_admins (fst g)) \<and> distinct (snd g)
   \<and> set (gs_owners (fst g) @ gs_admins (fst g)) \<subseteq> set (snd g)
   \<and> gs_committer (fst g) \<in> set (gs_owners (fst g) @ gs_admins (fst g))"
  using grp.inv_run [OF trace_ok_const, OF TrueI, of attempts p] unfolding group_ok_def Let_def by blast

text \<open>Who may raise a role, and who may lower one.\<close>

definition may_raise :: "group_state \<Rightarrow> bytes \<Rightarrow> signed_change \<Rightarrow> bytes \<Rightarrow> u8 \<Rightarrow> bool" where
  "may_raise s author chg p to \<longleftrightarrow>
     (case sc_change chg of
        Role who r \<Rightarrow> who = p \<and> r = to
          \<and> (role_of s (sc_by chg) = ROLE_OWNER
             \<or> role_of s (sc_by chg) = ROLE_ADMIN \<and> gr_admins_appoint (gs_rules s) \<and> to = ROLE_ADMIN)
      | Leave successor \<Rightarrow> successor = Some p \<and> set (gs_owners s) = {sc_by chg}
      | Handover who \<Rightarrow> who = p \<and> sc_by chg = gs_committer s \<and> to = ROLE_ADMIN
          \<and> length (gs_owners s) + length (gs_admins s) = 1
      | MemberRequest r \<Rightarrow> p = author \<and> gq_who r \<noteq> p
          \<and> (gq_who r = gs_committer s \<or> gq_action r = Leave_Group \<and> set (gs_owners s) = {gq_who r})
      | _ \<Rightarrow> False)"

definition may_lower :: "group_state \<Rightarrow> signed_change \<Rightarrow> bytes \<Rightarrow> bool" where
  "may_lower s chg p \<longleftrightarrow>
     (case sc_change chg of
        Remove who \<Rightarrow> who = p \<and> role_of s (sc_by chg) \<ge> ROLE_ADMIN
          \<and> (role_of s p = ROLE_OWNER \<longrightarrow> role_of s (sc_by chg) = ROLE_OWNER)
      | Leave successor \<Rightarrow> sc_by chg = p
      | Role who r \<Rightarrow> who = p
          \<and> (role_of s (sc_by chg) = ROLE_OWNER
             \<or> role_of s (sc_by chg) = ROLE_ADMIN \<and> gr_admins_appoint (gs_rules s) \<and> role_of s p = ROLE_ADMIN)
      | MemberRequest r \<Rightarrow> gq_who r = p \<and> gq_action r = Leave_Group
      | _ \<Rightarrow> False)"

lemma sole_owner: "gs_owners s \<noteq> [] \<Longrightarrow> set (gs_owners s) \<subseteq> {w} \<longleftrightarrow> set (gs_owners s) = {w}"
  by (cases "gs_owners s") auto

definition authorized :: "group_state \<Rightarrow> bytes \<Rightarrow> signed_change \<Rightarrow> bytes \<Rightarrow> u8 \<Rightarrow> bool" where
  "authorized s author chg p to \<longleftrightarrow>
     (role_of s p < to \<longrightarrow> may_raise s author chg p to) \<and> (to < role_of s p \<longrightarrow> may_lower s chg p)"

lemma leave_authority:
  assumes "gs_owners s \<noteq> []" "sc_change chg = Leave successor"
  shows "authorized s author chg p (role_after s author (sc_by chg) (Leave successor) p)"
proof (cases "set (gs_owners s) \<subseteq> {sc_by chg} \<and> successor = Some p")
  case True
  have own: "set (gs_owners s) = {sc_by chg}" using True sole_owner [OF assms(1)] by blast
  have "\<not> ROLE_OWNER < role_of s p" using role_of_cases [of s p] by (auto simp: role_defs)
  moreover have "may_raise s author chg p to" for to using True by (simp add: may_raise_def assms(2) own)
  ultimately show ?thesis using True by (simp add: authorized_def)
next
  case False
  then have "role_after s author (sc_by chg) (Leave successor) p = (if p = sc_by chg then ROLE_MEMBER else role_of s p)"
    unfolding role_after.simps by (simp only: if_False)
  then show ?thesis using assms(2) by (simp add: authorized_def may_lower_def role_defs)
qed

lemma request_authority:
  assumes "gs_owners s \<noteq> []" "sc_change chg = MemberRequest r" "gq_who r \<noteq> author"
  shows "authorized s author chg p (role_after s author (sc_by chg) (MemberRequest r) p)"
proof -
  let ?to = "role_after s author (sc_by chg) (MemberRequest r) p"
  have "may_raise s author chg p ?to" if "role_of s p < ?to"
  proof -
    have "p = author \<and> (gq_who r = gs_committer s \<or> gq_action r = Leave_Group \<and> set (gs_owners s) \<subseteq> {gq_who r})"
      using that by (auto simp: role_defs split: if_splits)
    then show ?thesis using assms(2,3) unfolding sole_owner [OF assms(1)] by (auto simp: may_raise_def)
  qed
  moreover have "may_lower s chg p" if "?to < role_of s p"
    using that assms(2) role_of_cases [of s p] by (auto simp: may_lower_def role_defs split: if_splits)
  ultimately show ?thesis by (simp add: authorized_def)
qed

lemma policy_step_authority:
  assumes owners: "gs_owners s \<noteq> []" and "policy_step s roster author chg = Inr (s', after)"
  shows "authorized s author chg p (role_of s' p)"
proof -
  obtain nxt where arm: "change_arm s roster author (sc_by chg) (sc_change chg) = Inr (nxt, after)"
    and s': "s' = nxt\<lparr> gs_last := Some chg \<rparr>"
    by (rule policy_step_parts [OF assms(2)])
  have role: "role_of s' p = role_after s author (sc_by chg) (sc_change chg) p"
    using change_arm_roles [OF arm] by (simp add: s')
  have ranked: "length (gs_owners s) + length (gs_admins s) \<noteq> 0" using owners by simp
  show ?thesis
  proof (cases "sc_change chg")
    case (Remove who)
    have "role_of s (sc_by chg) \<ge> ROLE_ADMIN \<and> (role_of s who = ROLE_OWNER \<longrightarrow> role_of s (sc_by chg) \<ge> ROLE_OWNER)"
      using arm Remove by (auto simp: not_less split: if_splits)
    then show ?thesis using role Remove role_of_cases [of s p] role_of_cases [of s "sc_by chg"]
      by (auto simp: authorized_def may_lower_def role_defs)
  next
    case (Leave successor)
    then show ?thesis using leave_authority [OF owners Leave] unfolding role by simp
  next
    case (Role who to)
    note guard = role_guard [OF arm [unfolded Role]]
    show ?thesis using role Role role_cases [OF guard(1)] guard(2) role_of_cases [of s p]
      by (auto simp: authorized_def may_raise_def may_lower_def role_defs)
  next
    case (Handover to)
    have "sc_by chg = gs_committer s" "role_of s to = ROLE_MEMBER \<Longrightarrow> \<not> 1 < length (gs_owners s) + length (gs_admins s)"
      using arm Handover by (auto split: if_splits)
    moreover from this ranked have "role_of s to = ROLE_MEMBER \<Longrightarrow> length (gs_owners s) + length (gs_admins s) = 1"
      by linarith
    ultimately show ?thesis using role Handover by (auto simp: authorized_def may_raise_def role_defs)
  next
    case (MemberRequest r)
    have "gq_who r \<noteq> author" using arm MemberRequest by (auto split: if_splits)
    then show ?thesis using request_authority [OF owners MemberRequest] MemberRequest unfolding role by simp
  qed (use role in \<open>simp_all add: authorized_def\<close>)
qed


definition demo_change :: "bytes \<Rightarrow> group_change \<Rightarrow> signed_change" where
  "demo_change p c = \<lparr> sc_by = p, sc_epoch = 1, sc_branch = [], sc_change = c, sc_sig = [] \<rparr>"

text \<open>A owns and commits, B is an admin, C a member; A makes C an admin.\<close>

definition demo_group :: group_state where
  "demo_group = (founded [1])\<lparr> gs_admins := [[2]] \<rparr>"


end
