(* ===== verification/Chunk_Ranges.thy ===== *)
theory Chunk_Ranges
  imports Identity
begin

text \<open>
  The manifest of an attachment (\<^verbatim>\<open>libcore/src/transfer/wire.rs\<close>) and the bitmap of its verified chunks
  (\<^verbatim>\<open>libcore/src/transfer/ranges.rs\<close>): validation, single bits, the contiguous prefix, and the choice of
  the missing runs to ask a peer for.  A valid manifest has at most \<^verbatim>\<open>MAX_CHUNKS\<close> chunks of at most
  \<^verbatim>\<open>CHUNK_SIZE\<close> bytes, so indices and offsets stay far below \<^verbatim>\<open>u32\<close> and \<^verbatim>\<open>u64\<close> and are natural numbers.
\<close>

section \<open>Manifests\<close>

definition CHUNK_SIZE :: nat where "CHUNK_SIZE = 256 * 1024"
definition MAX_CHUNKS :: nat where "MAX_CHUNKS = 8 * 1024 * 1024 div 32"

record manifest =
  mf_total_size :: u64
  mf_chunk_size :: u32
  mf_chunks :: "bytes list"

text \<open>
  \<^verbatim>\<open>from_file\<close>: the inner loop fills the buffer whatever the sizes of the single reads, so a pass takes
  the next \<^verbatim>\<open>CHUNK_SIZE\<close> bytes, or what is left of them.
\<close>

function file_chunks :: "crypto \<Rightarrow> bytes \<Rightarrow> bytes list" where
  "file_chunks cr bs =
     (let buf = take CHUNK_SIZE bs in
      if buf = [] then []
      else if length buf < CHUNK_SIZE then [blake3 cr buf]
      else blake3 cr buf # file_chunks cr (drop CHUNK_SIZE bs))"
  by pat_completeness auto
termination
  by (relation "measure (\<lambda>(cr, bs). length bs)") (auto simp: CHUNK_SIZE_def)

declare file_chunks.simps [simp del]

definition from_file :: "crypto \<Rightarrow> bytes \<Rightarrow> manifest" where
  "from_file cr bs = \<lparr> mf_total_size = word_of_nat (length bs), mf_chunk_size = word_of_nat CHUNK_SIZE,
                       mf_chunks = file_chunks cr bs \<rparr>"

definition file_id :: "crypto \<Rightarrow> manifest \<Rightarrow> bytes" where
  "file_id cr m = blake3 cr (ascii ''promtuz/transfer/manifest'' @ rev (u64_be (mf_total_size m))
                             @ rev (u32_be (mf_chunk_size m)) @ concat (mf_chunks m))"

definition div_ceil :: "nat \<Rightarrow> nat \<Rightarrow> nat" where
  "div_ceil a b = (if a mod b > 0 then a div b + 1 else a div b)"

definition manifest_valid :: "crypto \<Rightarrow> manifest \<Rightarrow> bytes \<Rightarrow> u64 \<Rightarrow> bool" where
  "manifest_valid cr m fid offered_size \<longleftrightarrow>
     \<not> (mf_chunk_size m = 0
        \<or> unat (mf_chunk_size m) > CHUNK_SIZE
        \<or> length (mf_chunks m) > MAX_CHUNKS
        \<or> mf_total_size m \<noteq> offered_size
        \<or> length (mf_chunks m) \<noteq> div_ceil (unat (mf_total_size m)) (unat (mf_chunk_size m))
        \<or> file_id cr m \<noteq> fid)"

text \<open>Where a chunk of the manifest lies in the file.\<close>

definition chunk_offset :: "manifest \<Rightarrow> nat \<Rightarrow> nat" where
  "chunk_offset m idx = idx * unat (mf_chunk_size m)"

definition chunk_len :: "manifest \<Rightarrow> nat \<Rightarrow> nat" where
  "chunk_len m idx = min (unat (mf_total_size m) - chunk_offset m idx) (unat (mf_chunk_size m))"

section \<open>The bitmap\<close>

definition validate_bitmap :: "bytes \<Rightarrow> nat \<Rightarrow> bool" where
  "validate_bitmap bits chunks \<longleftrightarrow>
     \<not> (chunks > MAX_CHUNKS
        \<or> length bits \<noteq> div_ceil chunks 8
        \<or> chunks mod 8 \<noteq> 0 \<and> bits \<noteq> [] \<and> drop_bit (chunks mod 8) (last bits) \<noteq> 0)"

definition bitmap_bit :: "bytes \<Rightarrow> nat \<Rightarrow> bool" where
  "bitmap_bit bits index \<longleftrightarrow>
     index div 8 < length bits \<and> bits ! (index div 8) AND push_bit (index mod 8) 1 \<noteq> 0"

definition bitmap_set :: "nat \<Rightarrow> bool \<Rightarrow> bytes \<Rightarrow> bytes" where
  "bitmap_set index present bits =
     (if present then bits[index div 8 := bits ! (index div 8) OR push_bit (index mod 8) 1]
      else bits[index div 8 := bits ! (index div 8) AND NOT (push_bit (index mod 8) 1)])"

definition bitmap_prefix :: "bytes \<Rightarrow> nat \<Rightarrow> nat" where
  "bitmap_prefix bits chunks = length (takeWhile (bitmap_bit bits) [0..<chunks])"

section \<open>Missing runs\<close>

record chunk_range =
  cr_start :: nat
  cr_end :: nat

text \<open>The two loops of \<^verbatim>\<open>missing\<close>; \<^verbatim>\<open>has\<close> is \<^verbatim>\<open>contains\<close> and \<^verbatim>\<open>room\<close> the ranges still allowed.\<close>

function missing_run :: "(nat \<Rightarrow> bool) \<Rightarrow> nat \<Rightarrow> nat \<Rightarrow> nat \<Rightarrow> nat \<times> nat" where
  "missing_run has tot idx remaining =
     (if idx < tot \<and> \<not> has idx \<and> remaining > 0 then missing_run has tot (idx + 1) (remaining - 1)
      else (idx, remaining))"
  by pat_completeness auto
termination
  by (relation "measure (\<lambda>(has, tot, idx, remaining). tot - idx)") auto

declare missing_run.simps [simp del]

lemma missing_run_mono: "fst (missing_run has tot idx remaining) \<ge> idx"
  by (induction has tot idx remaining rule: missing_run.induct) (subst missing_run.simps, auto)

lemma missing_run_progress:
  "idx < tot \<Longrightarrow> \<not> has idx \<Longrightarrow> remaining > 0 \<Longrightarrow> idx < fst (missing_run has tot idx remaining)"
  using missing_run_mono [of "idx + 1" has tot "remaining - 1"] by (subst missing_run.simps) simp

function missing_loop :: "(nat \<Rightarrow> bool) \<Rightarrow> nat \<Rightarrow> nat \<Rightarrow> nat \<Rightarrow> nat \<Rightarrow> chunk_range list" where
  "missing_loop has tot room idx remaining =
     (if idx < tot \<and> room > 0 \<and> remaining > 0
      then if has idx then missing_loop has tot room (idx + 1) remaining
           else case missing_run has tot idx remaining of
                  (idx', remaining') \<Rightarrow>
                    \<lparr> cr_start = idx, cr_end = idx' \<rparr> # missing_loop has tot (room - 1) idx' remaining'
      else [])"
  by pat_completeness auto
termination
proof (relation "measure (\<lambda>(has, tot, room, idx, remaining). tot - idx)", goal_cases)
  case (3 has tot room idx remaining idx' remaining')
  then have "idx < idx'" using missing_run_progress [of idx tot has remaining] by (metis fst_conv)
  then show ?case using 3(1) by auto
qed auto

declare missing_loop.simps [simp del]

section \<open>Bits\<close>

lemma bitmap_bit_iff: "bitmap_bit bits i \<longleftrightarrow> i div 8 < length bits \<and> bit (bits ! (i div 8)) (i mod 8)"
  by (simp add: bitmap_bit_def bit_iff_and_push_bit_not_eq_0)

lemma length_bitmap_set [simp]: "length (bitmap_set i b bits) = length bits"
  by (simp add: bitmap_set_def)

lemma bit_set_byte:
  fixes w :: u8
  assumes "k < 8" "l < 8"
  shows "bit (w OR 2 ^ k) l \<longleftrightarrow> l = k \<or> bit w l" "bit (w AND NOT (2 ^ k)) l \<longleftrightarrow> l \<noteq> k \<and> bit w l"
  using assms by (auto simp: bit_or_iff bit_and_iff bit_not_iff bit_exp_iff)

lemma bitmap_bit_set:
  assumes "i div 8 < length bits"
  shows "bitmap_bit (bitmap_set i b bits) j = (if j = i then b else bitmap_bit bits j)"
proof (cases "j div 8 = i div 8")
  case True
  have same: "j mod 8 = i mod 8 \<longleftrightarrow> j = i" using True by (metis div_mult_mod_eq)
  show ?thesis
    using assms unfolding bitmap_bit_iff bitmap_set_def length_list_update True
    by (simp add: bit_set_byte same)
next
  case False
  then show ?thesis using assms by (auto simp: bitmap_bit_iff bitmap_set_def)
qed

lemma less_div_ceil_iff:
  assumes "b > 0"
  shows "i < div_ceil a b \<longleftrightarrow> i * b < a"
proof -
  have a: "a = a div b * b + a mod b" "a mod b < b" using assms by simp_all
  consider "i < a div b" | "i = a div b" | "i > a div b" by linarith
  then show ?thesis
  proof cases
    case 1
    then have "i * b < a div b * b" using assms by (rule mult_strict_right_mono)
    then have "i * b < a" using a(1) by linarith
    then show ?thesis using 1 by (simp add: div_ceil_def)
  next
    case 2
    then have "i * b + a mod b = a" by simp
    then have "i * b < a \<longleftrightarrow> a mod b > 0" by linarith
    then show ?thesis using 2 by (simp add: div_ceil_def)
  next
    case 3
    then have "a < i * b" using assms div_less_iff_less_mult [of b a i] by simp
    then show ?thesis using 3 by (simp add: div_ceil_def)
  qed
qed

lemma div8_less: "i < n \<Longrightarrow> i div 8 < div_ceil n 8"
  by (simp add: less_div_ceil_iff)

lemma takeWhile_upt_resume:
  assumes "\<And>i. i < h \<Longrightarrow> P i" "h \<le> n"
  shows "h + length (takeWhile P [h..<n]) = length (takeWhile P [0..<n])"
proof -
  have "[0..<n] = [0..<h] @ [h..<n]" using assms(2) by (metis le_add_diff_inverse upt_add_eq_append zero_le)
  moreover have "takeWhile P ([0..<h] @ [h..<n]) = [0..<h] @ takeWhile P [h..<n]"
    by (rule takeWhile_append2) (use assms(1) in simp)
  ultimately show ?thesis by simp
qed

lemma bitmap_prefix_bits: "i < bitmap_prefix bits n \<Longrightarrow> i < n \<and> bitmap_bit bits i"
proof -
  assume i: "i < bitmap_prefix bits n"
  have len: "bitmap_prefix bits n \<le> n"
    unfolding bitmap_prefix_def using length_takeWhile_le [of "bitmap_bit bits" "[0..<n]"] by simp
  have "takeWhile (bitmap_bit bits) [0..<n] ! i = i"
    using i len takeWhile_nth [of i "bitmap_bit bits" "[0..<n]"] by (simp add: bitmap_prefix_def)
  moreover have "takeWhile (bitmap_bit bits) [0..<n] ! i \<in> set (takeWhile (bitmap_bit bits) [0..<n])"
    using i by (simp add: bitmap_prefix_def)
  ultimately show ?thesis using i len set_takeWhileD by (metis less_le_trans)
qed

lemma bitmap_prefix_le: "bitmap_prefix bits n \<le> n"
  unfolding bitmap_prefix_def using length_takeWhile_le [of "bitmap_bit bits" "[0..<n]"] by simp

lemma bitmap_prefix_next: "bitmap_prefix bits n < n \<Longrightarrow> \<not> bitmap_bit bits (bitmap_prefix bits n)"
  using nth_length_takeWhile [of "bitmap_bit bits" "[0..<n]"] by (simp add: bitmap_prefix_def)

section \<open>What is asked for\<close>

definition covered :: "chunk_range list \<Rightarrow> nat set" where
  "covered rs = (\<Union>r \<in> set rs. {cr_start r..<cr_end r})"

definition asked :: "chunk_range list \<Rightarrow> nat" where
  "asked rs = sum_list (map (\<lambda>r. cr_end r - cr_start r) rs)"

text \<open>
  Sorted disjoint runs inside the file, within both limits, that cover exactly the missing chunks up to some
  point, which is the end of the file unless a limit is used up.
\<close>

definition missing_ok :: "(nat \<Rightarrow> bool) \<Rightarrow> nat \<Rightarrow> nat \<Rightarrow> nat \<Rightarrow> nat \<Rightarrow> chunk_range list \<Rightarrow> bool" where
  "missing_ok has tot room idx remaining rs \<longleftrightarrow>
     sorted_wrt (\<lambda>a b. cr_end a < cr_start b) rs
     \<and> (\<forall>r \<in> set rs. idx \<le> cr_start r \<and> cr_start r < cr_end r \<and> cr_end r \<le> tot)
     \<and> length rs \<le> room \<and> asked rs \<le> remaining
     \<and> (\<exists>m \<le> tot. covered rs = {i. idx \<le> i \<and> i < m \<and> \<not> has i}
          \<and> (m = tot \<or> length rs = room \<or> asked rs = remaining))"

lemma missing_run_spec:
  assumes "missing_run has tot idx remaining = (idx', remaining')" "idx \<le> tot"
  shows "idx' + remaining' = idx + remaining \<and> idx' \<le> tot \<and> (\<forall>i. idx \<le> i \<and> i < idx' \<longrightarrow> \<not> has i)
       \<and> (idx' = tot \<or> has idx' \<or> remaining' = 0)"
  using assms
proof (induction has tot idx remaining arbitrary: idx' remaining' rule: missing_run.induct)
  case (1 has tot idx remaining)
  show ?case
  proof (cases "idx < tot \<and> \<not> has idx \<and> remaining > 0")
    case True
    then have rec: "missing_run has tot (idx + 1) (remaining - 1) = (idx', remaining')"
      using 1(2) by (simp add: missing_run.simps [of has tot idx])
    have IH: "idx' + remaining' = idx + 1 + (remaining - 1)" "idx' \<le> tot" "\<forall>i. idx + 1 \<le> i \<and> i < idx' \<longrightarrow> \<not> has i"
        "idx' = tot \<or> has idx' \<or> remaining' = 0"
      using 1(1) [OF True rec] True by simp_all
    have "\<not> has i" if "idx \<le> i" "i < idx'" for i
      using IH(3) True that by (cases "i = idx") auto
    then show ?thesis using IH(1,2,4) True by simp
  next
    case False
    then have "idx' = idx \<and> remaining' = remaining" using 1(2) by (subst (asm) missing_run.simps) auto
    then show ?thesis using False 1(3) by auto
  qed
qed

lemma missing_ok_Cons:
  assumes rest: "missing_ok has tot (room - 1) idx' remaining' rs" and room: "room > 0" and less: "idx < idx'"
    and run: "idx' + remaining' = idx + remaining" "idx' \<le> tot" "\<forall>i. idx \<le> i \<and> i < idx' \<longrightarrow> \<not> has i"
    and stop: "idx' = tot \<or> has idx' \<or> remaining' = 0"
  shows "missing_ok has tot room idx remaining (\<lparr> cr_start = idx, cr_end = idx' \<rparr> # rs)"
proof -
  let ?r = "\<lparr> cr_start = idx, cr_end = idx' \<rparr>"
  obtain m where m: "m \<le> tot" "covered rs = {i. idx' \<le> i \<and> i < m \<and> \<not> has i}"
      "m = tot \<or> length rs = room - 1 \<or> asked rs = remaining'"
    using rest unfolding missing_ok_def by blast
  have inside: "idx' \<le> cr_start r \<and> cr_start r < cr_end r \<and> cr_end r \<le> tot" if "r \<in> set rs" for r
    using rest that unfolding missing_ok_def by blast
  have limits: "length rs \<le> room - 1" "asked rs \<le> remaining'" using rest unfolding missing_ok_def by blast+
  have later: "idx' < cr_start r" if r: "r \<in> set rs" for r
  proof (rule ccontr)
    assume "\<not> idx' < cr_start r"
    then have start: "cr_start r = idx'" using inside [OF r] by simp
    then have "idx' \<in> covered rs" using r inside [OF r] unfolding covered_def by auto
    then have "\<not> has idx'" unfolding m(2) by simp
    moreover have "idx' < tot" using inside [OF r] start by simp
    moreover have "remaining' > 0"
    proof -
      have "cr_end r - cr_start r \<le> asked rs" unfolding asked_def using r by (intro member_le_sum_list) auto
      then show ?thesis using inside [OF r] limits(2) by linarith
    qed
    ultimately show False using stop by simp
  qed
  have cover: "covered (?r # rs) = {i. idx \<le> i \<and> i < max m idx' \<and> \<not> has i}"
    using run(3) less unfolding covered_def [of "?r # rs"]
    by (auto simp: covered_def [symmetric] m(2) not_le less_max_iff_disj)
  have ask: "asked (?r # rs) = idx' - idx + asked rs" by (simp add: asked_def)
  have "max m idx' = tot \<or> length (?r # rs) = room \<or> asked (?r # rs) = remaining"
    using m(1,3) run(1,2) room less unfolding ask by auto
  moreover have "sorted_wrt (\<lambda>a b. cr_end a < cr_start b) (?r # rs)"
    using rest later unfolding missing_ok_def by simp
  moreover have "\<forall>r \<in> set (?r # rs). idx \<le> cr_start r \<and> cr_start r < cr_end r \<and> cr_end r \<le> tot"
    using less run(2) by (fastforce dest: inside)
  moreover have "length (?r # rs) \<le> room" "asked (?r # rs) \<le> remaining"
    unfolding ask using limits room run(1) less by simp_all
  moreover have "max m idx' \<le> tot" using m(1) run(2) by simp
  ultimately show ?thesis unfolding missing_ok_def cover by blast
qed

lemma missing_loop_ok:
  "idx \<le> tot \<Longrightarrow> missing_ok has tot room idx remaining (missing_loop has tot room idx remaining)"
proof (induction has tot room idx remaining rule: missing_loop.induct)
  case (1 has tot room idx remaining)
  consider (stop) "\<not> (idx < tot \<and> room > 0 \<and> remaining > 0)" | (skip) "idx < tot \<and> room > 0 \<and> remaining > 0" "has idx"
    | (run) "idx < tot \<and> room > 0 \<and> remaining > 0" "\<not> has idx" by blast
  then show ?case
  proof cases
    case stop
    then have nil: "missing_loop has tot room idx remaining = []" by (subst missing_loop.simps) auto
    have "missing_ok has tot room idx remaining []" unfolding missing_ok_def covered_def asked_def
      using stop 1(3) by (auto intro: exI [of _ idx])
    then show ?thesis by (simp add: nil)
  next
    case skip
    have eq: "{i. idx + 1 \<le> i \<and> i < m \<and> \<not> has i} = {i. idx \<le> i \<and> i < m \<and> \<not> has i}" for m
      using skip(2) by (auto simp: Suc_le_eq) (metis le_neq_implies_less)
    have "missing_ok has tot room (idx + 1) remaining (missing_loop has tot room (idx + 1) remaining)"
      using 1(1) [OF skip] skip(1) by simp
    then have "missing_ok has tot room idx remaining (missing_loop has tot room (idx + 1) remaining)"
      unfolding missing_ok_def eq by auto
    moreover have "missing_loop has tot room idx remaining = missing_loop has tot room (idx + 1) remaining"
      using skip by (subst missing_loop.simps) simp
    ultimately show ?thesis by simp
  next
    case run
    obtain idx' remaining' where step: "missing_run has tot idx remaining = (idx', remaining')" by (rule prod.exhaust)
    note spec = missing_run_spec [OF step 1(3)]
    let ?rest = "missing_loop has tot (room - 1) idx' remaining'"
    have eq: "missing_loop has tot room idx remaining = \<lparr> cr_start = idx, cr_end = idx' \<rparr> # ?rest"
      using run step by (subst missing_loop.simps) simp
    have "idx < idx'" using missing_run_progress [of idx tot has remaining] run step by simp
    moreover have "missing_ok has tot (room - 1) idx' remaining' ?rest"
      using 1(2) [OF run step [symmetric]] spec by simp
    ultimately have "missing_ok has tot room idx remaining (\<lparr> cr_start = idx, cr_end = idx' \<rparr> # ?rest)"
      using missing_ok_Cons spec run by blast
    then show ?thesis by (simp add: eq)
  qed
qed

end
