(* ===== verification/Receiver.thy ===== *)
theory Receiver
  imports Chunk_Ranges
begin

text \<open>
  Receiving an attachment (\<^verbatim>\<open>libcore/src/transfer/ranges.rs\<close>, \<^verbatim>\<open>libcore/src/transfer/store.rs\<close>): the receiver
  owns the partial file and its bitmap, verifies and writes chunks in any order, and publishes the
  bitmap with the prefix in one transaction.  The outcomes of file system, database and cancellation
  are inputs of each operation, so every failure is a branch.
\<close>

section \<open>Rows and leases\<close>

definition ACTIVE :: u8 where "ACTIVE = 1"
definition DONE :: u8 where "DONE = 2"

record partial_row =
  pt_file_id :: bytes
  pt_source_ipk :: bytes
  pt_total :: u64
  pt_chunk_size :: u32
  pt_manifest :: "bytes option"
  pt_have :: nat
  pt_state :: u8
  pt_path :: bytes
  pt_updated_at :: u64

text \<open>
  The \<^verbatim>\<open>partials\<close> table: the row of a file and its \<^verbatim>\<open>verified\<close> column.  A token is an address, and
  \<^verbatim>\<open>Arc::ptr_eq\<close> compares those.
\<close>

type_synonym partials = "bytes \<Rightarrow> (partial_row \<times> bytes option) option"

record receiver_lease =
  le_file_id :: bytes
  le_cancel :: nat

datatype xfer_error = Cancelled | Invalid_Frame | Io_Error | Db_Error | Encode_Error | Wrong_Lease | Row_Gone

definition partial_put_locked :: "partial_row \<Rightarrow> partials \<Rightarrow> partials" where
  "partial_put_locked p db = db(pt_file_id p := Some (p, case db (pt_file_id p) of None \<Rightarrow> None | Some (_, v) \<Rightarrow> v))"

definition verified_bitmap_tx :: "partials \<Rightarrow> bytes \<Rightarrow> bytes option" where
  "verified_bitmap_tx db fid =
     (case db fid of
        None \<Rightarrow> None
      | Some (_, None) \<Rightarrow> None
      | Some (_, Some v) \<Rightarrow> if length v > 32768 then Some [] else Some v)"

text \<open>The transaction commits both statements or neither.\<close>

definition partial_put_verified_locked :: "bool \<Rightarrow> partial_row \<Rightarrow> bytes \<Rightarrow> partials \<Rightarrow> partials \<times> (xfer_error + unit)" where
  "partial_put_verified_locked sql_ok p verified db =
     (if \<not> sql_ok then (db, Inl Db_Error)
      else ((partial_put_locked p db)(pt_file_id p := Some (p, Some verified)), Inr ()))"

definition partial_put_verified_live_tx ::
  "bool \<Rightarrow> bool \<Rightarrow> partial_row \<Rightarrow> bytes \<Rightarrow> receiver_lease \<Rightarrow> partials \<Rightarrow> partials \<times> (xfer_error + unit)" where
  "partial_put_verified_live_tx cancelled sql_ok p verified lease db =
     (if cancelled then (db, Inl Cancelled)
      else if pt_file_id p \<noteq> le_file_id lease then (db, Inl Wrong_Lease)
      else partial_put_verified_locked sql_ok p verified db)"

definition partial_progress_verified_live_tx ::
  "bool \<Rightarrow> bool \<Rightarrow> bytes \<Rightarrow> nat \<Rightarrow> u8 \<Rightarrow> u64 \<Rightarrow> bytes \<Rightarrow> receiver_lease \<Rightarrow> partials \<Rightarrow> partials \<times> (xfer_error + unit)" where
  "partial_progress_verified_live_tx cancelled sql_ok fid have_n state updated_at verified lease db =
     (if cancelled then (db, Inl Cancelled)
      else if fid \<noteq> le_file_id lease then (db, Inl Wrong_Lease)
      else if \<not> sql_ok then (db, Inl Db_Error)
      else case db fid of
        None \<Rightarrow> (db, Inl Row_Gone)
      | Some (p, _) \<Rightarrow>
          (db(fid := Some (p\<lparr> pt_have := have_n, pt_state := state, pt_updated_at := updated_at \<rparr>, Some verified)), Inr ()))"

section \<open>The receiver\<close>

record receiver =
  rv_file :: bytes
  rv_manifest :: manifest
  rv_partial :: partial_row
  rv_verified :: bytes
  rv_cancel :: nat

text \<open>The file: a write past the end fills the gap with zeros, and a short file does not fill a read.\<close>

definition file_write :: "bytes \<Rightarrow> nat \<Rightarrow> bytes \<Rightarrow> bytes" where
  "file_write f off bs =
     (if bs = [] then f
      else take off (f @ replicate (off - length f) 0) @ bs @ drop (off + length bs) f)"

definition read_exact :: "bytes \<Rightarrow> nat \<Rightarrow> nat \<Rightarrow> bytes option" where
  "read_exact f off len = slice f off len"

definition set_len :: "nat \<Rightarrow> bytes \<Rightarrow> bytes" where
  "set_len n f = take n f @ replicate (n - length f) 0"

definition rv_contains :: "receiver \<Rightarrow> nat \<Rightarrow> bool" where
  "rv_contains r index \<longleftrightarrow> index < length (mf_chunks (rv_manifest r)) \<and> bitmap_bit (rv_verified r) index"

definition rv_missing :: "receiver \<Rightarrow> nat \<Rightarrow> nat \<Rightarrow> chunk_range list" where
  "rv_missing r max_ranges max_chunks =
     missing_loop (rv_contains r) (length (mf_chunks (rv_manifest r))) max_ranges (pt_have (rv_partial r)) max_chunks"

subsection \<open>Opening\<close>

text \<open>
  What opening meets outside: the tokens at each check, the state of the saved path, the content
  behind the opened path, read errors, and the outcomes of sync, encoding and database.
\<close>

datatype open_point = At_Start | At_Open | At_Chunk nat | Before_Sync | After_Sync | At_Publish

datatype path_state = Path_Exists | Path_Missing | Path_Error

record xfer_env =
  xe_crypto :: crypto
  xe_ser :: "manifest \<Rightarrow> bytes option"
  xe_de :: "bytes \<Rightarrow> manifest option"

record open_io =
  oi_cancelled :: "open_point \<Rightarrow> bool"
  oi_path :: path_state
  oi_new_path :: bytes
  oi_content :: "bytes \<Rightarrow> bytes option"
  oi_read_fails :: "nat \<Rightarrow> bool"
  oi_bitmap_ok :: bool
  oi_sync_ok :: bool
  oi_sql_ok :: bool
  oi_now :: u64

text \<open>The row is trusted as a candidate only for the same geometry and the same manifest.\<close>

definition saved_matches :: "xfer_env \<Rightarrow> bytes \<Rightarrow> manifest \<Rightarrow> u64 \<Rightarrow> bool \<Rightarrow> partial_row \<Rightarrow> bool" where
  "saved_matches e fid m offered_size saved_file_exists p \<longleftrightarrow>
     saved_file_exists \<and> pt_total p = mf_total_size m \<and> pt_chunk_size p = mf_chunk_size m
     \<and> (case pt_manifest p of
          None \<Rightarrow> False
        | Some bs \<Rightarrow> length bs \<le> 8 * 1024 * 1024
            \<and> (case xe_de e bs of
                 None \<Rightarrow> False
               | Some saved \<Rightarrow> manifest_valid (xe_crypto e) saved fid offered_size \<and> saved = m))"

definition candidate_bits ::
  "xfer_env \<Rightarrow> bytes \<Rightarrow> manifest \<Rightarrow> u64 \<Rightarrow> bool \<Rightarrow> bool \<Rightarrow> partials \<Rightarrow> xfer_error + bytes" where
  "candidate_bits e fid m offered_size saved_file_exists bitmap_ok db =
     (let chunks = length (mf_chunks m); empty = replicate (div_ceil chunks 8) 0 in
      case db fid of
        None \<Rightarrow> Inr empty
      | Some (p, _) \<Rightarrow>
          if \<not> saved_matches e fid m offered_size saved_file_exists p then Inr empty
          else if \<not> bitmap_ok then Inl Db_Error
          else case verified_bitmap_tx db fid of
            Some bits \<Rightarrow> Inr (if validate_bitmap bits chunks then bits else empty)
          | None \<Rightarrow> Inr (fold (\<lambda>idx. bitmap_set idx True) [0..<min (pt_have p) chunks] empty))"

text \<open>The scan that reads every candidate chunk back and drops it unless its hash is the manifest's.\<close>

fun recheck ::
  "xfer_env \<Rightarrow> open_io \<Rightarrow> manifest \<Rightarrow> bytes \<Rightarrow> nat list \<Rightarrow> bytes \<Rightarrow> xfer_error + bytes" where
  "recheck e io m f [] verified = Inr verified"
| "recheck e io m f (idx # rest) verified =
     (if \<not> bitmap_bit verified idx then recheck e io m f rest verified
      else if oi_cancelled io (At_Chunk idx) then Inl Cancelled
      else if oi_read_fails io idx then Inl Io_Error
      else let valid = (case read_exact f (chunk_offset m idx) (chunk_len m idx) of
                          None \<Rightarrow> False
                        | Some buf \<Rightarrow> blake3 (xe_crypto e) buf = mf_chunks m ! idx)
           in recheck e io m f rest (if valid then verified else bitmap_set idx False verified))"

definition open_path :: "open_io \<Rightarrow> bytes \<Rightarrow> partials \<Rightarrow> xfer_error + bytes \<times> bool" where
  "open_path io fid db =
     (case db fid of
        None \<Rightarrow> Inr (oi_new_path io, False)
      | Some (p, _) \<Rightarrow>
          (case oi_path io of
             Path_Exists \<Rightarrow> Inr (pt_path p, True)
           | Path_Missing \<Rightarrow> Inr (oi_new_path io, False)
           | Path_Error \<Rightarrow> Inl Io_Error))"

definition open_publish ::
  "xfer_env \<Rightarrow> open_io \<Rightarrow> bytes \<Rightarrow> bytes \<Rightarrow> manifest \<Rightarrow> receiver_lease \<Rightarrow> bytes \<Rightarrow> bytes \<Rightarrow> bytes \<Rightarrow> partials
   \<Rightarrow> partials \<times> (xfer_error + receiver)" where
  "open_publish e io fid peer m lease path f verified db =
     (case xe_ser e m of
        None \<Rightarrow> (db, Inl Encode_Error)
      | Some mb \<Rightarrow>
          let p = \<lparr> pt_file_id = fid, pt_source_ipk = peer, pt_total = mf_total_size m, pt_chunk_size = mf_chunk_size m,
                    pt_manifest = Some mb, pt_have = bitmap_prefix verified (length (mf_chunks m)),
                    pt_state = ACTIVE, pt_path = path, pt_updated_at = oi_now io \<rparr>
          in if oi_cancelled io Before_Sync then (db, Inl Cancelled)
             else if \<not> oi_sync_ok io then (db, Inl Io_Error)
             else if oi_cancelled io After_Sync then (db, Inl Cancelled)
             else case partial_put_verified_live_tx (oi_cancelled io At_Publish) (oi_sql_ok io) p verified lease db of
               (db', Inl err) \<Rightarrow> (db', Inl err)
             | (db', Inr _) \<Rightarrow>
                 (db', Inr \<lparr> rv_file = f, rv_manifest = m, rv_partial = p, rv_verified = verified,
                             rv_cancel = le_cancel lease \<rparr>))"

definition open_inner ::
  "xfer_env \<Rightarrow> open_io \<Rightarrow> bytes \<Rightarrow> bytes \<Rightarrow> manifest \<Rightarrow> u64 \<Rightarrow> receiver_lease \<Rightarrow> partials
   \<Rightarrow> partials \<times> (xfer_error + receiver)" where
  "open_inner e io fid peer m offered_size lease db =
     (if oi_cancelled io At_Start then (db, Inl Cancelled)
      else if \<not> manifest_valid (xe_crypto e) m fid offered_size then (db, Inl Invalid_Frame)
      else case open_path io fid db of
        Inl err \<Rightarrow> (db, Inl err)
      | Inr (path, saved_file_exists) \<Rightarrow>
          (case candidate_bits e fid m offered_size saved_file_exists (oi_bitmap_ok io) db of
             Inl err \<Rightarrow> (db, Inl err)
           | Inr bits \<Rightarrow>
               if oi_cancelled io At_Open then (db, Inl Cancelled)
               else case oi_content io path of
                 None \<Rightarrow> (db, Inl Io_Error)
               | Some f \<Rightarrow>
                   (case recheck e io m f [0..<length (mf_chunks m)] bits of
                      Inl err \<Rightarrow> (db, Inl err)
                    | Inr verified \<Rightarrow> open_publish e io fid peer m lease path f verified db)))"

subsection \<open>Chunks and the end\<close>

text \<open>
  The outcomes of a commit: \<^verbatim>\<open>ci_written\<close> is how many bytes reached the file when the seek or the write
  failed, and \<^verbatim>\<open>None\<close> when it did not.
\<close>

record commit_io =
  ci_cancelled :: bool
  ci_written :: "nat option"
  ci_sync_ok :: bool
  ci_cancelled_db :: bool
  ci_sql_ok :: bool
  ci_now :: u64

definition rv_ensure_live :: "bool \<Rightarrow> receiver_lease \<Rightarrow> receiver \<Rightarrow> bool" where
  "rv_ensure_live cancelled lease r \<longleftrightarrow> \<not> (cancelled \<or> rv_cancel r \<noteq> le_cancel lease)"

definition commit_chunk ::
  "crypto \<Rightarrow> commit_io \<Rightarrow> nat \<Rightarrow> bytes \<Rightarrow> receiver_lease \<Rightarrow> partials \<times> receiver
   \<Rightarrow> (partials \<times> receiver) \<times> (xfer_error + unit)" where
  "commit_chunk cr io index bs lease s =
     (case s of (db, r) \<Rightarrow>
        let m = rv_manifest r; chunks = length (mf_chunks m) in
        if \<not> rv_ensure_live (ci_cancelled io) lease r then (s, Inl Cancelled)
        else if index \<ge> chunks then (s, Inl Invalid_Frame)
        else if length bs \<noteq> chunk_len m index \<or> blake3 cr bs \<noteq> mf_chunks m ! index then (s, Inl Invalid_Frame)
        else if rv_contains r index then (s, Inr ())
        else case ci_written io of
          Some n \<Rightarrow> ((db, r\<lparr> rv_file := file_write (rv_file r) (chunk_offset m index) (take n bs) \<rparr>), Inl Io_Error)
        | None \<Rightarrow>
            let r1 = r\<lparr> rv_file := file_write (rv_file r) (chunk_offset m index) bs \<rparr> in
            if \<not> ci_sync_ok io then ((db, r1), Inl Io_Error)
            else let verified = bitmap_set index True (rv_verified r);
                     p = rv_partial r;
                     have_n = pt_have p + length (takeWhile (bitmap_bit verified) [pt_have p..<chunks])
                 in case partial_progress_verified_live_tx (ci_cancelled_db io) (ci_sql_ok io) (pt_file_id p) have_n
                           (pt_state p) (ci_now io) verified lease db of
                      (db', Inl err) \<Rightarrow> ((db', r1), Inl err)
                    | (db', Inr _) \<Rightarrow>
                        ((db', r1\<lparr> rv_verified := verified,
                                   rv_partial := p\<lparr> pt_have := have_n, pt_updated_at := ci_now io \<rparr> \<rparr>), Inr ()))"

text \<open>Finishing; \<^verbatim>\<open>ci_written\<close> stands for a failed \<^verbatim>\<open>set_len\<close>.\<close>

definition finish ::
  "commit_io \<Rightarrow> receiver_lease \<Rightarrow> partials \<times> receiver \<Rightarrow> (partials \<times> receiver) \<times> (xfer_error + unit)" where
  "finish io lease s =
     (case s of (db, r) \<Rightarrow>
        let m = rv_manifest r; p = rv_partial r in
        if \<not> rv_ensure_live (ci_cancelled io) lease r then (s, Inl Cancelled)
        else if pt_have p \<noteq> length (mf_chunks m) then (s, Inl Invalid_Frame)
        else if ci_written io \<noteq> None then (s, Inl Io_Error)
        else let r1 = r\<lparr> rv_file := set_len (unat (mf_total_size m)) (rv_file r) \<rparr> in
             if \<not> ci_sync_ok io then ((db, r1), Inl Io_Error)
             else case partial_progress_verified_live_tx (ci_cancelled_db io) (ci_sql_ok io) (pt_file_id p) (pt_have p)
                         DONE (ci_now io) (rv_verified r) lease db of
                    (db', Inl err) \<Rightarrow> ((db', r1), Inl err)
                  | (db', Inr _) \<Rightarrow> ((db', r1\<lparr> rv_partial := p\<lparr> pt_state := DONE, pt_updated_at := ci_now io \<rparr> \<rparr>), Inr ()))"

end
