(* ===== verification/Receiver_Integrity.thy ===== *)
theory Receiver_Integrity
  imports Receiver
begin

text \<open>
  What a finished download holds: over any order of chunks, any failures and restarts, and any content
  found on disk, a set bit means that the chunk's bytes in the file hash to the manifest.
\<close>

section \<open>The file\<close>

lemma read_exact_Some: "read_exact f off len = Some b \<longleftrightarrow> off + len \<le> length f \<and> b = take len (drop off f)"
  by (auto simp: read_exact_def slice_def)

lemma read_write_before:
  assumes "read_exact f off' len = Some b" "off' + len \<le> off"
  shows "read_exact (file_write f off bs) off' len = Some b"
proof (cases "bs = []")
  case False
  let ?A = "take off (f @ replicate (off - length f) 0)"
  have "take len (drop off' (?A @ bs @ drop (off + length bs) f)) = take len (drop off' ?A)"
    using assms(2) by simp
  also have "\<dots> = take len (drop off' f)"
    using assms by (auto simp: read_exact_Some drop_take)
  finally show ?thesis using assms False by (simp add: read_exact_Some file_write_def)
qed (use assms in \<open>simp add: file_write_def\<close>)

lemma read_write_after:
  assumes "read_exact f off' len = Some b" "off + length bs \<le> off'"
  shows "read_exact (file_write f off bs) off' len = Some b"
  using assms by (auto simp: read_exact_Some file_write_def)

lemma read_write_same: "bs \<noteq> [] \<Longrightarrow> read_exact (file_write f off bs) off (length bs) = Some bs"
  by (simp add: read_exact_Some file_write_def)

lemma read_set_len:
  "read_exact f off len = Some b \<Longrightarrow> off + len \<le> n \<Longrightarrow> read_exact (set_len n f) off len = Some b"
  by (auto simp: read_exact_Some set_len_def drop_take)

section \<open>Chunks of a manifest\<close>

definition geometry_ok :: "manifest \<Rightarrow> bool" where
  "geometry_ok m \<longleftrightarrow> mf_chunk_size m \<noteq> 0
     \<and> length (mf_chunks m) = div_ceil (unat (mf_total_size m)) (unat (mf_chunk_size m))"

lemma chunk_size_pos: "geometry_ok m \<Longrightarrow> unat (mf_chunk_size m) > 0"
  by (simp add: geometry_ok_def unat_gt_0)

lemma chunk_inside:
  assumes "geometry_ok m" "i < length (mf_chunks m)"
  shows "chunk_len m i > 0" "chunk_offset m i + chunk_len m i \<le> unat (mf_total_size m)"
    "chunk_offset m i + chunk_len m i \<le> chunk_offset m (i + 1)"
proof -
  have "i * unat (mf_chunk_size m) < unat (mf_total_size m)"
    using assms less_div_ceil_iff [OF chunk_size_pos [OF assms(1)]] by (simp add: geometry_ok_def)
  then show "chunk_len m i > 0" "chunk_offset m i + chunk_len m i \<le> unat (mf_total_size m)"
    "chunk_offset m i + chunk_len m i \<le> chunk_offset m (i + 1)"
    using chunk_size_pos [OF assms(1)] by (simp_all add: chunk_len_def chunk_offset_def)
qed

lemma chunk_offset_mono: "i \<le> j \<Longrightarrow> chunk_offset m i \<le> chunk_offset m j"
  by (simp add: chunk_offset_def)

text \<open>Writing inside one chunk leaves the other chunks as they are.\<close>

lemma read_other_chunk:
  assumes geo: "geometry_ok m" and i: "i < length (mf_chunks m)" and j: "j < length (mf_chunks m)" "j \<noteq> i"
    and bs: "length bs \<le> chunk_len m i"
    and rd: "read_exact f (chunk_offset m j) (chunk_len m j) = Some b"
  shows "read_exact (file_write f (chunk_offset m i) bs) (chunk_offset m j) (chunk_len m j) = Some b"
proof (cases "j < i")
  case True
  then have "chunk_offset m j + chunk_len m j \<le> chunk_offset m i"
    using chunk_inside(3) [OF geo j(1)] chunk_offset_mono [of "j + 1" i m] by simp
  then show ?thesis by (rule read_write_before [OF rd])
next
  case False
  then have "chunk_offset m i + length bs \<le> chunk_offset m j"
    using chunk_inside(3) [OF geo i] chunk_offset_mono [of "i + 1" j m] bs j(2) by simp
  then show ?thesis by (rule read_write_after [OF rd])
qed

section \<open>The invariant\<close>

definition chunk_good :: "crypto \<Rightarrow> manifest \<Rightarrow> bytes \<Rightarrow> nat \<Rightarrow> bool" where
  "chunk_good cr m f i \<longleftrightarrow>
     (\<exists>b. read_exact f (chunk_offset m i) (chunk_len m i) = Some b \<and> blake3 cr b = mf_chunks m ! i)"

definition receiver_ok :: "crypto \<Rightarrow> receiver \<Rightarrow> bool" where
  "receiver_ok cr r \<longleftrightarrow>
     (let m = rv_manifest r; n = length (mf_chunks m) in
      geometry_ok m \<and> file_id cr m = pt_file_id (rv_partial r)
      \<and> length (rv_verified r) = div_ceil n 8 \<and> pt_have (rv_partial r) = bitmap_prefix (rv_verified r) n
      \<and> (\<forall>i < n. bitmap_bit (rv_verified r) i \<longrightarrow> chunk_good cr m (rv_file r) i))"

lemma manifest_valid_geometry: "manifest_valid cr m fid sz \<Longrightarrow> geometry_ok m \<and> file_id cr m = fid"
  by (simp add: manifest_valid_def geometry_ok_def)

lemma length_fold_set [simp]: "length (fold (\<lambda>i. bitmap_set i True) xs bits) = length bits"
  by (induction xs arbitrary: bits) auto

lemma length_candidate_bits:
  "candidate_bits e fid m sz ex ok db = Inr bits \<Longrightarrow> length bits = div_ceil (length (mf_chunks m)) 8"
  by (auto simp: candidate_bits_def Let_def validate_bitmap_def split: option.splits if_splits prod.splits)

text \<open>After the scan a candidate bit is set exactly when the chunk's bytes are good.\<close>

lemma recheck_bits:
  assumes "recheck e io m f xs bits = Inr verified" "\<forall>i \<in> set xs. i div 8 < length bits" "distinct xs"
  shows "length verified = length bits
    \<and> (\<forall>i. bitmap_bit verified i \<longleftrightarrow> bitmap_bit bits i \<and> (i \<in> set xs \<longrightarrow> chunk_good (xe_crypto e) m f i))"
  using assms
proof (induction e io m f xs bits rule: recheck.induct)
  case (2 e io m f idx rest bits)
  let ?valid = "chunk_good (xe_crypto e) m f idx"
  have valid: "(case read_exact f (chunk_offset m idx) (chunk_len m idx) of None \<Rightarrow> False
      | Some buf \<Rightarrow> blake3 (xe_crypto e) buf = mf_chunks m ! idx) = ?valid"
    by (auto simp: chunk_good_def split: option.splits)
  show ?case
  proof (cases "bitmap_bit bits idx")
    case True
    let ?bits = "if ?valid then bits else bitmap_set idx False bits"
    have live: "\<not> oi_cancelled io (At_Chunk idx)" "\<not> oi_read_fails io idx"
      using 2(3) True by (auto split: if_splits)
    have rest: "recheck e io m f rest ?bits = Inr verified"
      using 2(3) True live by (simp add: valid Let_def)
    have IH: "length verified = length ?bits
      \<and> (\<forall>i. bitmap_bit verified i \<longleftrightarrow> bitmap_bit ?bits i \<and> (i \<in> set rest \<longrightarrow> chunk_good (xe_crypto e) m f i))"
      using 2(2) [OF _ live refl] True rest 2(4,5) by (simp add: valid)
    have "bitmap_bit ?bits i \<longleftrightarrow> bitmap_bit bits i \<and> (i = idx \<longrightarrow> ?valid)" for i
      using 2(4) True by (auto simp: bitmap_bit_set)
    then show ?thesis using IH by auto
  next
    case False
    then show ?thesis using 2 by auto
  qed
qed simp

lemma open_publish_ok:
  assumes "open_publish e io fid peer m lease path f verified db = (db', Inr r)"
  shows "r = \<lparr> rv_file = f, rv_manifest = m, rv_partial = rv_partial r, rv_verified = verified, rv_cancel = le_cancel lease \<rparr>"
    "pt_file_id (rv_partial r) = fid" "pt_have (rv_partial r) = bitmap_prefix verified (length (mf_chunks m))"
  using assms by (auto simp: open_publish_def Let_def split: option.splits if_splits prod.splits sum.splits)

lemma open_ok:
  assumes "open_inner e io fid peer m sz lease db = (db', Inr r)"
  shows "receiver_ok (xe_crypto e) r"
proof -
  have valid: "manifest_valid (xe_crypto e) m fid sz"
    using assms by (auto simp: open_inner_def split: if_splits)
  obtain bits f path ver where bits: "length bits = div_ceil (length (mf_chunks m)) 8"
    and re: "recheck e io m f [0..<length (mf_chunks m)] bits = Inr ver"
    and pub: "open_publish e io fid peer m lease path f ver db = (db', Inr r)"
    using assms length_candidate_bits
    by (auto simp: open_inner_def split: if_splits sum.splits prod.splits option.splits) blast
  have "\<forall>i \<in> set [0..<length (mf_chunks m)]. i div 8 < length bits" using div8_less bits by simp
  note spec = recheck_bits [OF re this distinct_upt]
  note r = open_publish_ok [OF pub]
  have "rv_manifest r = m" "rv_file r = f" "rv_verified r = ver" using r(1) by (metis receiver.select_convs)+
  then show ?thesis
    using spec bits r(2,3) manifest_valid_geometry [OF valid] by (simp add: receiver_ok_def Let_def)
qed

section \<open>Chunks arriving\<close>

text \<open>What a commit can do: nothing, or a write inside its chunk that may have been published.\<close>

definition published :: "u64 \<Rightarrow> nat \<Rightarrow> bytes \<Rightarrow> receiver \<Rightarrow> receiver" where
  "published now index bs r =
     (let verified = bitmap_set index True (rv_verified r); n = length (mf_chunks (rv_manifest r)) in
      r\<lparr> rv_file := file_write (rv_file r) (chunk_offset (rv_manifest r) index) bs, rv_verified := verified,
         rv_partial := (rv_partial r)\<lparr> pt_have := bitmap_prefix verified n, pt_updated_at := now \<rparr> \<rparr>)"

lemma have_resumes:
  assumes "receiver_ok cr r" "index < length (mf_chunks (rv_manifest r))"
  defines "verified \<equiv> bitmap_set index True (rv_verified r)"
  shows "pt_have (rv_partial r) + length (takeWhile (bitmap_bit verified) [pt_have (rv_partial r)..<length (mf_chunks (rv_manifest r))])
       = bitmap_prefix verified (length (mf_chunks (rv_manifest r)))"
proof -
  let ?n = "length (mf_chunks (rv_manifest r))"
  have ok: "length (rv_verified r) = div_ceil ?n 8" "pt_have (rv_partial r) = bitmap_prefix (rv_verified r) ?n"
    using assms(1) by (simp_all add: receiver_ok_def Let_def)
  have bit: "bitmap_bit verified i" if "i < pt_have (rv_partial r)" for i
    using bitmap_prefix_bits that ok bitmap_bit_set [of index "rv_verified r"] div8_less [OF assms(2)]
    unfolding verified_def by (metis (full_types))
  have le: "pt_have (rv_partial r) \<le> ?n" unfolding ok(2) by (rule bitmap_prefix_le)
  show ?thesis unfolding bitmap_prefix_def [of verified] by (rule takeWhile_upt_resume [OF bit le])
qed

lemma commit_cases:
  assumes ok: "receiver_ok cr r" and run: "commit_chunk cr io index bs lease (db, r) = ((db', r'), res)"
  obtains (same) "r' = r" "db' = db" "res = Inr () \<Longrightarrow> rv_contains r index"
  | (wrote) n where "index < length (mf_chunks (rv_manifest r))" "length bs = chunk_len (rv_manifest r) index"
      "r' = r\<lparr> rv_file := file_write (rv_file r) (chunk_offset (rv_manifest r) index) (take n bs) \<rparr>"
      "db' = db" "res \<noteq> Inr ()" "\<not> rv_contains r index"
  | (done_chunk) "index < length (mf_chunks (rv_manifest r))" "length bs = chunk_len (rv_manifest r) index"
      "blake3 cr bs = mf_chunks (rv_manifest r) ! index" "r' = published (ci_now io) index bs r" "res = Inr ()"
      "\<exists>p v. db (pt_file_id (rv_partial r)) = Some (p, v)
         \<and> db' = db(pt_file_id (rv_partial r) :=
               Some (p\<lparr> pt_have := pt_have (rv_partial r'), pt_state := pt_state (rv_partial r), pt_updated_at := ci_now io \<rparr>,
                     Some (rv_verified r')))"
      "\<not> rv_contains r index"
proof (cases "rv_ensure_live (ci_cancelled io) lease r \<and> index < length (mf_chunks (rv_manifest r))
    \<and> length bs = chunk_len (rv_manifest r) index \<and> blake3 cr bs = mf_chunks (rv_manifest r) ! index
    \<and> \<not> rv_contains r index")
  case False
  then show thesis using run same
    by (auto simp: commit_chunk_def Let_def not_less split: if_splits)
next
  case True
  note have_eq = have_resumes [OF ok, of index]
  show thesis
  proof (cases "ci_written io = None \<and> ci_sync_ok io \<and> \<not> ci_cancelled_db io \<and> pt_file_id (rv_partial r) = le_file_id lease
      \<and> ci_sql_ok io \<and> db (pt_file_id (rv_partial r)) \<noteq> None")
    case True2: True
    then obtain p v where row: "db (pt_file_id (rv_partial r)) = Some (p, v)" by auto
    show thesis using True2 True run row have_eq
      by (intro done_chunk)
        (auto simp: commit_chunk_def Let_def partial_progress_verified_live_tx_def published_def not_le)
  next
    case False
    then have "\<exists>n. r' = r\<lparr> rv_file := file_write (rv_file r) (chunk_offset (rv_manifest r) index) (take n bs) \<rparr>
        \<and> db' = db \<and> res \<noteq> Inr ()"
      using True run
      by (auto simp: commit_chunk_def Let_def partial_progress_verified_live_tx_def not_le
          split: option.splits if_splits intro: exI [of _ "length bs"])
    then show thesis using True wrote by blast
  qed
qed

lemma good_after_write:
  assumes "geometry_ok m" "i < length (mf_chunks m)" "j < length (mf_chunks m)" "j \<noteq> i" "length bs \<le> chunk_len m i"
    "chunk_good cr m f j"
  shows "chunk_good cr m (file_write f (chunk_offset m i) bs) j"
  using assms read_other_chunk [of m i j bs f] unfolding chunk_good_def by blast

lemma commit_ok:
  assumes ok: "receiver_ok cr r" and run: "commit_chunk cr io index bs lease (db, r) = ((db', r'), res)"
  shows "receiver_ok cr r'"
proof -
  let ?m = "rv_manifest r"
  let ?n = "length (mf_chunks ?m)"
  have geo: "geometry_ok ?m" and len: "length (rv_verified r) = div_ceil ?n 8"
    and good: "\<And>i. i < ?n \<Longrightarrow> bitmap_bit (rv_verified r) i \<Longrightarrow> chunk_good cr ?m (rv_file r) i"
    using ok by (simp_all add: receiver_ok_def Let_def)
  from ok run show ?thesis
  proof (cases rule: commit_cases)
    case same
    then show ?thesis using ok by simp
  next
    case (wrote n)
    have "chunk_good cr ?m (rv_file r') i" if "i < ?n" "bitmap_bit (rv_verified r) i" for i
      using good_after_write [OF geo wrote(1) that(1) _ _ good [OF that], of "take n bs"] wrote that
      by (auto simp: rv_contains_def)
    then show ?thesis using ok wrote(3) by (simp add: receiver_ok_def Let_def)
  next
    case done_chunk
    let ?f = "file_write (rv_file r) (chunk_offset ?m index) bs"
    have bit: "bitmap_bit (bitmap_set index True (rv_verified r)) i \<longleftrightarrow> i = index \<or> bitmap_bit (rv_verified r) i" for i
      using bitmap_bit_set [of index "rv_verified r"] div8_less [OF done_chunk(1)] len by auto
    have "bs \<noteq> []" using chunk_inside(1) [OF geo done_chunk(1)] done_chunk(2) by auto
    then have "chunk_good cr ?m ?f index"
      using read_write_same [of bs "rv_file r" "chunk_offset ?m index"] done_chunk(2,3) unfolding chunk_good_def by auto
    moreover have "chunk_good cr ?m ?f i" if "i < ?n" "bitmap_bit (rv_verified r) i" "i \<noteq> index" for i
      using good_after_write [OF geo done_chunk(1) that(1) that(3) _ good [OF that(1,2)]] done_chunk(2) by simp
    ultimately show ?thesis using ok by (auto simp: done_chunk(4) receiver_ok_def published_def Let_def bit)
  qed
qed

lemma complete_bits:
  assumes "receiver_ok cr r" "pt_have (rv_partial r) = length (mf_chunks (rv_manifest r))"
    "i < length (mf_chunks (rv_manifest r))"
  shows "chunk_good cr (rv_manifest r) (rv_file r) i"
  using assms bitmap_prefix_bits [of i "rv_verified r" "length (mf_chunks (rv_manifest r))"]
  by (simp add: receiver_ok_def Let_def)

lemma good_set_len:
  "geometry_ok m \<Longrightarrow> i < length (mf_chunks m) \<Longrightarrow> chunk_good cr m f i
   \<Longrightarrow> chunk_good cr m (set_len (unat (mf_total_size m)) f) i"
  unfolding chunk_good_def using chunk_inside(2) [of m i] read_set_len by blast

lemma finish_cases:
  assumes "finish io lease (db, r) = ((db', r'), res)"
  obtains (same) "r' = r" "res \<noteq> Inr ()"
  | (cut) "pt_have (rv_partial r) = length (mf_chunks (rv_manifest r))"
      "r' = r\<lparr> rv_file := set_len (unat (mf_total_size (rv_manifest r))) (rv_file r), rv_partial := rv_partial r' \<rparr>"
      "pt_have (rv_partial r') = pt_have (rv_partial r)" "pt_file_id (rv_partial r') = pt_file_id (rv_partial r)"
      "res = Inr () \<Longrightarrow> pt_state (rv_partial r') = DONE
          \<and> map_option (pt_state \<circ> fst) (db' (pt_file_id (rv_partial r))) = Some DONE"
  using assms by (auto simp: finish_def Let_def partial_progress_verified_live_tx_def split: if_splits option.splits)

lemma finish_ok:
  assumes "receiver_ok cr r" "finish io lease (db, r) = ((db', r'), res)"
  shows "receiver_ok cr r'"
  using assms(2)
proof (cases rule: finish_cases)
  case cut
  have geo: "geometry_ok (rv_manifest r)" using assms(1) by (simp add: receiver_ok_def Let_def)
  have sel: "rv_manifest r' = rv_manifest r" "rv_verified r' = rv_verified r"
      "rv_file r' = set_len (unat (mf_total_size (rv_manifest r))) (rv_file r)"
    by (subst cut(2), simp)+
  have "chunk_good cr (rv_manifest r) (rv_file r') i" if "i < length (mf_chunks (rv_manifest r))" for i
    unfolding sel by (rule good_set_len [OF geo that complete_bits [OF assms(1) cut(1) that]])
  then show ?thesis using assms(1) cut(3,4) sel by (simp add: receiver_ok_def Let_def)
qed (use assms in simp)

section \<open>Runs\<close>

text \<open>
  The receiver of a file over time: opened (again), fed, finished, deleted by the user
  (\<^verbatim>\<open>forget_file\<close> removes the row), or lost with the process.
\<close>

datatype xfer_op =
    XOpen open_io bytes bytes manifest u64 receiver_lease
  | XCommit commit_io nat bytes receiver_lease
  | XFinish commit_io receiver_lease
  | XForget bytes
  | XRestart

fun xfer_step :: "xfer_env \<Rightarrow> xfer_op \<Rightarrow> partials \<times> receiver option \<Rightarrow> partials \<times> receiver option" where
  "xfer_step e (XOpen io fid peer m offered_size lease) (db, ro) =
     (case open_inner e io fid peer m offered_size lease db of
        (db', Inr r) \<Rightarrow> (db', Some r) | (db', Inl _) \<Rightarrow> (db', ro))"
| "xfer_step e (XCommit io index bs lease) (db, Some r) =
     (case fst (commit_chunk (xe_crypto e) io index bs lease (db, r)) of (db', r') \<Rightarrow> (db', Some r'))"
| "xfer_step e (XFinish io lease) (db, Some r) =
     (case fst (finish io lease (db, r)) of (db', r') \<Rightarrow> (db', Some r'))"
| "xfer_step e (XForget fid) (db, ro) = (db(fid := None), ro)"
| "xfer_step e XRestart (db, ro) = (db, None)"
| "xfer_step e _ (db, None) = (db, None)"

definition xfer_inv :: "crypto \<Rightarrow> partials \<times> receiver option \<Rightarrow> bool" where
  "xfer_inv cr s \<longleftrightarrow> (case snd s of None \<Rightarrow> True | Some r \<Rightarrow> receiver_ok cr r)"

lemma step_receiver_ok:
  "receiver_ok cr r \<Longrightarrow> fst (commit_chunk cr cio index bs lease (db, r)) = (db', r') \<Longrightarrow> receiver_ok cr r'"
  "receiver_ok cr r \<Longrightarrow> fst (finish cio lease (db, r)) = (db', r') \<Longrightarrow> receiver_ok cr r'"
  using commit_ok finish_ok by (metis prod.collapse)+

interpretation xfer: step_system "(db0, None)" "xfer_step e" "\<lambda>_ _. True" "xfer_inv (xe_crypto e)" for db0 e
proof
  show "xfer_inv (xe_crypto e) (db0, None)" by (simp add: xfer_inv_def)
next
  fix s x
  assume "xfer_inv (xe_crypto e) s"
  then show "xfer_inv (xe_crypto e) (xfer_step e x s)"
    by (cases "(e, x, s)" rule: xfer_step.cases)
      (auto simp: xfer_inv_def split: prod.splits sum.splits dest: open_ok step_receiver_ok)
qed

lemma run_receiver_ok:
  assumes "fold (xfer_step e) ops (db0, None) = (db, Some r)"
  shows "receiver_ok (xe_crypto e) r"
  using xfer.inv_run [OF trace_ok_const, OF TrueI, of e ops db0] assms by (simp add: xfer_inv_def)

section \<open>The finished file\<close>

lemma file_chunks_spec:
  "length (file_chunks cr bs) = div_ceil (length bs) CHUNK_SIZE
   \<and> (\<forall>i < length (file_chunks cr bs). file_chunks cr bs ! i = blake3 cr (take CHUNK_SIZE (drop (i * CHUNK_SIZE) bs)))"
proof (induction cr bs rule: file_chunks.induct)
  case (1 cr bs)
  have pos: "CHUNK_SIZE > 0" by (simp add: CHUNK_SIZE_def)
  consider (none) "bs = []" | (short) "bs \<noteq> []" "length bs < CHUNK_SIZE" | (full) "length bs \<ge> CHUNK_SIZE" by linarith
  then show ?case
  proof cases
    case none
    then have "file_chunks cr bs = []" by (subst file_chunks.simps) simp
    then show ?thesis using none by (simp add: div_ceil_def)
  next
    case short
    then have "file_chunks cr bs = [blake3 cr bs]" by (subst file_chunks.simps) simp
    then show ?thesis using short by (simp add: div_ceil_def)
  next
    case full
    let ?rest = "drop CHUNK_SIZE bs"
    have buf: "take CHUNK_SIZE bs \<noteq> []" "\<not> length (take CHUNK_SIZE bs) < CHUNK_SIZE" using full pos by auto
    have eq: "file_chunks cr bs = blake3 cr (take CHUNK_SIZE bs) # file_chunks cr ?rest"
      using full pos by (subst file_chunks.simps) (auto simp: Let_def)
    have IH: "length (file_chunks cr ?rest) = div_ceil (length ?rest) CHUNK_SIZE
        \<and> (\<forall>i < length (file_chunks cr ?rest). file_chunks cr ?rest ! i = blake3 cr (take CHUNK_SIZE (drop (i * CHUNK_SIZE) ?rest)))"
      by (rule 1 [OF refl buf])
    have "div_ceil (length bs) CHUNK_SIZE = Suc (div_ceil (length ?rest) CHUNK_SIZE)"
      using full pos by (simp add: div_ceil_def le_div_geq le_mod_geq)
    moreover have "file_chunks cr bs ! i = blake3 cr (take CHUNK_SIZE (drop (i * CHUNK_SIZE) bs))"
      if "i < length (file_chunks cr bs)" for i
      using that IH unfolding eq by (cases i) (simp_all add: add.commute)
    ultimately show ?thesis using IH by (simp add: eq)
  qed
qed

lemma equal_by_chunks:
  assumes "b > 0" "length xs = length ys"
    "\<And>i. i * b < length xs \<Longrightarrow> take b (drop (i * b) xs) = take b (drop (i * b) ys)"
  shows "xs = ys"
proof (rule nth_equalityI [OF assms(2)])
  fix k
  assume k: "k < length xs"
  have split: "k div b * b + k mod b = k" "k mod b < b" using assms(1) by simp_all
  have inside: "k div b * b < length xs" using k split by linarith
  have at: "take b (drop (k div b * b) zs) ! (k mod b) = zs ! k" if "length zs = length xs" for zs
    using that split inside nth_drop [of "k div b * b" zs "k mod b"] by simp
  show "xs ! k = ys ! k" using at [of xs] at [of ys] assms(2) assms(3) [OF inside] by simp
qed

text \<open>A file with good chunks and the manifest of a source is the source, or BLAKE3 has a collision.\<close>

lemma good_file_is_source:
  assumes good: "\<And>i. i < length (mf_chunks m) \<Longrightarrow> chunk_good cr m f i" and len: "length f = unat (mf_total_size m)"
    and m: "m = from_file cr src" and src: "length src < 2 ^ 64"
  shows "f = src \<or> (\<exists>x y. x \<noteq> y \<and> blake3 cr x = blake3 cr y)"
proof (cases "\<exists>x y. x \<noteq> y \<and> blake3 cr x = blake3 cr y")
  case False
  have size: "unat (mf_total_size m) = length src" "unat (mf_chunk_size m) = CHUNK_SIZE"
    using src by (simp_all add: m from_file_def unat_of_nat CHUNK_SIZE_def take_bit_nat_eq_self unsigned_of_nat)
  have pos: "CHUNK_SIZE > 0" by (simp add: CHUNK_SIZE_def)
  have chunks: "mf_chunks m = file_chunks cr src" by (simp add: m from_file_def)
  have "take CHUNK_SIZE (drop (i * CHUNK_SIZE) f) = take CHUNK_SIZE (drop (i * CHUNK_SIZE) src)"
    if "i * CHUNK_SIZE < length f" for i
  proof -
    have i: "i < length (mf_chunks m)"
      using that file_chunks_spec [of cr src] less_div_ceil_iff [OF pos, of i] len size unfolding chunks by simp
    obtain b where "read_exact f (chunk_offset m i) (chunk_len m i) = Some b" "blake3 cr b = mf_chunks m ! i"
      using good [OF i] unfolding chunk_good_def by blast
    moreover have "take (chunk_len m i) (drop (chunk_offset m i) f) = take CHUNK_SIZE (drop (i * CHUNK_SIZE) f)"
      using len size by (simp add: chunk_len_def chunk_offset_def min_def)
    ultimately have "blake3 cr (take CHUNK_SIZE (drop (i * CHUNK_SIZE) f)) = blake3 cr (take CHUNK_SIZE (drop (i * CHUNK_SIZE) src))"
      using file_chunks_spec [of cr src] i unfolding chunks by (simp add: read_exact_Some)
    then show ?thesis using False by blast
  qed
  then have "f = src" using equal_by_chunks [OF pos, of f src] len size by simp
  then show ?thesis ..
qed simp

text \<open>
  Property C5: a finished download.  Start from any database, open, feed, finish, delete and restart in
  any order, with any bytes on disk and any failing operation.  When \<^verbatim>\<open>finish\<close> succeeds, the file has the
  size of the manifest, every chunk of it hashes to the manifest, the manifest is the one the file id
  names, and the row says done.  If the manifest was computed from a source file, the file is that
  source, byte for byte, unless BLAKE3 has a collision.
\<close>

theorem finished_file_is_offered:
  assumes run: "fold (xfer_step e) ops (db0, None) = (db, Some r)"
    and fin: "finish io lease (db, r) = ((db', r'), Inr ())"
  defines "m \<equiv> rv_manifest r'" and "cr \<equiv> xe_crypto e"
  shows "length (rv_file r') = unat (mf_total_size m) \<and> file_id cr m = pt_file_id (rv_partial r')
       \<and> (\<forall>i < length (mf_chunks m).
            read_exact (rv_file r') (chunk_offset m i) (chunk_len m i) \<noteq> None
            \<and> blake3 cr (the (read_exact (rv_file r') (chunk_offset m i) (chunk_len m i))) = mf_chunks m ! i)
       \<and> map_option (pt_state \<circ> fst) (db' (pt_file_id (rv_partial r'))) = Some DONE
       \<and> (\<forall>src. from_file cr src = m \<and> length src < 2 ^ 64 \<longrightarrow>
            rv_file r' = src \<or> (\<exists>x y. x \<noteq> y \<and> blake3 cr x = blake3 cr y))"
  using fin
proof (cases rule: finish_cases)
  case cut
  have ok: "receiver_ok cr r" unfolding cr_def by (rule run_receiver_ok [OF run])
  have ok': "receiver_ok cr r'" by (rule finish_ok [OF ok fin])
  have m: "m = rv_manifest r" unfolding m_def by (subst cut(2), simp)
  have cutfile: "rv_file r' = set_len (unat (mf_total_size m)) (rv_file r)" unfolding m by (subst cut(2), simp)
  have good: "chunk_good cr m (rv_file r') i" if "i < length (mf_chunks m)" for i
    using complete_bits [OF ok'] cut(1,3) that unfolding m_def by (metis m m_def)
  have len: "length (rv_file r') = unat (mf_total_size m)" unfolding cutfile by (simp add: set_len_def)
  have "file_id cr m = pt_file_id (rv_partial r')" using ok' by (simp add: receiver_ok_def m_def Let_def)
  moreover have "read_exact (rv_file r') (chunk_offset m i) (chunk_len m i) \<noteq> None
      \<and> blake3 cr (the (read_exact (rv_file r') (chunk_offset m i) (chunk_len m i))) = mf_chunks m ! i"
    if "i < length (mf_chunks m)" for i
    using good [OF that] unfolding chunk_good_def by auto
  moreover have "map_option (pt_state \<circ> fst) (db' (pt_file_id (rv_partial r'))) = Some DONE"
    using cut(4,5) by simp
  ultimately show ?thesis using len good_file_is_source [OF good len] by blast
qed simp

text \<open>A run for the witnesses: three bytes in chunks of two, the second chunk first.\<close>

definition small_env :: xfer_env where
  "small_env = \<lparr> xe_crypto = toy_crypto, xe_ser = (\<lambda>_. Some []), xe_de = (\<lambda>_. None) \<rparr>"

definition small_manifest :: manifest where
  "small_manifest = \<lparr> mf_total_size = 3, mf_chunk_size = 2, mf_chunks = [blake3 toy_crypto [5, 6], blake3 toy_crypto [7]] \<rparr>"

definition small_open :: open_io where
  "small_open = \<lparr> oi_cancelled = (\<lambda>_. False), oi_path = Path_Missing, oi_new_path = [], oi_content = (\<lambda>_. Some []),
     oi_read_fails = (\<lambda>_. False), oi_bitmap_ok = True, oi_sync_ok = True, oi_sql_ok = True, oi_now = 1 \<rparr>"

definition small_io :: commit_io where
  "small_io = \<lparr> ci_cancelled = False, ci_written = None, ci_sync_ok = True, ci_cancelled_db = False, ci_sql_ok = True, ci_now = 2 \<rparr>"

definition small_lease :: receiver_lease where
  "small_lease = \<lparr> le_file_id = file_id toy_crypto small_manifest, le_cancel = 1 \<rparr>"

definition small_row :: "nat \<Rightarrow> u8 \<Rightarrow> u64 \<Rightarrow> partial_row" where
  "small_row n st now = \<lparr> pt_file_id = file_id toy_crypto small_manifest, pt_source_ipk = [], pt_total = 3, pt_chunk_size = 2,
     pt_manifest = Some [], pt_have = n, pt_state = st, pt_path = [], pt_updated_at = now \<rparr>"

definition small_receiver :: "bytes \<Rightarrow> nat \<Rightarrow> u8 \<Rightarrow> u64 \<Rightarrow> u8 \<Rightarrow> receiver" where
  "small_receiver f n st now bits = \<lparr> rv_file = f, rv_manifest = small_manifest, rv_partial = small_row n st now,
     rv_verified = [bits], rv_cancel = 1 \<rparr>"

lemmas small_defs = small_env_def small_open_def small_io_def small_lease_def small_row_def small_receiver_def

lemma small_geometry:
  "length (mf_chunks small_manifest) = 2" "mf_total_size small_manifest = 3" "mf_chunk_size small_manifest = 2"
  "chunk_offset small_manifest 0 = 0" "chunk_offset small_manifest (Suc 0) = 2"
  "chunk_len small_manifest 0 = 2" "chunk_len small_manifest (Suc 0) = 1"
  "mf_chunks small_manifest ! 0 = blake3 toy_crypto [5, 6]" "mf_chunks small_manifest ! Suc 0 = blake3 toy_crypto [7]"
  by (simp_all add: small_manifest_def chunk_offset_def chunk_len_def)

lemma small_opened:
  "\<exists>db. open_inner small_env small_open (file_id toy_crypto small_manifest) [] small_manifest 3 small_lease (\<lambda>_. None)
     = (db, Inr (small_receiver [] 0 ACTIVE 1 0)) \<and> db (file_id toy_crypto small_manifest) \<noteq> None"
proof -
  have valid: "manifest_valid toy_crypto small_manifest (file_id toy_crypto small_manifest) 3"
    by (simp add: manifest_valid_def small_geometry CHUNK_SIZE_def MAX_CHUNKS_def div_ceil_def)
  have scan: "recheck small_env small_open small_manifest [] [0..<2] [0] = Inr [0]"
    by (simp add: upt_conv_Cons bitmap_bit_def)
  show ?thesis
    by (simp add: open_inner_def open_path_def candidate_bits_def open_publish_def partial_put_verified_live_tx_def
        partial_put_verified_locked_def small_defs small_geometry valid [unfolded small_env_def] div_ceil_def
        scan [unfolded small_env_def small_open_def] bitmap_prefix_def bitmap_bit_def upt_conv_Cons Let_def)
qed

lemma replicate_2: "replicate 2 x = [x, x]"
  by (simp add: numeral_2_eq_2)

lemma small_commit:
  assumes "db (file_id toy_crypto small_manifest) \<noteq> None"
  shows "\<exists>db'. commit_chunk toy_crypto small_io 1 [7] small_lease (db, small_receiver [] 0 ACTIVE 1 0)
      = ((db', small_receiver [0, 0, 7] 0 ACTIVE 2 2), Inr ()) \<and> db' (file_id toy_crypto small_manifest) \<noteq> None"
    "\<exists>db'. commit_chunk toy_crypto small_io 0 [5, 6] small_lease (db, small_receiver [0, 0, 7] 0 ACTIVE 2 2)
      = ((db', small_receiver [5, 6, 7] 2 ACTIVE 2 3), Inr ()) \<and> db' (file_id toy_crypto small_manifest) \<noteq> None"
    "\<exists>db'. finish small_io small_lease (db, small_receiver [5, 6, 7] 2 ACTIVE 2 3)
      = ((db', small_receiver [5, 6, 7] 2 DONE 2 3), Inr ())"
  using assms
  by (auto simp: commit_chunk_def finish_def Let_def rv_ensure_live_def rv_contains_def small_defs small_geometry
      file_write_def set_len_def bitmap_bit_def bitmap_set_def partial_progress_verified_live_tx_def upt_conv_Cons
      replicate_2)

definition small_ops :: "xfer_op list" where
  "small_ops = [XOpen small_open (file_id toy_crypto small_manifest) [] small_manifest 3 small_lease,
     XCommit small_io 1 [7] small_lease, XCommit small_io 0 [5, 6] small_lease]"

lemma small_run:
  "\<exists>db db'. fold (xfer_step small_env) small_ops ((\<lambda>_. None), None) = (db, Some (small_receiver [5, 6, 7] 2 ACTIVE 2 3))
     \<and> finish small_io small_lease (db, small_receiver [5, 6, 7] 2 ACTIVE 2 3)
       = ((db', small_receiver [5, 6, 7] 2 DONE 2 3), Inr ())"
proof -
  have cr: "xe_crypto small_env = toy_crypto" by (simp add: small_env_def)
  obtain db1 where 1: "open_inner small_env small_open (file_id toy_crypto small_manifest) [] small_manifest 3 small_lease
      (\<lambda>_. None) = (db1, Inr (small_receiver [] 0 ACTIVE 1 0))" "db1 (file_id toy_crypto small_manifest) \<noteq> None"
    using small_opened by blast
  obtain db2 where 2: "commit_chunk toy_crypto small_io 1 [7] small_lease (db1, small_receiver [] 0 ACTIVE 1 0)
      = ((db2, small_receiver [0, 0, 7] 0 ACTIVE 2 2), Inr ())" "db2 (file_id toy_crypto small_manifest) \<noteq> None"
    using small_commit(1) [of db1] 1(2) by blast
  obtain db3 where 3: "commit_chunk toy_crypto small_io 0 [5, 6] small_lease (db2, small_receiver [0, 0, 7] 0 ACTIVE 2 2)
      = ((db3, small_receiver [5, 6, 7] 2 ACTIVE 2 3), Inr ())" "db3 (file_id toy_crypto small_manifest) \<noteq> None"
    using small_commit(2) [of db2] 2(2) by blast
  show ?thesis using small_commit(3) [of db3] 1 2 3 by (simp add: small_ops_def cr)
qed

theorem finished_file_is_offered_witness:
  "\<exists>db db'. fold (xfer_step small_env) small_ops ((\<lambda>_. None), None) = (db, Some (small_receiver [5, 6, 7] 2 ACTIVE 2 3))
     \<and> finish small_io small_lease (db, small_receiver [5, 6, 7] 2 ACTIVE 2 3)
       = ((db', small_receiver [5, 6, 7] 2 DONE 2 3), Inr ())
     \<and> blake3 toy_crypto (the (read_exact [5, 6, 7] 2 1)) = mf_chunks small_manifest ! 1"
proof -
  obtain db db' where run: "fold (xfer_step small_env) small_ops ((\<lambda>_. None), None) = (db, Some (small_receiver [5, 6, 7] 2 ACTIVE 2 3))"
    and fin: "finish small_io small_lease (db, small_receiver [5, 6, 7] 2 ACTIVE 2 3) = ((db', small_receiver [5, 6, 7] 2 DONE 2 3), Inr ())"
    using small_run by blast
  have sel: "rv_manifest (small_receiver [5, 6, 7] 2 DONE 2 3) = small_manifest" "rv_file (small_receiver [5, 6, 7] 2 DONE 2 3) = [5, 6, 7]"
      "xe_crypto small_env = toy_crypto"
    by (simp_all add: small_receiver_def small_env_def)
  have "blake3 toy_crypto (the (read_exact [5, 6, 7] (chunk_offset small_manifest (Suc 0)) (chunk_len small_manifest (Suc 0))))
      = mf_chunks small_manifest ! Suc 0"
    using finished_file_is_offered [OF run fin, unfolded sel] small_geometry(1) by simp
  then show ?thesis using run fin by (auto simp: small_geometry)
qed

section \<open>Single operations\<close>

text \<open>
  Property C26: what is asked for.  For a receiver reached in any way, \<^verbatim>\<open>missing\<close> returns sorted,
  disjoint, non-empty runs inside the file, at most \<^verbatim>\<open>max_ranges\<close> of them with at most \<^verbatim>\<open>max_chunks\<close> chunks in
  all.  They hold exactly the chunks not yet verified up to some index, which is the end of the file unless
  a limit is used up; and nothing is asked for only when the file is complete or a limit is zero.
\<close>

theorem missing_asks_first_gaps:
  assumes run: "fold (xfer_step e) ops (db0, None) = (db, Some r)"
  defines "n \<equiv> length (mf_chunks (rv_manifest r))"
  shows "missing_ok (rv_contains r) n max_ranges 0 max_chunks (rv_missing r max_ranges max_chunks)
       \<and> (rv_missing r max_ranges max_chunks = [] \<longleftrightarrow>
            pt_have (rv_partial r) = n \<or> max_ranges = 0 \<or> max_chunks = 0)"
proof -
  let ?h = "pt_have (rv_partial r)" and ?rs = "rv_missing r max_ranges max_chunks"
  have h: "?h = bitmap_prefix (rv_verified r) n" using run_receiver_ok [OF run] by (simp add: receiver_ok_def Let_def n_def)
  have le: "?h \<le> n" unfolding h by (rule bitmap_prefix_le)
  have below: "rv_contains r i" if "i < ?h" for i
    using bitmap_prefix_bits [of i "rv_verified r" n] that unfolding h by (simp add: rv_contains_def n_def)
  have ok: "missing_ok (rv_contains r) n max_ranges ?h max_chunks ?rs"
    unfolding rv_missing_def n_def [symmetric] by (rule missing_loop_ok [OF le])
  have shift: "{i. ?h \<le> i \<and> i < k \<and> \<not> rv_contains r i} = {i. 0 \<le> i \<and> i < k \<and> \<not> rv_contains r i}" for k
    using below by (auto simp: not_less [symmetric])
  have "missing_ok (rv_contains r) n max_ranges 0 max_chunks ?rs"
    using ok unfolding missing_ok_def shift by auto
  moreover have "?rs = [] \<longleftrightarrow> ?h = n \<or> max_ranges = 0 \<or> max_chunks = 0"
  proof (cases "?h < n \<and> max_ranges > 0 \<and> max_chunks > 0")
    case True
    then have "\<not> rv_contains r ?h" using bitmap_prefix_next [of "rv_verified r" n] h by (simp add: rv_contains_def n_def)
    then have "?rs \<noteq> []" unfolding rv_missing_def n_def [symmetric] using True
      by (subst missing_loop.simps) (simp split: prod.split)
    then show ?thesis using True by simp
  next
    case False
    then have "?rs = []" unfolding rv_missing_def n_def [symmetric] by (subst missing_loop.simps) auto
    then show ?thesis using False le by auto
  qed
  ultimately show ?thesis ..
qed

theorem missing_asks_first_gaps_witness:
  "\<exists>db. fold (xfer_step small_env) (take 2 small_ops) ((\<lambda>_. None), None) = (db, Some (small_receiver [0, 0, 7] 0 ACTIVE 2 2))
     \<and> rv_missing (small_receiver [0, 0, 7] 0 ACTIVE 2 2) 4 4 \<noteq> []"
proof -
  have cr: "xe_crypto small_env = toy_crypto" by (simp add: small_env_def)
  obtain db1 where 1: "open_inner small_env small_open (file_id toy_crypto small_manifest) [] small_manifest 3 small_lease
      (\<lambda>_. None) = (db1, Inr (small_receiver [] 0 ACTIVE 1 0))" "db1 (file_id toy_crypto small_manifest) \<noteq> None"
    using small_opened by blast
  obtain db2 where 2: "commit_chunk toy_crypto small_io 1 [7] small_lease (db1, small_receiver [] 0 ACTIVE 1 0)
      = ((db2, small_receiver [0, 0, 7] 0 ACTIVE 2 2), Inr ())"
    using small_commit(1) [of db1] 1(2) by blast
  have run: "fold (xfer_step small_env) (take 2 small_ops) ((\<lambda>_. None), None) = (db2, Some (small_receiver [0, 0, 7] 0 ACTIVE 2 2))"
    using 1 2 by (simp add: small_ops_def cr)
  show ?thesis
    using run missing_asks_first_gaps [OF run, of 4 4, THEN conjunct2]
    by (simp add: small_receiver_def small_row_def small_geometry)
qed



end
