(* ===== verification/Lookup.thy ===== *)
theory Lookup
  imports Homes
begin

text \<open>
  The iterative node lookup of \<^verbatim>\<open>relay/src/dht/lookup.rs\<close>: the address filter for peer-supplied
  addresses, the merge of a reply into the candidates, one round of queries and the loop with its
  hop bound.  What the network does in a round is an argument: the loop head finds the deadline
  passed, or the deadline passes while the round waits, or the round joins some of its queries, in
  some order, before the hedge window closes.  \<^verbatim>\<open>HashSet\<close> contents are lists used for membership
  only.
\<close>

section \<open>Dialable addresses\<close>

fun v4_is_unspecified :: "bytes \<Rightarrow> bool" where
  "v4_is_unspecified ip \<longleftrightarrow> ip = [0, 0, 0, 0]"

fun v4_is_multicast :: "bytes \<Rightarrow> bool" where
  "v4_is_multicast ip \<longleftrightarrow> 224 \<le> ip ! 0 \<and> ip ! 0 \<le> 239"

fun v4_is_broadcast :: "bytes \<Rightarrow> bool" where
  "v4_is_broadcast ip \<longleftrightarrow> ip = [255, 255, 255, 255]"

fun v4_is_link_local :: "bytes \<Rightarrow> bool" where
  "v4_is_link_local ip \<longleftrightarrow> ip ! 0 = 169 \<and> ip ! 1 = 254"

fun v4_is_documentation :: "bytes \<Rightarrow> bool" where
  "v4_is_documentation ip \<longleftrightarrow>
     take 3 ip = [192, 0, 2] \<or> take 3 ip = [198, 51, 100] \<or> take 3 ip = [203, 0, 113]"

fun v4_is_loopback :: "bytes \<Rightarrow> bool" where
  "v4_is_loopback ip \<longleftrightarrow> ip ! 0 = 127"

fun v4_is_private :: "bytes \<Rightarrow> bool" where
  "v4_is_private ip \<longleftrightarrow>
     ip ! 0 = 10 \<or> (ip ! 0 = 172 \<and> 16 \<le> ip ! 1 \<and> ip ! 1 \<le> 31) \<or> (ip ! 0 = 192 \<and> ip ! 1 = 168)"

definition v6_is_unspecified :: "bytes \<Rightarrow> bool" where
  "v6_is_unspecified ip \<longleftrightarrow> ip = replicate 16 0"

definition v6_is_loopback :: "bytes \<Rightarrow> bool" where
  "v6_is_loopback ip \<longleftrightarrow> ip = replicate 15 0 @ [1]"

definition v6_is_multicast :: "bytes \<Rightarrow> bool" where
  "v6_is_multicast ip \<longleftrightarrow> ip ! 0 = 255"

text \<open>\<^verbatim>\<open>Ipv6Addr::segments()[0]\<close>.\<close>

definition v6_head :: "bytes \<Rightarrow> u16" where
  "v6_head ip = u16_of_be (take 2 ip)"

definition is_dialable_peer_addr :: "socket_addr \<Rightarrow> bool \<Rightarrow> bool" where
  "is_dialable_peer_addr addr allow_local =
     (if sa_port addr = 0 then False
      else case sa_ip addr of
        V4 ip \<Rightarrow>
          if v4_is_unspecified ip \<or> v4_is_multicast ip \<or> v4_is_broadcast ip
             \<or> v4_is_link_local ip \<or> v4_is_documentation ip
          then False
          else allow_local \<or> \<not> (v4_is_loopback ip \<or> v4_is_private ip)
      | V6 ip \<Rightarrow>
          if v6_is_unspecified ip \<or> v6_is_multicast ip then False
          else if v6_head ip AND 0xffc0 = 0xfe80 then False
          else allow_local \<or> \<not> (v6_is_loopback ip \<or> v6_head ip AND 0xfe00 = 0xfc00))"

section \<open>The walk\<close>

definition LOOKUP_MAX_HOPS :: nat where "LOOKUP_MAX_HOPS = 8"
definition MAX_LOOKUP_CANDIDATES :: nat where "MAX_LOOKUP_CANDIDATES = 64"
definition MAX_FIND_NODE_RESULTS :: nat where "MAX_FIND_NODE_RESULTS = 3"

datatype lookup_error = NoCandidates | Timeout | MaxHopsExceeded

record candidate =
  c_desc :: node_descriptor
  c_distance :: bytes

definition lk_distance :: "bytes \<Rightarrow> bytes \<Rightarrow> bytes" where
  "lk_distance target peer = xor32 target peer"

text \<open>
  The answer to one \<^verbatim>\<open>FindNode\<close>: nothing (dial, timeout or decoding failed), the closer nodes, or a
  response of another kind.
\<close>

datatype rpc_response = NoResponse | FindNodeResponse "node_descriptor list" | OtherResponse

datatype rpc_result = FindNodeReply "node_descriptor list" | Failed

definition record_liveness :: "nat \<Rightarrow> bytes \<Rightarrow> bool \<Rightarrow> routing_table \<Rightarrow> routing_table" where
  "record_liveness now peer alive t =
     (if alive then fst (ping_succeeded now peer t) else ping_failed now peer t)"

text \<open>\<^verbatim>\<open>probe_peer\<close>: a \<^verbatim>\<open>FindNode\<close> for the peer's own id, and what it records.\<close>

definition probe_peer :: "nat \<Rightarrow> bytes \<Rightarrow> rpc_response \<Rightarrow> routing_table \<Rightarrow> routing_table \<times> bool" where
  "probe_peer now peer resp t =
     (let alive = (case resp of FindNodeResponse _ \<Rightarrow> True | _ \<Rightarrow> False)
      in (record_liveness now peer alive t, alive))"

text \<open>The probe that an insertion into a full bucket asks for.\<close>

definition probe_pending_ping ::
  "nat \<Rightarrow> insert_outcome \<Rightarrow> (node_descriptor \<Rightarrow> rpc_response) \<Rightarrow> routing_table \<Rightarrow> routing_table" where
  "probe_pending_ping now outcome net t =
     (case outcome of PendingPing lru \<Rightarrow> fst (probe_peer now (nd_id lru) (net lru) t) | _ \<Rightarrow> t)"

definition send_one_hop ::
  "nat \<Rightarrow> bytes \<Rightarrow> rpc_response \<Rightarrow> routing_table \<Rightarrow> routing_table \<times> rpc_result" where
  "send_one_hop now peer resp t =
     (record_liveness now peer (resp \<noteq> NoResponse) t,
      case resp of FindNodeResponse closer \<Rightarrow> FindNodeReply closer | _ \<Rightarrow> Failed)"

definition integrate_descriptors ::
  "bytes \<Rightarrow> bool \<Rightarrow> node_descriptor list \<Rightarrow> candidate list \<Rightarrow> candidate list" where
  "integrate_descriptors target allow_local new cands =
     (let known = map (nd_id \<circ> c_desc) cands
      in cands @ map (\<lambda>d. \<lparr> c_desc = d, c_distance = lk_distance target (nd_id d) \<rparr>)
           (filter (\<lambda>d. nd_id d \<notin> set known \<and> is_dialable_peer_addr (nd_addr d) allow_local)
              (take MAX_FIND_NODE_RESULTS new)))"

record lookup_state =
  lk_candidates :: "candidate list"
  lk_queried :: "bytes list"
  lk_closest :: "candidate list"
  lk_hops :: nat
  lk_routing :: routing_table

text \<open>
  The network's part in a round.  \<^verbatim>\<open>Joined\<close> lists the tasks joined before the hedge window closed,
  in order: the position in the batch, the instant, and the answer.
\<close>

datatype round_env =
    HeadExpired
  | WaitExpired
  | Joined "(nat \<times> nat \<times> rpc_response) list"

definition lk_batch :: "lookup_state \<Rightarrow> node_descriptor list" where
  "lk_batch st =
     take ALPHA (map c_desc (filter (\<lambda>c. nd_id (c_desc c) \<notin> set (lk_queried st)) (lk_candidates st)))"

fun join_task ::
  "bytes \<Rightarrow> bool \<Rightarrow> node_descriptor list \<Rightarrow> nat \<times> nat \<times> rpc_response \<Rightarrow> lookup_state \<Rightarrow> lookup_state" where
  "join_task target allow_local batch (i, now, resp) st =
     (if i < length batch
      then case send_one_hop now (nd_id (batch ! i)) resp (lk_routing st) of
             (t, FindNodeReply closer) \<Rightarrow>
               st\<lparr>lk_routing := t,
                  lk_candidates := integrate_descriptors target allow_local closer (lk_candidates st)\<rparr>
           | (t, Failed) \<Rightarrow> st\<lparr>lk_routing := t\<rparr>
      else st)"

text \<open>
  The part of the loop body from the join loop's end: sorting, the cap, the closest so far, and
  whether an unqueried candidate is closer than the farthest of them.
\<close>

definition close_round :: "lookup_state \<Rightarrow> lookup_state" where
  "close_round st =
     (let cands = take MAX_LOOKUP_CANDIDATES (sort_key c_distance (lk_candidates st))
      in st\<lparr>lk_hops := lk_hops st + 1, lk_candidates := cands, lk_closest := take K cands\<rparr>)"

definition any_closer_unqueried :: "lookup_state \<Rightarrow> bool" where
  "any_closer_unqueried st \<longleftrightarrow>
     (\<exists>c \<in> set (lk_candidates st). nd_id (c_desc c) \<notin> set (lk_queried st)
        \<and> (lk_closest st = [] \<or> c_distance c < c_distance (last (lk_closest st))))"

text \<open>
  \<^verbatim>\<open>run_iterative_loop\<close>: the environment of round \<^verbatim>\<open>n\<close> is \<^verbatim>\<open>env n\<close>.  The second component of the result
  is the state the caller sees afterwards, the third the descriptors queried, in order.  A round
  joins every spawned task at most once.
\<close>

function run_iterative_loop ::
  "(nat \<Rightarrow> round_env) \<Rightarrow> bytes \<Rightarrow> bool \<Rightarrow> lookup_state
   \<Rightarrow> (lookup_error + unit) \<times> lookup_state \<times> node_descriptor list" where
  "run_iterative_loop env target allow_local st =
     (if env (lk_hops st) = HeadExpired then (Inl Timeout, st, [])
      else if lk_hops st \<ge> LOOKUP_MAX_HOPS then (Inl MaxHopsExceeded, st, [])
      else let batch = lk_batch st in
        if batch = [] then (Inr (), st, [])
        else let st1 = st\<lparr>lk_queried := map nd_id batch @ lk_queried st\<rparr> in
          case env (lk_hops st) of
            Joined joins \<Rightarrow>
              let st2 = close_round (fold (join_task target allow_local batch)
                          (dedup_by fst [] joins) st1)
              in if any_closer_unqueried st2
                 then (case run_iterative_loop env target allow_local st2 of
                         (r, st3, sent) \<Rightarrow> (r, st3, batch @ sent))
                 else (Inr (), st2, batch)
          | _ \<Rightarrow> (Inl Timeout, st1, batch))"
  by pat_completeness auto

lemma join_task_hops [simp]: "lk_hops (join_task target al batch x st) = lk_hops st"
  by (cases x) (auto split: prod.splits rpc_result.splits)

lemma fold_join_hops [simp]: "lk_hops (fold (join_task target al batch) xs st) = lk_hops st"
  by (induction xs arbitrary: st) auto

lemma close_round_hops [simp]: "lk_hops (close_round st) = Suc (lk_hops st)"
  by (simp add: close_round_def Let_def)

termination run_iterative_loop
  by (relation "measure (\<lambda>(env, target, al, st). LOOKUP_MAX_HOPS - lk_hops st)") auto

definition lookup_node ::
  "(nat \<Rightarrow> round_env) \<Rightarrow> bool \<Rightarrow> routing_table \<Rightarrow> bytes
   \<Rightarrow> (lookup_error + node_descriptor list) \<times> routing_table \<times> node_descriptor list" where
  "lookup_node env allow_local t target =
     (let initial = find_closest t target (K * 2) in
      if initial = [] then (Inl NoCandidates, t, [])
      else
        let cands = sort_key c_distance
              (map (\<lambda>d. \<lparr> c_desc = d, c_distance = lk_distance target (nd_id d) \<rparr>) initial);
            st = \<lparr> lk_candidates = cands, lk_queried = [rt_self_id t], lk_closest = [],
                   lk_hops = 0, lk_routing = t \<rparr>
        in case run_iterative_loop env target allow_local st of
             (r, st', sent) \<Rightarrow>
               (map_sum id (\<lambda>_. map c_desc (take K (lk_closest st'))) r, lk_routing st', sent))"

declare run_iterative_loop.simps [simp del]

section \<open>The walk's invariant\<close>

text \<open>
  Every candidate carries its distance to the target and is either one the walk started from or
  has a dialable address; the closest so far are candidates, at most \<^verbatim>\<open>K\<close>, in order of distance.
\<close>

definition lk_inv :: "node_descriptor set \<Rightarrow> bool \<Rightarrow> bytes \<Rightarrow> lookup_state \<Rightarrow> bool" where
  "lk_inv S al target st \<longleftrightarrow>
     (\<forall>c \<in> set (lk_candidates st).
        c_distance c = lk_distance target (nd_id (c_desc c))
        \<and> (c_desc c \<in> S \<or> is_dialable_peer_addr (nd_addr (c_desc c)) al))
     \<and> set (lk_closest st) \<subseteq> set (lk_candidates st) \<and> length (lk_closest st) \<le> K
     \<and> sorted (map c_distance (lk_closest st))"

lemma lk_inv_integrate [inv_intros]:
  assumes "lk_inv S al target st"
  shows "lk_inv S al target
    (st\<lparr>lk_routing := t, lk_candidates := integrate_descriptors target al new (lk_candidates st)\<rparr>)"
  using assms by (auto simp: lk_inv_def integrate_descriptors_def Let_def dest: in_set_takeD)

lemma lk_inv_routing [simp]: "lk_inv S al target (st\<lparr>lk_routing := t\<rparr>) = lk_inv S al target st"
  and lk_inv_queried [simp]: "lk_inv S al target (st\<lparr>lk_queried := q\<rparr>) = lk_inv S al target st"
  by (simp_all add: lk_inv_def)

lemma lk_inv_join [inv_intros]:
  "lk_inv S al target st \<Longrightarrow> lk_inv S al target (join_task target al batch x st)"
  by (cases x) (auto split: prod.splits rpc_result.splits intro: inv_intros)

lemma lk_inv_fold_join [inv_intros]:
  "lk_inv S al target st \<Longrightarrow> lk_inv S al target (fold (join_task target al batch) xs st)"
  by (induction xs arbitrary: st) (auto intro: inv_intros)

lemma lk_inv_close_round [inv_intros]:
  assumes "lk_inv S al target st"
  shows "lk_inv S al target (close_round st)"
proof -
  define cs where "cs = take MAX_LOOKUP_CANDIDATES (sort_key c_distance (lk_candidates st))"
  have sub: "set cs \<subseteq> set (lk_candidates st)"
    using set_take_subset [of MAX_LOOKUP_CANDIDATES "sort_key c_distance (lk_candidates st)"]
    by (simp add: cs_def)
  have "sorted (map c_distance cs)" by (simp add: cs_def flip: take_map)
  then have "sorted (map c_distance (take K cs))" by (simp flip: take_map add: sorted_wrt_take)
  moreover have "close_round st = st\<lparr>lk_hops := lk_hops st + 1, lk_candidates := cs, lk_closest := take K cs\<rparr>"
    by (simp add: close_round_def cs_def Let_def)
  ultimately show ?thesis
    using assms sub set_take_subset [of K cs] by (auto simp: lk_inv_def)
qed

lemma join_task_queried [simp]: "lk_queried (join_task target al batch x st) = lk_queried st"
  by (cases x) (auto split: prod.splits rpc_result.splits)

lemma fold_join_queried [simp]: "lk_queried (fold (join_task target al batch) xs st) = lk_queried st"
  by (induction xs arbitrary: st) auto

lemma close_round_queried [simp]: "lk_queried (close_round st) = lk_queried st"
  by (simp add: close_round_def Let_def)

lemma lk_batch_mem:
  assumes "lk_inv S al target st" "d \<in> set (lk_batch st)"
  shows "nd_id d \<notin> set (lk_queried st) \<and> (d \<in> S \<or> is_dialable_peer_addr (nd_addr d) al)"
  using assms by (auto simp: lk_batch_def lk_inv_def dest!: in_set_takeD)

lemma lk_batch_empty: "lk_batch st = [] \<Longrightarrow> \<not> any_closer_unqueried st"
  by (auto simp: lk_batch_def ALPHA_def any_closer_unqueried_def filter_empty_conv)

lemma length_lk_batch: "length (lk_batch st) \<le> ALPHA"
  by (simp add: lk_batch_def)

text \<open>What one run of the loop guarantees, from any state that satisfies the invariant.\<close>

lemma run_iterative_loop_spec:
  assumes "lk_inv S al target st" "run_iterative_loop env target al st = (r, st', sent)"
  shows "lk_inv S al target st' \<and> (r = Inr () \<longrightarrow> \<not> any_closer_unqueried st')
    \<and> length sent \<le> ALPHA * (LOOKUP_MAX_HOPS - lk_hops st)
    \<and> (\<forall>d \<in> set sent. nd_id d \<notin> set (lk_queried st) \<and> (d \<in> S \<or> is_dialable_peer_addr (nd_addr d) al))"
  using assms
proof (induction env target al st arbitrary: r st' sent rule: run_iterative_loop.induct)
  case (1 env target al st)
  let ?batch = "lk_batch st"
  let ?st1 = "st\<lparr>lk_queried := map nd_id ?batch @ lk_queried st\<rparr>"
  note unfold = run_iterative_loop.simps [of env target al st]
  have mem: "\<And>d. d \<in> set ?batch \<Longrightarrow> nd_id d \<notin> set (lk_queried st)
      \<and> (d \<in> S \<or> is_dialable_peer_addr (nd_addr d) al)"
    using lk_batch_mem [OF "1.prems"(1)] .
  consider (stop) "env (lk_hops st) = HeadExpired \<or> LOOKUP_MAX_HOPS \<le> lk_hops st \<or> ?batch = []"
    | (wait) "env (lk_hops st) = WaitExpired" "lk_hops st < LOOKUP_MAX_HOPS" "?batch \<noteq> []"
    | (join) joins where "env (lk_hops st) = Joined joins" "lk_hops st < LOOKUP_MAX_HOPS" "?batch \<noteq> []"
    by (metis not_le round_env.exhaust)
  then show ?case
  proof cases
    case stop
    then show ?thesis
      using "1.prems" unfold lk_batch_empty [of st] by (auto simp: Let_def split: if_splits)
  next
    case wait
    have "ALPHA \<le> ALPHA * (LOOKUP_MAX_HOPS - lk_hops st)" using wait(2) by (simp add: Suc_leI)
    then show ?thesis
      using "1.prems" unfold wait mem order_trans [OF length_lk_batch [of st]] by (auto simp: Let_def)
  next
    case join
    define st2 where "st2 = close_round (fold (join_task target al ?batch) (dedup_by fst [] joins) ?st1)"
    have inv2: "lk_inv S al target st2"
      unfolding st2_def using "1.prems"(1) by (intro inv_intros) simp
    have q2: "lk_queried st2 = map nd_id ?batch @ lk_queried st" "lk_hops st2 = Suc (lk_hops st)"
      by (simp_all add: st2_def)
    have len: "ALPHA + ALPHA * (LOOKUP_MAX_HOPS - lk_hops st2) \<le> ALPHA * (LOOKUP_MAX_HOPS - lk_hops st)"
      using join(2) by (simp add: q2 ALPHA_def)
    show ?thesis
    proof (cases "any_closer_unqueried st2")
      case False
      then show ?thesis
        using "1.prems" unfold join inv2 mem length_lk_batch [of st] len by (auto simp: Let_def st2_def)
    next
      case True
      obtain r3 st3 s3 where rec: "run_iterative_loop env target al st2 = (r3, st3, s3)"
        by (metis prod_cases3)
      have ih: "lk_inv S al target st3 \<and> (r3 = Inr () \<longrightarrow> \<not> any_closer_unqueried st3)
        \<and> length s3 \<le> ALPHA * (LOOKUP_MAX_HOPS - lk_hops st2)
        \<and> (\<forall>d \<in> set s3. nd_id d \<notin> set (lk_queried st2)
             \<and> (d \<in> S \<or> is_dialable_peer_addr (nd_addr d) al))"
        by (rule "1.IH" [OF _ _ refl _ refl _ st2_def]) (use join True inv2 rec in auto)
      have "(r, st', sent) = (r3, st3, ?batch @ s3)"
        using "1.prems"(2) unfold join True rec by (simp add: Let_def st2_def)
      then show ?thesis
        using ih mem len length_lk_batch [of st] q2 by auto
    qed
  qed
qed

section \<open>Properties\<close>

text \<open>
  Property C33.  A node lookup terminates within eight rounds whatever the network answers, and sends
  at most 24 queries, none to the relay itself, each to a peer of the relay's own table or to an
  address the filter lets through.
\<close>

theorem lookup_bounded:
  assumes "lookup_node env allow_local t target = (r, t', sent)"
  shows "length sent \<le> ALPHA * LOOKUP_MAX_HOPS
    \<and> (\<forall>d \<in> set sent. nd_id d \<noteq> rt_self_id t
         \<and> (d \<in> set (find_closest t target (K * 2)) \<or> is_dialable_peer_addr (nd_addr d) allow_local))"
proof (cases "find_closest t target (K * 2) = []")
  case True
  then show ?thesis using assms by (simp add: lookup_node_def)
next
  case False
  let ?S = "set (find_closest t target (K * 2))"
  define st where "st = \<lparr> lk_candidates = sort_key c_distance
      (map (\<lambda>d. \<lparr> c_desc = d, c_distance = lk_distance target (nd_id d) \<rparr>) (find_closest t target (K * 2))),
      lk_queried = [rt_self_id t], lk_closest = [], lk_hops = 0, lk_routing = t \<rparr>"
  obtain r' st' where run: "run_iterative_loop env target allow_local st = (r', st', sent)"
    using assms False by (auto simp: lookup_node_def Let_def st_def split: prod.splits)
  have "lk_inv ?S allow_local target st" by (auto simp: lk_inv_def st_def)
  from run_iterative_loop_spec [OF this run] show ?thesis by (auto simp: st_def)
qed


text \<open>
  Property C36.  An IPv6 address that maps an IPv4 address passes the filter whatever the mapped
  address is: loopback and private IPv4 hosts, refused in their own notation, are dialable in this
  one although local addresses are not allowed.
\<close>

theorem mapped_ipv4_is_dialable:
  assumes "length v4 = 4" "port \<noteq> 0"
  shows "is_dialable_peer_addr (SocketAddrV6 (replicate 10 0 @ [255, 255] @ v4) port flow scope) False"
proof -
  have head: "v6_head (replicate 10 0 @ [255, 255] @ v4) = 0"
    by (simp add: v6_head_def u16_of_be_def be_decode_def numeral_eq_Suc)
  have "(replicate 10 0 @ [255, 255] @ v4) ! 10 = (255 :: u8)"
    "(replicate 15 0 @ [1]) ! 10 = (0 :: u8)" "replicate 16 0 ! 10 = (0 :: u8)"
    by (simp_all add: nth_append)
  moreover have "(255 :: u8) \<noteq> 0" by simp
  ultimately have "\<not> v6_is_unspecified (replicate 10 0 @ [255, 255] @ v4)"
    "\<not> v6_is_loopback (replicate 10 0 @ [255, 255] @ v4)"
    by (metis v6_is_unspecified_def, metis v6_is_loopback_def)
  moreover have "\<not> v6_is_multicast (replicate 10 0 @ [255, 255] @ v4)"
    by (simp add: v6_is_multicast_def nth_append)
  ultimately show ?thesis
    using assms(2) head by (simp add: is_dialable_peer_addr_def)
qed

theorem mapped_ipv4_is_dialable_witness:
  "\<not> is_dialable_peer_addr (SocketAddrV4 [127, 0, 0, 1] 22) False
   \<and> is_dialable_peer_addr (SocketAddrV6 (replicate 10 0 @ [255, 255] @ [127, 0, 0, 1]) 22 0 0) False"
proof -
  have "\<not> is_dialable_peer_addr (SocketAddrV4 [127, 0, 0, 1] 22) False" by code_simp
  moreover have "is_dialable_peer_addr
      (SocketAddrV6 (replicate 10 0 @ [255, 255] @ [127, 0, 0, 1]) 22 0 0) False"
    by (rule mapped_ipv4_is_dialable) simp_all
  ultimately show ?thesis by simp
qed

text \<open>
  A walk over one known peer whose reply names one node twice and another once; nobody answers in
  the second round.
\<close>

definition dup_env :: "nat \<Rightarrow> round_env" where
  "dup_env hop =
     (if hop = 0 then Joined [(0, 1, FindNodeResponse (map demo_descriptor [9, 9, 10]))]
      else Joined [(0, 2, NoResponse), (1, 2, NoResponse), (2, 2, NoResponse)])"

lemma dup_env_run:
  "lookup_node dup_env False (demo_table 1 [2]) (replicate 31 0 @ [8])
   = (Inr (map demo_descriptor [9, 9, 10]),
      fst (ping_succeeded 1 (replicate 31 0 @ [2]) (demo_table 1 [2])),
      map demo_descriptor [2, 9, 9, 10])"
  by code_simp


theorem lookup_bounded_witness:
  "length (map demo_descriptor [2, 9, 9, 10]) \<le> ALPHA * LOOKUP_MAX_HOPS
   \<and> nd_id (demo_descriptor 9) \<noteq> rt_self_id (demo_table 1 [2])"
proof -
  have "demo_descriptor 9 \<in> set (map demo_descriptor [2, 9, 9, 10])" by simp
  then show ?thesis using lookup_bounded [OF dup_env_run] by blast
qed

text \<open>A walk from one candidate that does not answer.\<close>

definition solo_state :: "bytes list \<Rightarrow> lookup_state" where
  "solo_state queried =
     \<lparr> lk_candidates = [\<lparr> c_desc = demo_descriptor 2,
         c_distance = lk_distance (replicate 32 0) (replicate 31 0 @ [2]) \<rparr>],
       lk_queried = queried, lk_closest = [], lk_hops = 0, lk_routing = table_empty 0 (replicate 32 0) \<rparr>"

lemma solo_run:
  "run_iterative_loop (\<lambda>_. Joined [(0, 1, NoResponse)]) (replicate 32 0) False (solo_state [])
   = (Inr (), close_round (solo_state [replicate 31 0 @ [2]]), [demo_descriptor 2])"
  by code_simp


end
