(* ===== verification/Queue_Properties.thy ===== *)
theory Queue_Properties
  imports Queue
begin

text \<open>
  What the home queue promises to its callers: the meaning of each admission outcome, idempotent
  retries and where they end, the contents of a drain batch, and exact deletion.
\<close>

section \<open>Lemmas\<close>

lemma queue_rows_mem:
  "row \<in> set (queue_rows ks r) \<longleftrightarrow> row \<in> set ks \<and> length (fst row) = mk_SIZE \<and> starts_with r (fst row)"
  by (cases row) (simp add: queue_rows_def)

lemma sized_prefix_mem: "row \<in> set (sized_rows (ks_prefix ks r)) \<longleftrightarrow> row \<in> set (queue_rows ks r)"
  by (simp add: queue_rows_prefix)

lemma enqueue_other_outcomes:
  "snd (enqueue_for_home fj sd user d now ks) \<noteq> Stored \<Longrightarrow> fst (enqueue_for_home fj sd user d now ks) = ks"
  by (auto simp: enqueue_for_home_def io_insert_def split: queue_admission.splits option.splits if_splits)

lemma enqueue_stored_cases:
  assumes "snd (enqueue_for_home fj sd user d now ks) = Stored"
  shows "admit_to_queue fj sd ks user (d_id d) (d_from d) = AlreadyQueued
           \<and> fst (enqueue_for_home fj sd user d now ks) = ks
    \<or> (\<exists>val. admit_to_queue fj sd ks user (d_id d) (d_from d) = Insert \<and> ser_dispatch sd d = Some val
         \<and> fst (enqueue_for_home fj sd user d now ks)
           = ks_insert (mk_as_bytes (mk_new user now (d_id d))) val ks)"
  using assms
  by (auto simp: enqueue_for_home_def io_insert_def split: queue_admission.splits option.splits if_splits)

lemma queued_dispatch_ser:
  "serde_ok sd \<Longrightarrow> ser_dispatch sd d = Some val \<Longrightarrow> queued_dispatch sd r val = Some d"
  by (simp add: serde_ok_def queued_dispatch_def)

text \<open>A row just inserted is a row of the recipient, and it attributes to the sender.\<close>

lemma inserted_row:
  assumes "ks_wf ks" "length user = 32" "length (d_id d) = 16" "serde_ok sd" "ser_dispatch sd d = Some val"
    and k: "k = mk_as_bytes (mk_new user now (d_id d))"
  shows "(k, val) \<in> set (queue_rows (ks_insert k val ks) user)"
    and "row_id (k, val) = d_id d" and "queued_from sd user (d_from d) val"
  using assms queued_dispatch_ser [OF assms(4,5)]
  by (auto simp: k queue_rows_mem set_ks_insert mk_new_bytes mk_SIZE_def row_id_def queued_from_def)

lemma readable_take: "reads_rows rows gs \<Longrightarrow> readable gs = take (length (readable gs)) rows"
proof (induction gs arbitrary: rows)
  case (Cons g gs)
  then show ?case by (cases g) auto
qed simp

lemma sorted_wrt_filter_map: "sorted_wrt R (map f xs) \<Longrightarrow> sorted_wrt R (map f (filter P xs))"
  by (induction xs) auto

text \<open>Decoded rows come in the order of their keys.\<close>

lemma decoded_sorted:
  assumes "sorted_wrt (<) (map fst rows)" "\<forall>row \<in> set rows. mk_parse (fst row) \<noteq> None"
  shows "sorted_wrt (<) (map (fst \<circ> decoded sd user) rows)"
  using assms
proof (induction rows)
  case (Cons row rows)
  obtain k where k: "mk_parse (fst row) = Some k" using Cons.prems(2) by auto
  have "k < the (mk_parse (fst r))" if r: "r \<in> set rows" for r
  proof -
    obtain k' where k': "mk_parse (fst r) = Some k'" using Cons.prems(2) r by auto
    moreover have "fst row < fst r" using Cons.prems(1) r by simp
    ultimately show ?thesis
      using mk_parse_SomeD [OF k] mk_parse_SomeD [OF k'] mk_less_bytes by force
  qed
  then show ?case using Cons k by (auto simp: decoded_def)
qed simp

lemma drainable_rows_sorted:
  assumes "scan_sound fj" "ks_wf ks"
  shows "sorted_wrt (<) (map fst (take n (filter P (readable (fj_prefix fj ks user)))))"
proof -
  let ?gs = "fj_prefix fj ks user"
  have "sorted_wrt (<) (map fst (ks_prefix ks user))"
    using ks_wf_prefix [OF assms(2)] by (simp add: ks_wf_def)
  then have "sorted_wrt (<) (map fst (readable ?gs))"
    by (subst readable_take [OF scan_sound_prefix [OF assms]]) (simp add: sorted_wrt_take flip: take_map)
  then have "sorted_wrt (<) (map fst (filter P (readable ?gs)))" by (rule sorted_wrt_filter_map)
  then show ?thesis by (simp add: sorted_wrt_take flip: take_map)
qed

lemma readable_rows:
  assumes "scan_sound fj" "ks_wf ks" "row \<in> set (readable (fj_prefix fj ks user))"
  shows "row \<in> set ks" "starts_with user (fst row)"
proof -
  have "row \<in> set (ks_prefix ks user)"
    using assms(3) readable_take [OF scan_sound_prefix [OF assms(1,2)]] by (metis in_set_takeD)
  then show "row \<in> set ks" "starts_with user (fst row)" by (auto simp: set_ks_prefix)
qed

lemma victims_scan_readable:
  "victims_scan ids gs
   = map fst (filter (\<lambda>row. length (fst row) = mk_SIZE \<and> row_id row \<in> set ids) (readable gs))"
  by (induction ids gs rule: victims_scan.induct)
    (auto simp: mk_parse_def mk_SIZE_def row_id_def)

lemma distinct_map_before: "distinct (map f (A @ x # B)) \<Longrightarrow> \<forall>r \<in> set A. f r \<noteq> f x"
  by auto (metis image_eqI)

lemma enqueue_stored_row:
  assumes "scan_sound fj" "serde_ok sd" "ks_wf ks" "length user = 32" "length (d_id d) = 16"
    and "snd (enqueue_for_home fj sd user d now ks) = Stored"
  shows "\<exists>row \<in> set (queue_rows (fst (enqueue_for_home fj sd user d now ks)) user).
    row_id row = d_id d \<and> queued_from sd user (d_from d) (snd row)"
  using enqueue_stored_cases [OF assms(6)]
proof (elim disjE exE conjE)
  assume a: "admit_to_queue fj sd ks user (d_id d) (d_from d) = AlreadyQueued"
    "fst (enqueue_for_home fj sd user d now ks) = ks"
  from admit_scan_AlreadyQueued [OF a(1) [unfolded admit_to_queue_def] scan_sound_prefix [OF assms(1,3)]]
  have "\<exists>row \<in> set (queue_rows ks user). row_id row = d_id d \<and> queued_from sd user (d_from d) (snd row)"
    by (simp only: sized_prefix_mem [symmetric] Bex_def)
  then show ?thesis using a(2) by simp
next
  fix val assume i: "ser_dispatch sd d = Some val"
    "fst (enqueue_for_home fj sd user d now ks) = ks_insert (mk_as_bytes (mk_new user now (d_id d))) val ks"
  show ?thesis unfolding i(2) using inserted_row [OF assms(3-5,2) i(1) refl] by (metis snd_conv)
qed

lemma enqueue_keeps:
  assumes "scan_sound fj" "ks_wf ks" "length user = 32" "length (d_id d) = 16"
  shows "set ks \<subseteq> set (fst (enqueue_for_home fj sd user d now ks))"
proof (cases "snd (enqueue_for_home fj sd user d now ks) = Stored")
  case True
  from enqueue_stored_cases [OF True] show ?thesis
  proof (elim disjE exE conjE)
    fix val assume i: "admit_to_queue fj sd ks user (d_id d) (d_from d) = Insert"
      "fst (enqueue_for_home fj sd user d now ks) = ks_insert (mk_as_bytes (mk_new user now (d_id d))) val ks"
    have "(mk_as_bytes (mk_new user now (d_id d)), v) \<notin> set ks" for v
      using admit_to_queue_Insert(1) [OF i(1) assms(1,2)] row_id_new [OF assms(3,4)] assms(3,4)
      by (force simp: queue_rows_mem mk_new_bytes mk_SIZE_def)
    then show ?thesis unfolding i(2) by (auto simp: set_ks_insert [OF assms(2)])
  qed simp
qed (use enqueue_other_outcomes in auto)

section \<open>Properties\<close>

text \<open>
  Property C2.  \<^verbatim>\<open>Stored\<close> tells the truth: after it the recipient's queue holds a row with the
  dispatch's id that attributes to the dispatch's sender.  No admission touches another row: every
  row there before is there afterwards, and any other outcome leaves the queue as it was.
\<close>

theorem enqueue_outcome_meaning:
  assumes "scan_sound fj" "serde_ok sd" "queue_inv ks" "length user = 32" "length (d_id d) = 16"
    and "enqueue_for_home fj sd user d now ks = (ks', outcome)"
  shows "set ks \<subseteq> set ks'
    \<and> (outcome = Stored \<longrightarrow> (\<exists>row \<in> set (queue_rows ks' user).
          row_id row = d_id d \<and> queued_from sd user (d_from d) (snd row)))
    \<and> (outcome \<noteq> Stored \<longrightarrow> ks' = ks)"
proof -
  have wf: "ks_wf ks" using assms(3) by (simp add: queue_inv_def)
  show ?thesis
    using enqueue_keeps [OF assms(1) wf assms(4,5), of sd now] enqueue_stored_row [OF assms(1,2) wf assms(4,5), of now]
      enqueue_other_outcomes [of fj sd user d now ks] assms(6) by auto
qed


text \<open>
  Property C38.  The retry of a dispatch that is already queued is refused as a foreign id once more
  than the byte budget precedes its row: past the budget no row is attributed to its sender, so the
  collision check cannot recognise the sender's own row.
\<close>

theorem retry_refused_past_budget:
  assumes "ks_prefix ks user = pre @ (key, val) # post"
    and "length key = mk_SIZE" "row_id (key, val) = d_id d"
    and "\<forall>row \<in> set (sized_rows pre). row_id row \<noteq> d_id d"
    and "length (sized_rows pre) < MAX_QUEUED_PER_RECIPIENT"
    and "length (filter (\<lambda>(k, v). queued_from sd user (d_from d) v) (sized_rows pre)) < MAX_QUEUED_PER_SENDER"
    and "sum_list (map (length \<circ> snd) (sized_rows pre)) \<ge> SENDER_SCAN_BYTE_BUDGET"
  shows "enqueue_for_home healthy_io sd user d now ks = (ks, BadSig)"
proof -
  have "admit_scan sd user (d_id d) (d_from d) (map Some (pre @ (key, val) # post)) 0 0 0 = IdTakenByOther"
    using assms by (intro admit_scan_past_budget) simp_all
  then show ?thesis
    by (simp add: enqueue_for_home_def admit_to_queue_def assms(1))
qed

text \<open>
  Property C3.  A drain batch is the longest useful prefix of the user's queue: its entries are the
  first drainable rows, oldest first, at most as many as asked and together within the frame budget;
  it is empty only when nothing drainable was read; it reports \<^verbatim>\<open>exhausted\<close> exactly when the scan had
  no error and every drainable row is in the batch; and the only rows it deletes are rows of this user
  that are too big to frame or past their declared life.
\<close>

theorem queue_batch_contract:
  assumes run: "queue_batch_for_user fj sd user mx now ks = (ks', out, exhausted)"
    and "0 < mx" "scan_sound fj" "ks_wf ks"
  defines "D \<equiv> filter (drainable sd user now) (readable (fj_prefix fj ks user))"
  shows "out = map (decoded sd user) (take (length out) D) \<and> sorted_wrt (<) (map fst out)
    \<and> length out \<le> mx
    \<and> sum_list (map (length \<circ> snd) (take (length out) D)) \<le> QUEUE_BATCH_MAX_BYTES
    \<and> (out = [] \<longrightarrow> D = [])
    \<and> (exhausted \<longleftrightarrow> None \<notin> set (fj_prefix fj ks user) \<and> length out = length D)
    \<and> set ks' \<subseteq> set ks
    \<and> (\<forall>row \<in> set ks - set ks'. starts_with user (fst row) \<and> doomed sd user now row)"
proof -
  obtain dead where scan: "batch_scan sd user mx now (fj_prefix fj ks user) 0 0 = (out, dead, exhausted)"
    and ks': "ks' = fst (io_removes fj dead ks)"
    using run assms(2) by (auto simp: queue_batch_for_user_def split: prod.splits)
  have ok: "batch_ok sd user mx now (fj_prefix fj ks user) 0 0 (out, dead, exhausted)"
    using batch_scan_spec [of sd user mx now "fj_prefix fj ks user" 0 0] by (simp only: scan)
  then have out: "out = map (decoded sd user) (take (length out) D)"
    by (simp add: batch_ok_def D_def Let_def)
  have "\<forall>row \<in> set (take (length out) D). mk_parse (fst row) \<noteq> None"
    by (auto simp: D_def drainable_def dest!: in_set_takeD)
  with decoded_sorted drainable_rows_sorted [OF assms(3,4)]
  have "sorted_wrt (<) (map (fst \<circ> decoded sd user) (take (length out) D))"
    unfolding D_def by blast
  then have srt: "sorted_wrt (<) (map fst out)" by (subst out) simp
  have dsub: "set dead \<subseteq> fst ` {row \<in> set (readable (fj_prefix fj ks user)). doomed sd user now row}"
    using ok by (simp add: batch_ok_def Let_def)
  have dead: "starts_with user (fst row) \<and> doomed sd user now row"
    if "row \<in> set ks" "row \<notin> set ks'" for row
  proof -
    have "fst row \<in> set dead" using that set_io_removes(2) [of ks dead fj] ks' by auto
    then obtain r where r: "r \<in> set (readable (fj_prefix fj ks user))" "doomed sd user now r" "fst r = fst row"
      using dsub by fastforce
    have "r \<in> set ks" "starts_with user (fst r)" using readable_rows [OF assms(3,4) r(1)] by simp_all
    moreover from this have "r = row"
      using r(3) that(1) ks_wf_distinct [OF assms(4)] by (metis distinct_map inj_onD)
    ultimately show ?thesis using r(2) by simp
  qed
  show ?thesis
    using ok out srt dead set_io_removes(1) [of fj dead ks] ks' assms(2)
    by (auto simp: batch_ok_def D_def Let_def)
qed

text \<open>
  Property C17.  An acknowledgement deletes exactly what it names: with a working store, the rows
  that remain are those that are not a row of this user with one of the ids, in their old order, and
  the count returned is the number of rows removed.  With a failing store it still removes nothing
  else.
\<close>

theorem delete_queue_entries_exact:
  assumes "ks_wf ks" "scan_sound fj"
  shows "delete_queue_entries healthy_io user ids ks
      = (filter (\<lambda>row. \<not> (length (fst row) = mk_SIZE \<and> starts_with user (fst row) \<and> row_id row \<in> set ids)) ks,
         length (filter (\<lambda>row. row_id row \<in> set ids) (queue_rows ks user)))
    \<and> (\<forall>row \<in> set ks. row \<in> set (fst (delete_queue_entries fj user ids ks))
         \<or> length (fst row) = mk_SIZE \<and> starts_with user (fst row) \<and> row_id row \<in> set ids)"
proof -
  let ?hit = "\<lambda>row. length (fst row) = mk_SIZE \<and> row_id row \<in> set ids"
  define dead where "dead = map fst (filter ?hit (ks_prefix ks user))"
  have dead_iff: "fst row \<in> set dead \<longleftrightarrow> ?hit row \<and> starts_with user (fst row)" if "row \<in> set ks" for row
    using that by (force simp: dead_def ks_prefix_def row_id_def)
  have healthy: "delete_queue_entries healthy_io user ids ks = (fold ks_remove dead ks, length dead)"
    by (auto simp: delete_queue_entries_def victims_scan_readable io_removes_healthy dead_def)
  have "fold ks_remove dead ks = filter (\<lambda>row. \<not> (?hit row \<and> starts_with user (fst row))) ks"
    unfolding ks_removes_filter using dead_iff by (intro filter_cong) auto
  moreover have "length dead = length (filter (\<lambda>row. row_id row \<in> set ids) (queue_rows ks user))"
    by (simp add: dead_def queue_rows_prefix split_def filter_filter conj_commute)
  moreover have "row \<in> set (fst (delete_queue_entries fj user ids ks))
      \<or> ?hit row \<and> starts_with user (fst row)" if row: "row \<in> set ks" for row
  proof (cases "ids = []")
    case False
    let ?vs = "victims_scan ids (fj_prefix fj ks user)"
    have "?hit row \<and> starts_with user (fst row)" if "fst row \<in> set ?vs"
      using that readable_rows(2) [OF assms(2,1)] by (auto simp: victims_scan_readable row_id_def)
    then show ?thesis
      using set_io_removes(2) [of ks ?vs fj] row False by (auto simp: delete_queue_entries_def)
  qed (use row in \<open>simp add: delete_queue_entries_def\<close>)
  ultimately show ?thesis using healthy by (auto intro!: filter_cong)
qed

section \<open>Witnesses\<close>

definition demo_queue :: keyspace where
  "demo_queue = [(mk_as_bytes (mk_new (replicate 32 1) 5 (replicate 16 3)), the (flat_ser (demo_dispatch 1 2 3)))]"

lemma demo_enqueue:
  "enqueue_for_home healthy_io flat_serde (replicate 32 1) (demo_dispatch 1 2 3) 5 [] = (demo_queue, Stored)"
  by (simp add: demo_queue_def enqueue_for_home_def admit_to_queue_def ks_prefix_def admit_verdict_def
      MAX_QUEUED_PER_RECIPIENT_def MAX_QUEUED_PER_SENDER_def flat_serde_def flat_ser_def io_insert_def
      demo_dispatch_def)

lemma demo_queue_inv: "queue_inv demo_queue"
  using queue_inv_enqueue [OF queue_inv_Nil scan_sound_healthy, of "replicate 32 1" "demo_dispatch 1 2 3" flat_serde 5]
  by (simp add: demo_enqueue) (simp add: demo_dispatch_def)

lemma demo_queue_wf: "ks_wf demo_queue"
  using demo_queue_inv by (simp add: queue_inv_def)

theorem enqueue_outcome_meaning_witness:
  "\<exists>row \<in> set (queue_rows demo_queue (replicate 32 1)). row_id row = replicate 16 3"
  using enqueue_outcome_meaning [OF scan_sound_healthy serde_ok_flat queue_inv_Nil _ _ demo_enqueue]
  by (auto simp: demo_dispatch_def)

lemma demo_queue_size:
  "sum_list (map (length \<circ> snd) (queue_rows demo_queue (replicate 32 1))) < SENDER_SCAN_BYTE_BUDGET"
  "length (filter (\<lambda>(k, v). queued_from flat_serde (replicate 32 1) (d_from (demo_dispatch 1 2 3)) v)
     (queue_rows demo_queue (replicate 32 1))) \<le> MAX_QUEUED_PER_SENDER"
  by (simp_all add: demo_queue_def queue_rows_def SENDER_SCAN_BYTE_BUDGET_def MAX_QUEUED_PER_SENDER_def
      flat_ser_def demo_dispatch_def)


text \<open>Nine rows of a million bytes before the sender's own row.\<close>

definition heavy_row :: "u8 \<Rightarrow> bytes \<times> bytes" where
  "heavy_row n = (mk_as_bytes (mk_new (replicate 32 1) 1 (replicate 16 n)), replicate 1000000 0)"

definition heavy_queue :: "u8 list \<Rightarrow> keyspace" where
  "heavy_queue ns = map heavy_row ns"

definition own_row :: "bytes \<times> bytes" where
  "own_row = (mk_as_bytes (mk_new (replicate 32 1) 2 (replicate 16 10)), the (flat_ser (demo_dispatch 1 2 10)))"

lemma heavy_row_facts:
  "length (fst (heavy_row n)) = mk_SIZE" "length (snd (heavy_row n)) = 1000000"
  "row_id (heavy_row n) = replicate 16 n" "starts_with (replicate 32 1) (fst (heavy_row n))"
  by (simp_all add: heavy_row_def mk_new_bytes mk_SIZE_def row_id_def)

lemma heavy_queue_facts:
  "sized_rows (heavy_queue ns) = heavy_queue ns" "ks_prefix (heavy_queue ns) (replicate 32 1) = heavy_queue ns"
  "sum_list (map (length \<circ> snd) (heavy_queue ns)) = 1000000 * length ns" "length (heavy_queue ns) = length ns"
  by (induction ns) (simp_all add: heavy_queue_def heavy_row_facts split_def ks_prefix_def)

theorem retry_refused_past_budget_witness:
  "enqueue_for_home healthy_io flat_serde (replicate 32 1) (demo_dispatch 1 2 10) 3
     (heavy_queue [1, 2, 3, 4, 5, 6, 7, 8, 9] @ [own_row])
   = (heavy_queue [1, 2, 3, 4, 5, 6, 7, 8, 9] @ [own_row], BadSig)"
proof (rule retry_refused_past_budget)
  let ?pre = "heavy_queue [1, 2, 3, 4, 5, 6, 7, 8, 9]"
  show "ks_prefix (?pre @ [own_row]) (replicate 32 1) = ?pre @ (fst own_row, snd own_row) # []"
    using heavy_queue_facts(2) [of "[1, 2, 3, 4, 5, 6, 7, 8, 9]"]
    by (simp add: ks_prefix_def own_row_def mk_new_bytes)
  show "length (fst own_row) = mk_SIZE" "row_id (fst own_row, snd own_row) = d_id (demo_dispatch 1 2 10)"
    by (simp_all add: own_row_def mk_new_bytes mk_SIZE_def row_id_def demo_dispatch_def)
  show "\<forall>row \<in> set (sized_rows ?pre). row_id row \<noteq> d_id (demo_dispatch 1 2 10)"
    unfolding heavy_queue_facts by (simp add: heavy_queue_def heavy_row_facts demo_dispatch_def)
  show "length (sized_rows ?pre) < MAX_QUEUED_PER_RECIPIENT"
    unfolding heavy_queue_facts by (simp add: MAX_QUEUED_PER_RECIPIENT_def)
  show "length (filter (\<lambda>(k, v). queued_from flat_serde (replicate 32 1) (d_from (demo_dispatch 1 2 10)) v)
      (sized_rows ?pre)) < MAX_QUEUED_PER_SENDER"
    by (rule le_less_trans [OF length_filter_le])
      (simp only: heavy_queue_facts, simp add: MAX_QUEUED_PER_SENDER_def)
  show "sum_list (map (length \<circ> snd) (sized_rows ?pre)) \<ge> SENDER_SCAN_BYTE_BUDGET"
    unfolding heavy_queue_facts by (simp add: SENDER_SCAN_BYTE_BUDGET_def)
qed

theorem queue_batch_contract_witness:
  "sorted_wrt (<) (map fst (fst (snd (queue_batch_for_user healthy_io flat_serde (replicate 32 1) 64 1100 demo_queue))))"
proof -
  obtain ks' out ex where "queue_batch_for_user healthy_io flat_serde (replicate 32 1) 64 1100 demo_queue = (ks', out, ex)"
    by (metis prod_cases3)
  from queue_batch_contract [OF this _ scan_sound_healthy demo_queue_wf] this show ?thesis by simp
qed

theorem delete_queue_entries_exact_witness:
  "delete_queue_entries healthy_io (replicate 32 1) [replicate 16 3] demo_queue = ([], 1)"
proof -
  have "filter (\<lambda>row. \<not> (length (fst row) = mk_SIZE \<and> starts_with (replicate 32 1) (fst row)
      \<and> row_id row \<in> set [replicate 16 3])) demo_queue = []"
    "length (filter (\<lambda>row. row_id row \<in> set [replicate 16 3]) (queue_rows demo_queue (replicate 32 1))) = 1"
    by (simp_all add: demo_queue_def queue_rows_def mk_new_bytes mk_SIZE_def row_id_def starts_with_def)
  then show ?thesis
    using delete_queue_entries_exact [OF demo_queue_wf scan_sound_healthy, of "replicate 32 1" "[replicate 16 3]"]
    by simp
qed

end
