(* ===== verification/Forwarding.thy ===== *)
theory Forwarding
  imports Lookup Queue_Properties Store_Rows "HOL-Library.Multiset"
begin

text \<open>
  Sticky-home routing (\<^verbatim>\<open>relay/src/dht/forward.rs\<close>, \<^verbatim>\<open>relay/src/dht/home.rs\<close>): the sender's relay fans a
  dispatch out to the homes of the recipient, and each home delivers it live or queues it.  What
  other machines answer, and whether a live delivery succeeds, are inputs.
\<close>

section \<open>A relay\<close>

text \<open>
  The node id is the id of the routing table.  \<^verbatim>\<open>dh_clients\<close> tells who is connected here, and
  \<^verbatim>\<open>dh_wakes\<close> lists the push wakes that were triggered.
\<close>

record dht =
  dh_table :: routing_table
  dh_peer_conns :: "bytes \<Rightarrow> bytes option"
  dh_clients :: "bytes \<Rightarrow> bool"
  dh_presence_leases :: "bytes \<Rightarrow> presence_lease option"
  dh_queue :: keyspace
  dh_lease_rows :: keyspace
  dh_consent_rows :: keyspace
  dh_state_rows :: keyspace
  dh_maintenance :: maintenance_state
  dh_wakes :: "(bytes \<times> wake) list"

abbreviation dh_node_id :: "dht \<Rightarrow> bytes" where
  "dh_node_id dht \<equiv> rt_self_id (dh_table dht)"

record relay_env =
  re_crypto :: crypto
  re_io :: fjall_io
  re_serde :: serde
  re_lease_serde :: lease_serde
  re_approximate_len :: "keyspace \<Rightarrow> nat"

definition ACTIVITY_MAX_SKEW_MS :: u64 where "ACTIVITY_MAX_SKEW_MS = 30000"

definition verify_dispatch_user_sig :: "crypto \<Rightarrow> dispatch \<Rightarrow> bool" where
  "verify_dispatch_user_sig cr d =
     verify_versioned cr (d_from d) (d_sig d) (\<lambda>v. dispatch_sig_message v (d_to d) (d_from d) (d_id d) (d_payload d))"

definition activity_is_authentic :: "crypto \<Rightarrow> activity \<Rightarrow> u64 \<Rightarrow> bool" where
  "activity_is_authentic cr a now_ms =
     (if abs_diff now_ms (ac_timestamp a) > ACTIVITY_MAX_SKEW_MS then False
      else verify_ed25519 cr (ac_from a)
             (activity_sig_message (ac_to a) (ac_from a) (ac_group_id a) (ac_activity a) (ac_timestamp a)) (ac_sig a))"

definition trigger_wake :: "bytes \<Rightarrow> wake \<Rightarrow> dht \<Rightarrow> dht" where
  "trigger_wake user w dht = dht\<lparr> dh_wakes := dh_wakes dht @ [(user, w)] \<rparr>"

definition resolve_sender_pubkey :: "dht \<Rightarrow> bytes \<Rightarrow> bytes option" where
  "resolve_sender_pubkey dht sender_relay_id =
     (let known = (\<lambda>pk. pk \<noteq> replicate 32 0) in
      case Option.bind (map_option re_pubkey (rt_get (dh_table dht) sender_relay_id)) (\<lambda>pk. if known pk then Some pk else None) of
        Some pk \<Rightarrow> Some pk
      | None \<Rightarrow> Option.bind (dh_peer_conns dht sender_relay_id) (\<lambda>pk. if known pk then Some pk else None))"

section \<open>Live delivery\<close>

text \<open>
  Asking the relay that holds the lease.  \<^verbatim>\<open>rpc\<close> answers whether that relay replied that it delivered.
\<close>

definition build_live_forward :: "dht \<Rightarrow> (bytes \<Rightarrow> bytes) \<Rightarrow> dispatch \<Rightarrow> presence_lease \<Rightarrow> u64 \<Rightarrow> live_forward" where
  "build_live_forward dht sign d lease timestamp =
     \<lparr> lf_dispatch = d, lf_lease = lease, lf_sender_relay_id = dh_node_id dht, lf_timestamp = timestamp,
       lf_sig = sign (live_forward_signing_input (d_id d) lease (dh_node_id dht) timestamp) \<rparr>"

definition forward_via_active_lease ::
  "dht \<Rightarrow> (bytes \<Rightarrow> bytes) \<Rightarrow> (node_descriptor \<Rightarrow> live_forward \<Rightarrow> bool) \<Rightarrow> dispatch \<Rightarrow> presence_lease \<Rightarrow> u64 \<Rightarrow> bool" where
  "forward_via_active_lease dht sign rpc d lease timestamp =
     (case map_option descriptor (rt_get (dh_table dht) (pl_relay_id lease)) of
        None \<Rightarrow> False
      | Some peer \<Rightarrow> rpc peer (build_live_forward dht sign d lease timestamp))"

definition is_primary_home :: "dht \<Rightarrow> bytes \<Rightarrow> bool" where
  "is_primary_home dht recipient =
     (case rt_closest (dh_table dht) recipient 1 of
        [] \<Rightarrow> True
      | peer # _ \<Rightarrow> xor32 (dh_node_id dht) recipient < xor32 (re_id peer) recipient)"

text \<open>The live outcomes: the local connection acknowledged, the lease relay's answers, the time budget.\<close>

record live_io =
  lv_local :: bool
  lv_sign :: "bytes \<Rightarrow> bytes"
  lv_rpc :: "node_descriptor \<Rightarrow> live_forward \<Rightarrow> bool"
  lv_now :: u64
  lv_timed_out :: bool

definition valid_lease :: "relay_env \<Rightarrow> dht \<Rightarrow> bytes \<Rightarrow> u64 \<Rightarrow> presence_lease option" where
  "valid_lease e dht user now_ms =
     Option.bind (get_presence_lease (re_io e) (re_lease_serde e) (dh_lease_rows dht) user)
       (\<lambda>l. if verify_lease (re_crypto e) l now_ms then Some l else None)"

definition delivered_live :: "relay_env \<Rightarrow> live_io \<Rightarrow> dispatch \<Rightarrow> u64 \<Rightarrow> dht \<Rightarrow> bool" where
  "delivered_live e io d now_ms dht \<longleftrightarrow>
     \<not> lv_timed_out io
     \<and> (if dh_clients dht (d_to d) \<and> lv_local io then True
        else if is_primary_home dht (d_to d)
        then (case valid_lease e dht (d_to d) now_ms of
                None \<Rightarrow> False
              | Some lease \<Rightarrow> forward_via_active_lease dht (lv_sign io) (lv_rpc io) d lease (lv_now io))
        else False)"

section \<open>The home side\<close>

definition handle_forward_rpc ::
  "relay_env \<Rightarrow> live_io \<Rightarrow> bool \<Rightarrow> forward \<Rightarrow> u64 \<Rightarrow> dht \<Rightarrow> dht \<times> forward_outcome" where
  "handle_forward_rpc e io barrier fwd now_ms dht =
     (case resolve_sender_pubkey dht (f_sender_relay_id fwd) of
        None \<Rightarrow> (dht, BadSig)
      | Some sender_pubkey \<Rightarrow>
          if verify_forward (re_crypto e) fwd sender_pubkey now_ms \<noteq> Inr () then (dht, BadSig)
          else let d = f_dispatch fwd; recipient = d_to d in
          if \<not> snd (homes (dh_table dht) recipient) then (dht, NotOwner)
          else if \<not> verify_dispatch_user_sig (re_crypto e) d then (dht, BadSig)
          else if delivered_live e io d now_ms dht then (dht, Delivered)
          else case enqueue_for_home (re_io e) (re_serde e) recipient d now_ms (dh_queue dht) of
            (q', outcome) \<Rightarrow>
              let dht' = dht\<lparr> dh_queue := q' \<rparr> in
              if outcome = Stored
              then if \<not> barrier then (dht', BadSig)
                   else (if wakes (d_wake d) then trigger_wake recipient (d_wake d) dht' else dht', Stored)
              else (dht', outcome))"

definition handle_live_forward_rpc :: "relay_env \<Rightarrow> bool \<Rightarrow> live_forward \<Rightarrow> bytes \<Rightarrow> u64 \<Rightarrow> dht \<Rightarrow> bool" where
  "handle_live_forward_rpc e deliver_ok f authenticated_relay now_ms dht =
     (let cr = re_crypto e; lease = lf_lease f; d = lf_dispatch f in
      if d_to d \<noteq> pl_user lease
         \<or> lf_sender_relay_id f \<noteq> authenticated_relay
         \<or> pl_relay_id lease \<noteq> dh_node_id dht
         \<or> \<not> verify_lease cr lease now_ms
         \<or> abs_diff now_ms (lf_timestamp f) > MAX_DHT_HELLO_SKEW_MS
         \<or> \<not> verify_dispatch_user_sig cr d
         \<or> dh_presence_leases dht (pl_user lease) \<noteq> Some lease
      then False
      else case resolve_sender_pubkey dht (lf_sender_relay_id f) of
        None \<Rightarrow> False
      | Some sender_pubkey \<Rightarrow>
          if \<not> verify_ed25519 cr sender_pubkey
                 (live_forward_signing_input (d_id d) lease (lf_sender_relay_id f) (lf_timestamp f)) (lf_sig f)
          then False
          else dh_clients dht (d_to d) \<and> deliver_ok)"

definition handle_activity_forward_rpc :: "relay_env \<Rightarrow> bool \<Rightarrow> activity \<Rightarrow> u64 \<Rightarrow> dht \<Rightarrow> bool" where
  "handle_activity_forward_rpc e send_ok a now_ms dht =
     (if \<not> activity_is_authentic (re_crypto e) a now_ms then False
      else dh_clients dht (ac_to a) \<and> send_ok)"

definition io_ok_true :: "bool io_result \<Rightarrow> bool" where
  "io_ok_true r = (case r of Inl _ \<Rightarrow> False | Inr b \<Rightarrow> b)"

definition handle_presence_consent_rpc :: "relay_env \<Rightarrow> presence_consent \<Rightarrow> u64 \<Rightarrow> dht \<Rightarrow> dht \<times> bool" where
  "handle_presence_consent_rpc e c now_ms dht =
     (if \<not> verify_consent (re_crypto e) c now_ms then (dht, False)
      else case put_presence_consent (re_io e) (re_approximate_len e) c (dh_consent_rows dht, dh_maintenance dht) of
        ((rows, ms), res) \<Rightarrow> (dht\<lparr> dh_consent_rows := rows, dh_maintenance := ms \<rparr>, io_ok_true res))"

definition handle_presence_lease_rpc :: "relay_env \<Rightarrow> presence_lease \<Rightarrow> bytes \<Rightarrow> u64 \<Rightarrow> dht \<Rightarrow> dht \<times> bool" where
  "handle_presence_lease_rpc e l authenticated_relay now_ms dht =
     (if pl_relay_id l \<noteq> authenticated_relay \<or> \<not> verify_lease (re_crypto e) l now_ms then (dht, False)
      else case put_presence_lease (re_io e) (re_lease_serde e) l (dh_lease_rows dht, dh_maintenance dht) of
        ((rows, ms), res) \<Rightarrow> (dht\<lparr> dh_lease_rows := rows, dh_maintenance := ms \<rparr>, io_ok_true res))"

text \<open>The third component tells whether the recipient, connected here, was sent the new state.\<close>

definition handle_presence_state_rpc ::
  "relay_env \<Rightarrow> relay_presence_state \<Rightarrow> bytes \<Rightarrow> u64 \<Rightarrow> dht \<Rightarrow> dht \<times> bool \<times> bool" where
  "handle_presence_state_rpc e r authenticated_relay now_ms dht =
     (if \<not> verify_presence_state (re_crypto e) r authenticated_relay now_ms
         \<or> \<not> has_presence_consent (re_io e) (dh_consent_rows dht) (rp_who r) (rp_recipient r)
      then (dht, False, False)
      else case put_presence_state (re_io e) (rp_recipient r) (rp_who r) (rp_state r) (rp_version r) (rp_observed_at_ms r)
                  (pl_expires_at_ms (rp_lease r)) (dh_state_rows dht) of
        (rows, Inl _) \<Rightarrow> (dht\<lparr> dh_state_rows := rows \<rparr>, False, False)
      | (rows, Inr is_newest) \<Rightarrow> (dht\<lparr> dh_state_rows := rows \<rparr>, True, is_newest \<and> dh_clients dht (rp_recipient r)))"

section \<open>The sender side\<close>

record forward_summary =
  fs_homes_tried :: "bytes list"
  fs_delivered_at :: "bytes list"
  fs_stored_at :: "bytes list"
  fs_failed_at :: "(bytes \<times> forward_outcome) list"

definition summary_default :: forward_summary where
  "summary_default = \<lparr> fs_homes_tried = [], fs_delivered_at = [], fs_stored_at = [], fs_failed_at = [] \<rparr>"

definition success_count :: "forward_summary \<Rightarrow> nat" where
  "success_count s = length (fs_delivered_at s) + length (fs_stored_at s)"

definition any_delivered :: "forward_summary \<Rightarrow> bool" where
  "any_delivered s \<longleftrightarrow> fs_delivered_at s \<noteq> []"

definition meets_k_min :: "forward_summary \<Rightarrow> bool" where
  "meets_k_min s \<longleftrightarrow> success_count s \<ge> write_quorum (length (fs_homes_tried s))"

definition record_reply :: "bytes \<Rightarrow> forward_outcome \<Rightarrow> forward_summary \<Rightarrow> forward_summary" where
  "record_reply node_id outcome s =
     (case outcome of
        Delivered \<Rightarrow> s\<lparr> fs_delivered_at := fs_delivered_at s @ [node_id] \<rparr>
      | Stored \<Rightarrow> s\<lparr> fs_stored_at := fs_stored_at s @ [node_id] \<rparr>
      | other \<Rightarrow> s\<lparr> fs_failed_at := fs_failed_at s @ [(node_id, other)] \<rparr>)"

text \<open>
  The replies of \<^verbatim>\<open>fan_out\<close>: one task per peer, collected in the order \<^verbatim>\<open>done_order\<close> in which they end,
  those without an answer left out.  Of the responses only \<^verbatim>\<open>Forward\<close> matters here.
\<close>

datatype dht_reply = Reply_Forward forward_outcome | Reply_Other

definition fan_out ::
  "(node_descriptor list \<Rightarrow> node_descriptor list) \<Rightarrow> (node_descriptor \<Rightarrow> 'q \<Rightarrow> dht_reply option) \<Rightarrow> node_descriptor list \<Rightarrow> 'q
   \<Rightarrow> (bytes \<times> dht_reply) list" where
  "fan_out done_order rpc peers req =
     List.map_filter (\<lambda>p. map_option (\<lambda>reply. (nd_id p, reply)) (rpc p req)) (done_order peers)"

definition build_signed_forward :: "dht \<Rightarrow> (bytes \<Rightarrow> bytes) \<Rightarrow> dispatch \<Rightarrow> u64 \<Rightarrow> forward" where
  "build_signed_forward dht sign d timestamp =
     \<lparr> f_dispatch = d, f_sender_relay_id = dh_node_id dht, f_timestamp = timestamp,
       f_sig = sign (forward_signing_input (d_id d) (dh_node_id dht) timestamp) \<rparr>"

fun record_replies :: "(bytes \<times> dht_reply) list \<Rightarrow> forward_summary \<Rightarrow> forward_summary" where
  "record_replies [] s = s"
| "record_replies ((node_id, Reply_Forward outcome) # rs) s = record_replies rs (record_reply node_id outcome s)"
| "record_replies ((node_id, Reply_Other) # rs) s = record_replies rs s"

text \<open>The part of \<^verbatim>\<open>forward_to_homes\<close> that runs when this relay is a home itself.\<close>

definition forward_to_self ::
  "relay_env \<Rightarrow> live_io \<Rightarrow> bool \<Rightarrow> dispatch \<Rightarrow> u64 \<Rightarrow> dht \<Rightarrow> dht \<times> forward_outcome" where
  "forward_to_self e io barrier d now_ms dht =
     (let live = (case valid_lease e dht (d_to d) now_ms of
                    None \<Rightarrow> False
                  | Some lease \<Rightarrow> forward_via_active_lease dht (lv_sign io) (lv_rpc io) d lease (lv_now io));
          (dht1, outcome) =
            (if live then (dht, Delivered)
             else case enqueue_for_home (re_io e) (re_serde e) (d_to d) d now_ms (dh_queue dht) of
                    (q', stored) \<Rightarrow> (dht\<lparr> dh_queue := q' \<rparr>, if stored = Stored \<and> \<not> barrier then BadSig else stored))
      in (if outcome = Stored \<and> wakes (d_wake d) then trigger_wake (d_to d) (d_wake d) dht1 else dht1, outcome))"

record net_io =
  nt_order :: "node_descriptor list \<Rightarrow> node_descriptor list"
  nt_rpc :: "node_descriptor \<Rightarrow> forward \<Rightarrow> dht_reply option"

definition forward_to_homes ::
  "relay_env \<Rightarrow> live_io \<Rightarrow> net_io \<Rightarrow> bool \<Rightarrow> dispatch \<Rightarrow> u64 \<Rightarrow> dht
   \<Rightarrow> dht \<times> (nat \<times> nat \<times> forward_summary + forward_summary)" where
  "forward_to_homes e io net barrier d now_ms dht =
     (case homes (dh_table dht) (d_to d) of (descriptors, self_is_home) \<Rightarrow>
        let homes_tried = map nd_id descriptors @ (if self_is_home then [dh_node_id dht] else []);
            (dht1, summary1) =
              (if self_is_home
               then case forward_to_self e io barrier d now_ms dht of
                      (dht1, outcome) \<Rightarrow> (dht1, record_reply (dh_node_id dht) outcome summary_default)
               else (dht, summary_default));
            fwd = build_signed_forward dht1 (lv_sign io) d now_ms;
            summary = (record_replies (fan_out (nt_order net) (nt_rpc net) descriptors fwd) summary1)
                        \<lparr> fs_homes_tried := homes_tried \<rparr>
        in if \<not> meets_k_min summary
           then (dht1, Inl (write_quorum (length homes_tried), success_count summary, summary))
           else (dht1, Inr summary))"

section \<open>Collected replies\<close>

definition replied :: "forward_outcome \<Rightarrow> (bytes \<times> dht_reply) list \<Rightarrow> bytes list" where
  "replied oc rs = map fst (filter (\<lambda>r. snd r = Reply_Forward oc) rs)"

lemma replied_simps [simp]:
  "replied oc [] = []"
  "replied oc ((i, r) # rs) = (if r = Reply_Forward oc then i # replied oc rs else replied oc rs)"
  by (simp_all add: replied_def)

lemma record_replies_lists:
  "fs_delivered_at (record_replies rs s) = fs_delivered_at s @ replied Delivered rs"
  "fs_stored_at (record_replies rs s) = fs_stored_at s @ replied Stored rs"
  by (induction rs s rule: record_replies.induct) (auto simp: record_reply_def split: forward_outcome.split)

lemma fan_out_ids: "map fst (fan_out order rpc ps req) = map nd_id (filter (\<lambda>p. rpc p req \<noteq> None) (order ps))"
proof -
  have "map fst (List.map_filter (\<lambda>p. map_option (\<lambda>reply. (nd_id p, reply)) (rpc p req)) qs)
      = map nd_id (filter (\<lambda>p. rpc p req \<noteq> None) qs)" for qs
    by (induction qs) (auto simp: List.map_filter_simps split: option.split)
  then show ?thesis by (simp add: fan_out_def)
qed

lemma fan_out_mem:
  "(i, r) \<in> set (fan_out order rpc ps req) \<Longrightarrow> \<exists>p \<in> set (order ps). nd_id p = i \<and> rpc p req = Some r"
  by (auto simp: fan_out_def List.map_filter_def split: option.splits)

lemma distinct_replied:
  assumes "distinct (map fst rs)"
  shows "distinct (replied a rs)" "set (replied a rs) \<subseteq> set (map fst rs)" "a \<noteq> b \<Longrightarrow> set (replied a rs) \<inter> set (replied b rs) = {}"
proof -
  show "distinct (replied a rs)" unfolding replied_def using assms by (rule distinct_map_filter)
  show "set (replied a rs) \<subseteq> set (map fst rs)" by (auto simp: replied_def)
  show "set (replied a rs) \<inter> set (replied b rs) = {}" if "a \<noteq> b"
  proof (rule ccontr)
    assume "set (replied a rs) \<inter> set (replied b rs) \<noteq> {}"
    then obtain i where "(i, Reply_Forward a) \<in> set rs" "(i, Reply_Forward b) \<in> set rs" by (auto simp: replied_def)
    then show False using eq_key_imp_eq_value [OF assms] that by blast
  qed
qed

lemma distinct_two_parts:
  "distinct A \<Longrightarrow> distinct B \<Longrightarrow> set A \<inter> set B = {} \<Longrightarrow> x \<notin> set A \<Longrightarrow> x \<notin> set B \<Longrightarrow> \<not> (P \<and> Q)
   \<Longrightarrow> distinct (((if P then [x] else []) @ A) @ (if Q then [x] else []) @ B)"
  by (cases P; cases Q) auto

lemma homes_distinct:
  assumes "table_inv cr (t, clock)" "id32 (rt_self_id t)"
  shows "distinct (map nd_id (fst (homes t target)))" "rt_self_id t \<notin> nd_id ` set (fst (homes t target))"
proof -
  have ids: "map nd_id (find_closest t target n) = take n (sort_key (xdist target) (map re_id (all_entries t)))" for n
    by (rule map_find_closest)
  have dist: "distinct (map nd_id (find_closest t target K))"
    unfolding ids using distinct_all_entries [OF assms(1)] by (meson distinct_sort distinct_take)
  have cut: "\<exists>n. fst (homes t target) = take n (find_closest t target K)"
    by (auto simp: homes_def Let_def intro: exI [of _ "length (find_closest t target K)"])
  then show "distinct (map nd_id (fst (homes t target)))" using dist by (metis distinct_take take_map)
  have "set (map nd_id (find_closest t target K)) \<subseteq> known_ids t"
    unfolding ids known_ids_def using set_take_subset by fastforce
  then show "rt_self_id t \<notin> nd_id ` set (fst (homes t target))"
    using cut self_not_known [OF assms] by (metis image_mono in_mono list.set_map set_take_subset)
qed

section \<open>Quorum\<close>

text \<open>Where the copy of this relay ends up: live, or in the queue under the persist barrier.\<close>

definition queued_here :: "relay_env \<Rightarrow> dispatch \<Rightarrow> dht \<Rightarrow> bool" where
  "queued_here e d dht \<longleftrightarrow>
     (\<exists>row \<in> set (queue_rows (dh_queue dht) (d_to d)). row_id row = d_id d \<and> queued_from (re_serde e) (d_to d) (d_from d) (snd row))"

text \<open>A relay in good order, and a dispatch with fields of the right width.\<close>

definition relay_ok :: "relay_env \<Rightarrow> nat \<Rightarrow> dispatch \<Rightarrow> dht \<Rightarrow> bool" where
  "relay_ok e clock d dht \<longleftrightarrow>
     scan_sound (re_io e) \<and> serde_ok (re_serde e) \<and> ks_wf (dh_queue dht)
     \<and> table_inv (re_crypto e) (dh_table dht, clock) \<and> id32 (dh_node_id dht) \<and> length (d_to d) = 32 \<and> length (d_id d) = 16"

lemma enqueue_here:
  assumes "relay_ok e clock d dht" "enqueue_for_home (re_io e) (re_serde e) (d_to d) d now_ms (dh_queue dht) = (q', Stored)"
  shows "queued_here e d (dht\<lparr> dh_queue := q' \<rparr>)"
  using enqueue_stored_row [of "re_io e" "re_serde e" "dh_queue dht" "d_to d" d now_ms] assms
  by (simp add: relay_ok_def queued_here_def)

lemma queued_here_wake [simp]: "queued_here e d (trigger_wake u w dht) = queued_here e d dht"
  by (simp add: queued_here_def trigger_wake_def)

lemma table_wake [simp]: "dh_table (trigger_wake u w dht) = dh_table dht"
  by (simp add: trigger_wake_def)

lemma forward_to_self_result:
  assumes "relay_ok e clock d dht" "forward_to_self e io barrier d now_ms dht = (dht', oc)"
  shows "dh_table dht' = dh_table dht" "oc = Stored \<Longrightarrow> barrier \<and> queued_here e d dht'"
proof -
  obtain q' st where enq: "enqueue_for_home (re_io e) (re_serde e) (d_to d) d now_ms (dh_queue dht) = (q', st)"
    by (rule prod.exhaust)
  show "dh_table dht' = dh_table dht"
    using assms(2) by (auto simp: forward_to_self_def Let_def enq split: if_splits option.splits)
  show "barrier \<and> queued_here e d dht'" if "oc = Stored"
    using assms(2) that enqueue_here [OF assms(1), of now_ms q'] enq
    by (auto simp: forward_to_self_def Let_def split: if_splits option.splits)
qed

text \<open>The parts of a fan-out: the relay's own copy, and the replies of the other homes.\<close>

lemma forward_to_homes_parts:
  assumes ok: "relay_ok e clock d dht" and run: "forward_to_homes e io net barrier d now_ms dht = (dht', res)"
  defines "peers \<equiv> fst (homes (dh_table dht) (d_to d))" and "is_home \<equiv> snd (homes (dh_table dht) (d_to d))"
  obtains s oc where
    "res = (if success_count s \<ge> write_quorum (length (fs_homes_tried s)) then Inr s
            else Inl (write_quorum (length (fs_homes_tried s)), success_count s, s))"
    "fs_homes_tried s = map nd_id peers @ (if is_home then [dh_node_id dht] else [])"
    "is_home \<Longrightarrow> oc = Stored \<Longrightarrow> barrier \<and> queued_here e d dht'"
    "fs_delivered_at s = (if is_home \<and> oc = Delivered then [dh_node_id dht] else [])
       @ replied Delivered (fan_out (nt_order net) (nt_rpc net) peers (build_signed_forward dht (lv_sign io) d now_ms))"
    "fs_stored_at s = (if is_home \<and> oc = Stored then [dh_node_id dht] else [])
       @ replied Stored (fan_out (nt_order net) (nt_rpc net) peers (build_signed_forward dht (lv_sign io) d now_ms))"
proof -
  have hs: "homes (dh_table dht) (d_to d) = (peers, is_home)" by (simp add: peers_def is_home_def)
  obtain dht1 oc where self: "forward_to_self e io barrier d now_ms dht = (dht1, oc)" by (rule prod.exhaust)
  note self' = forward_to_self_result [OF ok self]
  have sign: "build_signed_forward dht1 (lv_sign io) d now_ms = build_signed_forward dht (lv_sign io) d now_ms"
    by (simp add: build_signed_forward_def self'(1))
  show thesis
    using run self' that [of _ oc]
    by (cases is_home)
      (auto simp: forward_to_homes_def hs self sign Let_def meets_k_min_def success_count_def record_replies_lists
        record_reply_def summary_default_def split: forward_outcome.splits if_splits)
qed



section \<open>One primary home\<close>

text \<open>
  Two relays that know each other never both take themselves for the primary home, and a relay that
  is nearer than all it knows is one.
\<close>

lemma primary_home_iff:
  assumes "table_inv cr (dh_table dht, clock)"
  shows "is_primary_home dht recipient \<longleftrightarrow> (\<forall>i \<in> known_ids (dh_table dht). xor32 (dh_node_id dht) recipient < xor32 i recipient)"
proof -
  let ?es = "sort_key (entry_dist recipient) (all_entries (dh_table dht))"
  have dist: "entry_dist recipient x = xor32 (re_id x) recipient" for x by (simp add: entry_dist_def)
  have known: "known_ids (dh_table dht) = re_id ` set ?es" by (simp add: known_ids_def)
  show ?thesis
  proof (cases ?es)
    case Nil
    then show ?thesis using known by (simp add: is_primary_home_def rt_closest_def)
  next
    case (Cons p ps)
    have "sorted (map (entry_dist recipient) ?es)" by simp
    then have least: "xor32 (re_id p) recipient \<le> xor32 (re_id x) recipient" if "x \<in> set ?es" for x
      using that unfolding Cons dist by auto
    have "p \<in> set ?es" by (simp add: Cons)
    then show ?thesis unfolding known is_primary_home_def rt_closest_def using least Cons by (auto intro: less_le_trans)
  qed
qed

lemma primary_home_unique:
  assumes "table_inv cr (dh_table a, c1)" "table_inv cr (dh_table b, c2)"
    "dh_node_id b \<in> known_ids (dh_table a)" "dh_node_id a \<in> known_ids (dh_table b)"
  shows "\<not> (is_primary_home a recipient \<and> is_primary_home b recipient)"
  using assms(3,4) less_asym unfolding primary_home_iff [OF assms(1)] primary_home_iff [OF assms(2)] by blast

section \<open>A sole home\<close>

definition sole_env :: relay_env where
  "sole_env = \<lparr> re_crypto = \<lparr> blake3 = pad_to 32, key_ok = (\<lambda>_. True), verify_strict = (\<lambda>_ _ _. True) \<rparr>,
     re_io = healthy_io, re_serde = flat_serde, re_lease_serde = \<lparr> ser_lease = (\<lambda>_. None), de_lease = (\<lambda>_. None) \<rparr>,
     re_approximate_len = length \<rparr>"

definition sole_dht :: dht where
  "sole_dht = \<lparr> dh_table = table_empty 0 (replicate 32 4), dh_peer_conns = (\<lambda>_. Some (replicate 32 5)), dh_clients = (\<lambda>_. False),
     dh_presence_leases = (\<lambda>_. None), dh_queue = [], dh_lease_rows = [], dh_consent_rows = [], dh_state_rows = [],
     dh_maintenance = ms_default, dh_wakes = [] \<rparr>"

definition sole_live :: live_io where
  "sole_live = \<lparr> lv_local = False, lv_sign = (\<lambda>_. []), lv_rpc = (\<lambda>_ _. False), lv_now = 5, lv_timed_out = False \<rparr>"

definition sole_net :: net_io where
  "sole_net = \<lparr> nt_order = id, nt_rpc = (\<lambda>_ _. None) \<rparr>"

lemma sole_homes: "homes (dh_table sole_dht) target = ([], True)"
proof -
  have "all_entries (dh_table sole_dht) = []"
    by (auto simp: all_entries_def sole_dht_def table_empty_def bucket_empty_def concat_eq_Nil_conv)
  then show ?thesis by (simp add: homes_def find_closest_def rt_closest_def K_def Let_def)
qed

lemma sole_ok: "relay_ok sole_env 0 (demo_dispatch 1 2 3) sole_dht"
  using table_inv_empty
  by (simp add: relay_ok_def sole_env_def sole_dht_def scan_sound_healthy serde_ok_flat id32_def demo_dispatch_def)
    (simp add: table_empty_def)

lemma sole_lease: "valid_lease sole_env sole_dht user now_ms = None"
  by (simp add: valid_lease_def get_presence_lease_def sole_env_def sole_dht_def io_get_def ks_get_def)

lemma sole_enqueue:
  "enqueue_for_home (re_io sole_env) (re_serde sole_env) (d_to (demo_dispatch 1 2 3)) (demo_dispatch 1 2 3) 5 (dh_queue sole_dht)
   = (demo_queue, Stored)"
  using demo_enqueue by (simp add: sole_env_def sole_dht_def demo_dispatch_def)


definition sole_forward :: forward where
  "sole_forward = \<lparr> f_dispatch = demo_dispatch 1 2 3, f_sender_relay_id = replicate 32 6, f_timestamp = 5, f_sig = [] \<rparr>"


end
