(* ===== verification/Ingress.thy ===== *)
theory Ingress
  imports Forwarding
begin

text \<open>
  A dispatch entering the network at the sender's relay
  (\<^verbatim>\<open>relay/src/quic/handler/client/events/forward.rs\<close>): it is checked, accepted into the relay's own
  durable queue, acknowledged, then routed live or to the homes, and the local copy is retired only
  when the recipient or a quorum of homes has it.
\<close>

datatype dispatch_ack =
    Ack_Queued u64 | Ack_Delivered u64 | Ack_NotFound | Ack_InvalidSig | Ack_QueueFull | Ack_Forwarded u64 | Ack_Error bytes

text \<open>The relay: its own \<^verbatim>\<open>messages\<close> keyspace beside the shared state, and whether it runs the DHT.\<close>

record relay =
  rl_messages :: keyspace
  rl_dht :: dht
  rl_dht_on :: bool

section \<open>Storing and retiring the local copy\<close>

definition store_in_rocks :: "relay_env \<Rightarrow> bool \<Rightarrow> dispatch \<Rightarrow> relay \<Rightarrow> relay \<times> (unit + dispatch_ack)" where
  "store_in_rocks e barrier d s =
     (let queued = (if barrier then Inr (Ack_Queued (d_accepted_at_ms d)) else Inl ()) in
      case admit_to_queue (re_io e) (re_serde e) (rl_messages s) (d_to d) (d_id d) (d_from d) of
        queue_admission.Insert \<Rightarrow>
          (case ser_dispatch (re_serde e) d of
             None \<Rightarrow> (s, Inl ())
           | Some val \<Rightarrow>
               (case put_sync (re_io e) (mk_as_bytes (mk_new (d_to d) (d_accepted_at_ms d) (d_id d))) val
                       (rl_messages s, dh_maintenance (rl_dht s)) of
                  ((ms, mt), res) \<Rightarrow>
                    (s\<lparr> rl_messages := ms, rl_dht := (rl_dht s)\<lparr> dh_maintenance := mt \<rparr> \<rparr>,
                     case res of Inl _ \<Rightarrow> Inl () | Inr _ \<Rightarrow> queued)))
      | AlreadyQueued \<Rightarrow> (s, queued)
      | IdTakenByOther \<Rightarrow> (s, Inr (Ack_Error (ascii ''dispatch id already queued'')))
      | ScanFailed \<Rightarrow> (s, Inr (Ack_Error (ascii ''queue scan failed'')))
      | Full \<Rightarrow> (s, Inr Ack_QueueFull))"

text \<open>The rows of exactly this signed dispatch, or nothing when the scan fails.\<close>

definition exact_copy :: "serde \<Rightarrow> dispatch \<Rightarrow> bytes \<times> bytes \<Rightarrow> bool" where
  "exact_copy sd d kv \<longleftrightarrow>
     (case mk_parse (fst kv) of
        None \<Rightarrow> False
      | Some key \<Rightarrow> mk_id key = d_id d
          \<and> (case queued_dispatch sd (d_to d) (snd kv) of
               None \<Rightarrow> False
             | Some q \<Rightarrow> d_from q = d_from d \<and> d_payload q = d_payload d \<and> d_sig q = d_sig d))"

fun retire_scan :: "serde \<Rightarrow> dispatch \<Rightarrow> (bytes \<times> bytes) option list \<Rightarrow> bytes list option" where
  "retire_scan sd d [] = Some []"
| "retire_scan sd d (None # gs) = None"
| "retire_scan sd d (Some kv # gs) =
     map_option (\<lambda>keys. if exact_copy sd d kv then fst kv # keys else keys) (retire_scan sd d gs)"

definition retire_local_copy :: "relay_env \<Rightarrow> bool \<Rightarrow> dispatch \<Rightarrow> relay \<Rightarrow> relay" where
  "retire_local_copy e commit_ok d s =
     (case retire_scan (re_serde e) d (fj_prefix (re_io e) (rl_messages s) (d_to d)) of
        None \<Rightarrow> s
      | Some keys \<Rightarrow> if commit_ok then s\<lparr> rl_messages := fold ks_remove keys (rl_messages s) \<rparr> else s)"

section \<open>Routing\<close>

definition ack_for_summary :: "forward_summary \<Rightarrow> u64 \<Rightarrow> dispatch_ack" where
  "ack_for_summary summary accepted_at_ms =
     (if any_delivered summary then Ack_Delivered accepted_at_ms else Ack_Forwarded accepted_at_ms)"

text \<open>
  What routing meets outside: the local connection's answer and whether it turned out closed, the homes,
  and the time limit, which drops the route and leaves it where it was.
\<close>

record route_io =
  ro_live :: live_io
  ro_net :: net_io
  ro_barrier :: bool
  ro_deliver_ok :: bool
  ro_conn_closed :: bool
  ro_timed_out :: bool
  ro_left_at :: "relay \<Rightarrow> relay"

definition route_dispatch :: "relay_env \<Rightarrow> route_io \<Rightarrow> dispatch \<Rightarrow> relay \<Rightarrow> relay \<times> dispatch_ack option" where
  "route_dispatch e io d s =
     (let here = dh_clients (rl_dht s) (d_to d) in
      if here \<and> ro_deliver_ok io then (s, Some (Ack_Delivered (d_accepted_at_ms d)))
      else let s1 = (if here \<and> ro_conn_closed io
                     then s\<lparr> rl_dht := (rl_dht s)\<lparr> dh_clients := (dh_clients (rl_dht s))(d_to d := False) \<rparr> \<rparr> else s)
           in if \<not> rl_dht_on s then (s1, None)
              else case forward_to_homes e (ro_live io) (ro_net io) (ro_barrier io) d (d_accepted_at_ms d) (rl_dht s1) of
                (dht', Inr summary) \<Rightarrow> (s1\<lparr> rl_dht := dht' \<rparr>, Some (ack_for_summary summary (d_accepted_at_ms d)))
              | (dht', Inl _) \<Rightarrow> (s1\<lparr> rl_dht := dht' \<rparr>, None))"

definition timed_route :: "relay_env \<Rightarrow> route_io \<Rightarrow> dispatch \<Rightarrow> relay \<Rightarrow> relay \<times> dispatch_ack option" where
  "timed_route e io d s =
     (if ro_timed_out io then (s\<lparr> rl_dht := rl_dht (ro_left_at io s) \<rparr>, None) else route_dispatch e io d s)"

text \<open>
  \<^verbatim>\<open>accept_dispatch\<close>: the relay afterwards, the acknowledgement that was sent (none when storing failed), and
  what the route came to.
\<close>

definition accept_dispatch ::
  "relay_env \<Rightarrow> route_io \<Rightarrow> bool \<Rightarrow> bool \<Rightarrow> dispatch \<Rightarrow> relay \<Rightarrow> relay \<times> dispatch_ack option \<times> dispatch_ack option" where
  "accept_dispatch e io barrier commit_ok d s =
     (case store_in_rocks e barrier d s of
        (s1, Inl _) \<Rightarrow> (s1, None, None)
      | (s1, Inr (Ack_Queued t)) \<Rightarrow>
          (case timed_route e io d s1 of
             (s2, Some (Ack_Delivered t')) \<Rightarrow> (retire_local_copy e commit_ok d s2, Some (Ack_Queued t), Some (Ack_Delivered t'))
           | (s2, Some (Ack_Forwarded t')) \<Rightarrow> (retire_local_copy e commit_ok d s2, Some (Ack_Queued t), Some (Ack_Forwarded t'))
           | (s2, routed) \<Rightarrow> (s2, Some (Ack_Queued t), routed))
      | (s1, Inr Ack_QueueFull) \<Rightarrow>
          (case timed_route e io d s1 of
             (s2, routed) \<Rightarrow> (s2, Some (case routed of None \<Rightarrow> Ack_QueueFull | Some ack \<Rightarrow> ack), routed))
      | (s1, Inr other) \<Rightarrow> (s1, Some other, None))"

definition handle_forward ::
  "relay_env \<Rightarrow> route_io \<Rightarrow> bool \<Rightarrow> bool \<Rightarrow> bytes \<Rightarrow> bool \<Rightarrow> dispatch \<Rightarrow> u64 \<Rightarrow> relay
   \<Rightarrow> relay \<times> dispatch_ack option \<times> dispatch_ack option" where
  "handle_forward e io barrier commit_ok session_ipk within_budget fwd now_ms s =
     (if d_from fwd \<noteq> session_ipk then (s, Some Ack_InvalidSig, None)
      else if \<not> within_budget then (s, Some Ack_QueueFull, None)
      else if \<not> verify_dispatch_user_sig (re_crypto e) fwd then (s, Some Ack_InvalidSig, None)
      else accept_dispatch e io barrier commit_ok (fwd\<lparr> d_accepted_at_ms := now_ms \<rparr>) s)"

text \<open>Typing notices are sent on and never stored: delivered here, or offered to the homes.\<close>

datatype activity_route = Dropped | Sent_Here | To_Homes

definition handle_activity :: "relay_env \<Rightarrow> bytes \<Rightarrow> bool \<Rightarrow> activity \<Rightarrow> u64 \<Rightarrow> relay \<Rightarrow> activity_route" where
  "handle_activity e session_ipk within_budget a now_ms s =
     (if \<not> within_budget then Dropped
      else if ac_from a \<noteq> session_ipk then Dropped
      else if \<not> activity_is_authentic (re_crypto e) a now_ms then Dropped
      else if dh_clients (rl_dht s) (ac_to a) then Sent_Here
      else if rl_dht_on s then To_Homes else Dropped)"

section \<open>The local copy\<close>

lemma store_is_enqueue:
  assumes "store_in_rocks e barrier d s = (s1, res)"
  shows "rl_messages s1 = fst (enqueue_for_home (re_io e) (re_serde e) (d_to d) d (d_accepted_at_ms d) (rl_messages s))"
    "res = Inr (Ack_Queued t) \<Longrightarrow> barrier \<and> t = d_accepted_at_ms d
       \<and> snd (enqueue_for_home (re_io e) (re_serde e) (d_to d) d (d_accepted_at_ms d) (rl_messages s)) = Stored"
    "res \<noteq> Inr (Ack_Delivered t)" "res \<noteq> Inr (Ack_Forwarded t)"
  using assms
  by (auto simp: store_in_rocks_def enqueue_for_home_def put_sync_def io_insert_def Let_def
      split: queue_admission.splits option.splits if_splits sum.splits)

lemma timed_route_messages: "rl_messages (fst (timed_route e io d s)) = rl_messages s"
  by (auto simp: timed_route_def route_dispatch_def Let_def split: prod.split sum.split)

lemma exact_copy_accepted: "exact_copy sd (d\<lparr> d_accepted_at_ms := t \<rparr>) = exact_copy sd d"
  by (auto simp: exact_copy_def fun_eq_iff split: option.split)

lemma retire_scan_keys:
  "retire_scan sd d gs = Some keys \<Longrightarrow> k \<in> set keys \<Longrightarrow> \<exists>v. Some (k, v) \<in> set gs \<and> exact_copy sd d (k, v)"
proof (induction sd d gs arbitrary: keys rule: retire_scan.induct)
  case (3 sd d kv gs)
  then show ?case by (cases kv) (auto split: if_splits; blast)
qed auto

lemma retire_removes:
  assumes io: "scan_sound (re_io e)" and wf: "ks_wf (rl_messages s)"
    and kv: "kv \<in> set (rl_messages s)" "kv \<notin> set (rl_messages (retire_local_copy e commit_ok d s))"
  shows "exact_copy (re_serde e) d kv"
proof -
  obtain keys where keys: "retire_scan (re_serde e) d (fj_prefix (re_io e) (rl_messages s) (d_to d)) = Some keys"
    and gone: "kv \<notin> set (fold ks_remove keys (rl_messages s))"
    using kv by (auto simp: retire_local_copy_def split: option.splits if_splits)
  have "fst kv \<in> set keys" using gone kv(1) by (auto simp: set_ks_removes)
  from retire_scan_keys [OF keys this] obtain v
    where v: "Some (fst kv, v) \<in> set (fj_prefix (re_io e) (rl_messages s) (d_to d))" "exact_copy (re_serde e) d (fst kv, v)" by blast
  have "(fst kv, v) \<in> set (rl_messages s)"
    using reads_rows_mem [OF scan_sound_prefix [OF io wf] v(1)] by (auto simp: set_ks_prefix)
  then have "v = snd kv" using kv(1) ks_get_mem [OF wf] by (metis option.inject prod.collapse)
  then show ?thesis using v(2) by simp
qed

lemma route_forwarded:
  assumes "timed_route e io d s = (s', Some ack)"
  obtains "ack = Ack_Delivered (d_accepted_at_ms d)" "dh_clients (rl_dht s) (d_to d)" "ro_deliver_ok io"
  | dht dht' summary where
      "forward_to_homes e (ro_live io) (ro_net io) (ro_barrier io) d (d_accepted_at_ms d) dht = (dht', Inr summary)"
      "ack = ack_for_summary summary (d_accepted_at_ms d)"
  using assms by (auto simp: timed_route_def route_dispatch_def Let_def split: if_splits prod.splits sum.splits)

lemma route_ack:
  "timed_route e io d s = (s', Some ack) \<Longrightarrow> ack \<in> {Ack_Delivered (d_accepted_at_ms d), Ack_Forwarded (d_accepted_at_ms d)}"
  by (erule route_forwarded) (simp_all add: ack_for_summary_def)

text \<open>The cases of \<^verbatim>\<open>accept_dispatch\<close> that acknowledge a message.\<close>

lemma accept_cases:
  assumes run: "accept_dispatch e io barrier commit_ok d s = (s', Some ack, routed)"
  obtains (kept) s1 s2 where "store_in_rocks e barrier d s = (s1, Inr (Ack_Queued (d_accepted_at_ms d)))" "barrier"
      "ack = Ack_Queued (d_accepted_at_ms d)" "timed_route e io d s1 = (s2, routed)" "s' = s2"
  | (retired) s1 s2 where "store_in_rocks e barrier d s = (s1, Inr (Ack_Queued (d_accepted_at_ms d)))" "barrier"
      "ack = Ack_Queued (d_accepted_at_ms d)" "timed_route e io d s1 = (s2, routed)"
      "s' = retire_local_copy e commit_ok d s2"
      "routed \<in> {Some (Ack_Delivered (d_accepted_at_ms d)), Some (Ack_Forwarded (d_accepted_at_ms d))}"
  | (full) s1 where "store_in_rocks e barrier d s = (s1, Inr Ack_QueueFull)" "timed_route e io d s1 = (s', routed)"
      "ack = (case routed of None \<Rightarrow> Ack_QueueFull | Some a \<Rightarrow> a)"
  | (refused) "fst (store_in_rocks e barrier d s) = s'" "routed = None"
      "ack \<noteq> Ack_Queued t" "ack \<noteq> Ack_Delivered t" "ack \<noteq> Ack_Forwarded t"
proof -
  obtain s1 res where st: "store_in_rocks e barrier d s = (s1, res)" by (rule prod.exhaust)
  obtain s2 ro where rt: "timed_route e io d s1 = (s2, ro)" by (rule prod.exhaust)
  note store = store_is_enqueue(2-4) [OF st]
  have time: "a \<in> {Ack_Delivered (d_accepted_at_ms d), Ack_Forwarded (d_accepted_at_ms d)}" if "ro = Some a" for a
    using route_ack [of e io d s1 s2 a] rt that by simp
  show thesis
  proof (cases res)
    case (Inl u)
    then show thesis using run st by (simp add: accept_dispatch_def)
  next
    case (Inr a)
    show thesis
    proof (cases a)
      case (Ack_Queued t')
      then have q: "barrier" "t' = d_accepted_at_ms d" using store(1) Inr by auto
      show thesis
      proof (cases ro)
        case None
        then show thesis using run st rt Inr Ack_Queued q kept by (simp add: accept_dispatch_def)
      next
        case (Some b)
        then show thesis using run st rt Inr Ack_Queued q retired time [OF Some] by (auto simp: accept_dispatch_def)
      qed
    next
      case Ack_QueueFull
      then have "s2 = s'" "ro = routed" "ack = (case routed of None \<Rightarrow> Ack_QueueFull | Some a \<Rightarrow> a)"
        using run st rt Inr by (auto simp: accept_dispatch_def)
      then show thesis using full [of s1] st rt Inr Ack_QueueFull by simp
    qed (use run st Inr refused store in \<open>auto simp: accept_dispatch_def\<close>)
  qed
qed

lemma accepted_row:
  assumes "scan_sound (re_io e)" "serde_ok (re_serde e)" "queue_inv (rl_messages s)" "length (d_to d) = 32" "length (d_id d) = 16"
    and "store_in_rocks e barrier d s = (s1, Inr (Ack_Queued t))"
  shows "\<exists>row \<in> set (queue_rows (rl_messages s1) (d_to d)). row_id row = d_id d \<and> queued_from (re_serde e) (d_to d) (d_from d) (snd row)"
proof -
  have wf: "ks_wf (rl_messages s)" using assms(3) by (simp add: queue_inv_def)
  show ?thesis
    using enqueue_stored_row [OF assms(1,2) wf assms(4,5)] store_is_enqueue(1,2) [OF assms(6)] by simp
qed

lemma stored_messages:
  assumes "scan_sound (re_io e)" "queue_inv (rl_messages s)" "length (d_to d) = 32" "length (d_id d) = 16"
    and "store_in_rocks e barrier d s = (s1, res)"
  shows "set (rl_messages s) \<subseteq> set (rl_messages s1)" "ks_wf (rl_messages s1)"
proof -
  have wf: "ks_wf (rl_messages s)" using assms(2) by (simp add: queue_inv_def)
  show "set (rl_messages s) \<subseteq> set (rl_messages s1)"
    unfolding store_is_enqueue(1) [OF assms(5)] by (rule enqueue_keeps [OF assms(1) wf assms(3,4)])
  show "ks_wf (rl_messages s1)"
    unfolding store_is_enqueue(1) [OF assms(5)]
    using queue_inv_enqueue [OF assms(2,1,3,4)] by (simp add: queue_inv_def)
qed

section \<open>Properties\<close>

text \<open>What a route that ended in an acknowledgement has shown.\<close>

definition routed_ok :: "relay_env \<Rightarrow> route_io \<Rightarrow> dispatch \<Rightarrow> dispatch_ack option \<Rightarrow> bool" where
  "routed_ok e io d routed \<longleftrightarrow>
     (case routed of
        Some (Ack_Delivered _) \<Rightarrow> ro_deliver_ok io
          \<or> (\<exists>dht dht' sm. forward_to_homes e (ro_live io) (ro_net io) (ro_barrier io) d (d_accepted_at_ms d) dht = (dht', Inr sm)
               \<and> any_delivered sm)
      | Some (Ack_Forwarded _) \<Rightarrow>
          (\<exists>dht dht' sm. forward_to_homes e (ro_live io) (ro_net io) (ro_barrier io) d (d_accepted_at_ms d) dht = (dht', Inr sm))
      | _ \<Rightarrow> False)"

lemma timed_route_ok: "timed_route e io d s = (s', Some ack) \<Longrightarrow> routed_ok e io d (Some ack)"
  by (erule route_forwarded) (auto simp: routed_ok_def ack_for_summary_def)


text \<open>A relay without the DHT and with nobody connected: it keeps the dispatch for a later drain.\<close>

definition idle_relay :: relay where
  "idle_relay = \<lparr> rl_messages = [], rl_dht = sole_dht, rl_dht_on = False \<rparr>"

definition idle_route :: route_io where
  "idle_route = \<lparr> ro_live = sole_live, ro_net = sole_net, ro_barrier = True, ro_deliver_ok = False, ro_conn_closed = False,
     ro_timed_out = False, ro_left_at = id \<rparr>"

lemma idle_accepts:
  "\<exists>s'. handle_forward sole_env idle_route True True (replicate 32 2) True (demo_dispatch 1 2 3) 5 idle_relay
     = (s', Some (Ack_Queued 5), None)"
proof -
  have sig: "verify_dispatch_user_sig (re_crypto sole_env) (demo_dispatch 1 2 3)" "d_from (demo_dispatch 1 2 3) = replicate 32 2"
    by (simp_all add: verify_dispatch_user_sig_def verify_versioned_def verify_ed25519_def sole_env_def demo_dispatch_def
        split: prod.split)
  have route: "timed_route e idle_route d (idle_relay\<lparr> rl_messages := ms, rl_dht := sole_dht\<lparr> dh_maintenance := mt \<rparr> \<rparr>)
      = (idle_relay\<lparr> rl_messages := ms, rl_dht := sole_dht\<lparr> dh_maintenance := mt \<rparr> \<rparr>, None)" for e d ms mt
    by (simp add: timed_route_def route_dispatch_def idle_route_def idle_relay_def sole_dht_def Let_def)
  have "\<exists>ms mt. store_in_rocks sole_env True ((demo_dispatch 1 2 3)\<lparr> d_accepted_at_ms := 5 \<rparr>) idle_relay
      = (idle_relay\<lparr> rl_messages := ms, rl_dht := sole_dht\<lparr> dh_maintenance := mt \<rparr> \<rparr>, Inr (Ack_Queued 5))"
    by (simp add: store_in_rocks_def idle_relay_def sole_env_def admit_to_queue_def ks_prefix_def admit_verdict_def
        MAX_QUEUED_PER_RECIPIENT_def MAX_QUEUED_PER_SENDER_def flat_serde_def flat_ser_def put_sync_def io_insert_def
        demo_dispatch_def) blast
  then show ?thesis using sig route by (auto simp: handle_forward_def accept_dispatch_def)
qed


end
