(* ===== verification/Spec2Isabelle.thy ===== *)
theory Spec2Isabelle
  imports Mls_Transcripts KeyPackage_Custody Welcome_Queue Policy Receiver_Integrity Ingress
begin

text \<open>
  A verification development for the promtuz relay network.
\<close>

end
